(* ===== verification/Prelude.thy ===== *)
theory Prelude
  imports Main "HOL-Library.Word"
begin

text \<open>
  Shared vocabulary of the development: the machine integers of the program, the
  collections of simplification rules the component theories extend, the byte-order
  conversions of the standard library (\<open>to_le_bytes\<close>, \<open>from_le_bytes\<close>,
  \<open>from_be_bytes\<close>), and generic lemmas on lists and words.
\<close>

unbundle bit_operations_syntax

type_synonym u8 = "8 word"
type_synonym u16 = "16 word"
type_synonym u32 = "32 word"
type_synonym u64 = "64 word"
type_synonym bytes = "8 word list"

text \<open>
  An \<open>i32\<close> of the source is the same 32 bits as a \<open>u32\<close>; where the source
  compares it as a signed number the model reads it with \<open>sint\<close>.
\<close>

type_synonym i32 = "32 word"

named_theorems byte_simps \<open>byte-order conversions\<close>
named_theorems io_simps \<open>running the I/O monad\<close>

section \<open>Byte order\<close>

definition from_le :: "bytes \<Rightarrow> 'a::len word" where
  "from_le bs = foldr (\<lambda>b acc. ucast b OR push_bit 8 acc) bs 0"

definition from_be :: "bytes \<Rightarrow> 'a::len word" where
  "from_be bs = from_le (rev bs)"

definition to_le :: "'a::len word \<Rightarrow> bytes" where
  "to_le w = map (\<lambda>i. ucast (drop_bit (8 * i) w)) [0..<LENGTH('a) div 8]"

definition to_be :: "'a::len word \<Rightarrow> bytes" where
  "to_be w = rev (to_le w)"

lemma length_to_le [simp]: "length (to_le (w :: 'a::len word)) = LENGTH('a) div 8"
  by (simp add: to_le_def)

lemma length_to_be [simp]: "length (to_be (w :: 'a::len word)) = LENGTH('a) div 8"
  by (simp add: to_be_def)

lemma from_le_Nil [simp]: "from_le [] = 0"
  by (simp add: from_le_def)

lemma from_le_Cons: "from_le (b # bs) = ucast b OR push_bit 8 (from_le bs)"
  by (simp add: from_le_def)

lemma bit_from_le:
  "bit (from_le bs :: 'a::len word) n \<longleftrightarrow>
     n < LENGTH('a) \<and> n div 8 < length bs \<and> bit (bs ! (n div 8)) (n mod 8)"
proof (induction bs arbitrary: n)
  case Nil
  then show ?case by simp
next
  case (Cons b bs)
  show ?case
  proof (cases "n < 8")
    case True
    then show ?thesis
      by (auto simp: from_le_Cons bit_or_iff bit_push_bit_iff bit_ucast_iff)
  next
    case False
    then obtain m where m: "n = m + 8"
      by (metis add.commute le_Suc_ex not_less)
    have "\<not> bit b n"
      using False bit_imp_le_length [of b n] by fastforce
    moreover have "(m + 8) div 8 = Suc (m div 8)" by simp
    ultimately show ?thesis
      unfolding m
      by (simp only: from_le_Cons bit_or_iff bit_push_bit_iff bit_ucast_iff Cons.IH nth_Cons_Suc)
        auto
  qed
qed

text \<open>The two directions of the fixed-width encoding.\<close>

lemma from_le_to_le [simp]:
  assumes "8 dvd LENGTH('a)"
  shows "from_le (to_le (w :: 'a::len word)) = w"
proof (rule bit_word_eqI)
  fix n
  assume n: "n < LENGTH('a)"
  have "n div 8 < LENGTH('a) div 8"
    using assms n by (auto elim!: dvdE)
  then show "bit (from_le (to_le w) :: 'a word) n = bit w n"
    using n by (simp add: bit_from_le to_le_def bit_ucast_iff bit_drop_bit_eq)
qed

lemma to_le_from_le [simp]:
  assumes "length bs = LENGTH('a) div 8"
  shows "to_le (from_le bs :: 'a::len word) = bs"
proof (rule nth_equalityI)
  show "length (to_le (from_le bs :: 'a word)) = length bs"
    using assms by simp
next
  fix i
  assume "i < length (to_le (from_le bs :: 'a word))"
  then have i: "i < length bs" using assms by simp
  show "to_le (from_le bs :: 'a word) ! i = bs ! i"
  proof (rule bit_word_eqI)
    fix n
    assume n: "n < LENGTH(8)"
    have lt: "8 * i + n < LENGTH('a)"
      using i n assms by simp
    then show "bit (to_le (from_le bs :: 'a word) ! i) n = bit (bs ! i) n"
      using i n assms
      by (simp add: to_le_def bit_ucast_iff bit_drop_bit_eq bit_from_le)
  qed
qed

lemma from_be_to_be [simp]:
  assumes "8 dvd LENGTH('a)"
  shows "from_be (to_be (w :: 'a::len word)) = w"
  using assms by (simp add: from_be_def to_be_def)

lemma to_be_from_be [simp]:
  assumes "length bs = LENGTH('a) div 8"
  shows "to_be (from_be bs :: 'a::len word) = bs"
  using assms by (simp add: from_be_def to_be_def)

section \<open>Lists\<close>

lemma take_append_exact [simp]: "length xs = n \<Longrightarrow> take n (xs @ ys) = xs"
  by simp

lemma drop_append_exact [simp]: "length xs = n \<Longrightarrow> drop n (xs @ ys) = ys"
  by simp

lemma list_split_at:
  assumes "n \<le> length xs"
  obtains ys zs where "xs = ys @ zs" and "length ys = n"
  using assms by (metis append_take_drop_id length_take min_absorb2)

end
