(* ===== verification/Std_IO.thy ===== *)
theory Std_IO
  imports Prelude
begin

text \<open>
  The part of \<open>std::io\<close> and \<open>std::net\<close> the program calls. A fallible operation on
  a stateful object is a function from the state to a result and the new state; \<open>None\<close>
  stands for a call that never returns, \<open>Inl\<close> for \<open>Err\<close> and \<open>Inr\<close> for \<open>Ok\<close>.
  \<open>read_exact\<close>, \<open>read_to_end\<close> and
  \<open>write_all\<close> are the loops of the standard library over an arbitrary reader or
  writer; the locales \<open>io_reader\<close> and \<open>io_writer\<close> state what a reader or writer
  has to promise for these loops to return, and they are interpreted for TCP streams, files
  and the encrypted wrappers in the theories that define them.
\<close>

section \<open>Errors and the I/O monad\<close>

datatype error_kind =
    WouldBlock | TimedOut | Interrupted | UnexpectedEof | ConnectionReset | BrokenPipe
  | ConnectionAborted | NotConnected | InvalidData | WriteZero | OtherKind

record io_error =
  err_kind :: error_kind
  err_msg :: string

type_synonym ('s, 'a) io = "'s \<Rightarrow> ((io_error + 'a) \<times> 's) option"

definition io_return :: "'a \<Rightarrow> ('s, 'a) io" where
  "io_return x s = Some (Inr x, s)"

definition io_throw :: "io_error \<Rightarrow> ('s, 'a) io" where
  "io_throw e s = Some (Inl e, s)"

definition io_bind :: "('s, 'a) io \<Rightarrow> ('a \<Rightarrow> ('s, 'b) io) \<Rightarrow> ('s, 'b) io" where
  "io_bind m f s =
     (case m s of
        None \<Rightarrow> None
      | Some (Inl e, s') \<Rightarrow> Some (Inl e, s')
      | Some (Inr x, s') \<Rightarrow> f x s')"

definition READ_EXACT_EOF :: io_error where
  "READ_EXACT_EOF = \<lparr>err_kind = UnexpectedEof, err_msg = ''failed to fill whole buffer''\<rparr>"

definition WRITE_ALL_EOF :: io_error where
  "WRITE_ALL_EOF = \<lparr>err_kind = WriteZero, err_msg = ''failed to write whole buffer''\<rparr>"

section \<open>Readers and writers\<close>

text \<open>
  \<open>rd n r\<close> is one \<open>read\<close> into a buffer of \<open>n\<close> bytes: the bytes it filled in (none
  at end of stream). \<open>wr buf w\<close> is one \<open>write\<close>: how many bytes were accepted.
\<close>

type_synonym 'r read_fn = "nat \<Rightarrow> 'r \<Rightarrow> (io_error + bytes) \<times> 'r"
type_synonym 'w write_fn = "bytes \<Rightarrow> 'w \<Rightarrow> (io_error + nat) \<times> 'w"

partial_function (option) read_exact_loop ::
  "'r read_fn \<Rightarrow> nat \<Rightarrow> bytes \<Rightarrow> 'r \<Rightarrow> ((io_error + bytes) \<times> 'r) option" where
  "read_exact_loop rd n acc r =
     (if n = 0 then Some (Inr acc, r)
      else (case rd n r of
              (Inl e, r') \<Rightarrow>
                if err_kind e = Interrupted then read_exact_loop rd n acc r'
                else Some (Inl e, r')
            | (Inr bs, r') \<Rightarrow>
                if bs = [] then Some (Inl READ_EXACT_EOF, r')
                else read_exact_loop rd (n - length bs) (acc @ bs) r'))"

definition read_exact :: "'r read_fn \<Rightarrow> nat \<Rightarrow> ('r, bytes) io" where
  "read_exact rd n r = read_exact_loop rd n [] r"

text \<open>\<open>room k\<close> is the size of the \<open>k\<close>-th buffer \<open>read_to_end\<close> offers, which it grows as it sees fit.\<close>

partial_function (option) read_to_end_loop ::
  "'r read_fn \<Rightarrow> (nat \<Rightarrow> nat) \<Rightarrow> nat \<Rightarrow> bytes \<Rightarrow> 'r \<Rightarrow> ((io_error + bytes) \<times> 'r) option" where
  "read_to_end_loop rd room k acc r =
     (case rd (room k) r of
        (Inl e, r') \<Rightarrow>
          if err_kind e = Interrupted then read_to_end_loop rd room (Suc k) acc r' else Some (Inl e, r')
      | (Inr bs, r') \<Rightarrow>
          if bs = [] then Some (Inr acc, r') else read_to_end_loop rd room (Suc k) (acc @ bs) r')"

definition read_to_end :: "'r read_fn \<Rightarrow> (nat \<Rightarrow> nat) \<Rightarrow> ('r, bytes) io" where
  "read_to_end rd room r = read_to_end_loop rd room 0 [] r"

partial_function (option) write_all ::
  "'w write_fn \<Rightarrow> bytes \<Rightarrow> 'w \<Rightarrow> ((io_error + unit) \<times> 'w) option" where
  "write_all wr buf w =
     (if buf = [] then Some (Inr (), w)
      else (case wr buf w of
              (Inl e, w') \<Rightarrow>
                if err_kind e = Interrupted then write_all wr buf w' else Some (Inl e, w')
            | (Inr n, w') \<Rightarrow>
                if n = 0 then Some (Inl WRITE_ALL_EOF, w')
                else write_all wr (drop n buf) w'))"

section \<open>Scripts of write outcomes\<close>

text \<open>
  What the kernel does with the coming writes: accept at most so many bytes, or fail. Once
  a script is exhausted every write is accepted whole.
\<close>

datatype write_event = Accept nat | WFault io_error

text \<open>A script on which no write fails and none stops making progress.\<close>

fun write_ok :: "write_event list \<Rightarrow> bool" where
  "write_ok [] = True"
| "write_ok (Accept k # es) = (0 < k \<and> write_ok es)"
| "write_ok (WFault e # es) = (err_kind e = Interrupted \<and> write_ok es)"

section \<open>Vectors as writers\<close>

text \<open>Writing to a \<open>Vec<u8>\<close> appends and never fails.\<close>

definition vec_write :: "bytes write_fn" where
  "vec_write buf v = (Inr (length buf), v @ buf)"

section \<open>Laws of the I/O monad\<close>

lemma io_return_bind [io_simps]: "io_bind (io_return x) f = f x"
  by (rule ext) (simp add: io_bind_def io_return_def)

lemma io_throw_bind [io_simps]: "io_bind (io_throw e) f = io_throw e"
  by (rule ext) (simp add: io_bind_def io_throw_def)

lemma io_bind_return [io_simps]: "io_bind m io_return = m"
  by (rule ext) (simp add: io_bind_def io_return_def split: option.splits prod.splits sum.splits)

lemma io_bind_assoc: "io_bind (io_bind m f) g = io_bind m (\<lambda>x. io_bind (f x) g)"
  by (rule ext) (simp add: io_bind_def split: option.splits prod.splits sum.splits)

lemma io_bind_Ok [io_simps]: "m s = Some (Inr x, s') \<Longrightarrow> io_bind m f s = f x s'"
  by (simp add: io_bind_def)

lemma io_bind_Err [io_simps]: "m s = Some (Inl e, s') \<Longrightarrow> io_bind m f s = Some (Inl e, s')"
  by (simp add: io_bind_def)

lemma io_return_run [io_simps]: "io_return x s = Some (Inr x, s)"
  by (simp add: io_return_def)

lemma io_throw_run [io_simps]: "io_throw e s = Some (Inl e, s)"
  by (simp add: io_throw_def)

lemma io_bind_total:
  assumes "m s \<noteq> None" and "\<And>x s'. m s = Some (Inr x, s') \<Longrightarrow> f x s' \<noteq> None"
  shows "io_bind m f s \<noteq> None"
  using assms by (auto simp: io_bind_def split: sum.splits)

lemma io_if_total:
  assumes "b \<Longrightarrow> m s \<noteq> None" and "\<not> b \<Longrightarrow> m' s \<noteq> None"
  shows "(if b then m else m') s \<noteq> None"
  using assms by simp

lemma io_return_total: "io_return x s \<noteq> None"
  by (simp add: io_return_def)

lemma io_throw_total: "io_throw e s \<noteq> None"
  by (simp add: io_throw_def)

text \<open>The rules by which a computation is shown to return, one per constructor.\<close>

lemmas io_total = io_bind_total io_if_total io_return_total io_throw_total

lemma write_all_Nil [simp]: "write_all wr [] w = Some (Inr (), w)"
  by (simp add: write_all.simps)

lemma read_exact_loop_0 [simp]: "read_exact_loop rd 0 acc r = Some (Inr acc, r)"
  by (simp add: read_exact_loop.simps)

lemma write_all_step:
  assumes "buf \<noteq> []"
  shows "write_all wr buf w =
     (case wr buf w of
        (Inl e, w') \<Rightarrow>
          if err_kind e = Interrupted then write_all wr buf w' else Some (Inl e, w')
      | (Inr n, w') \<Rightarrow>
          if n = 0 then Some (Inl WRITE_ALL_EOF, w') else write_all wr (drop n buf) w')"
  using assms by (subst write_all.simps) simp

section \<open>Interfaces of readers and writers\<close>

text \<open>
  A reader promises that a read never returns more than the buffer holds, and that it makes
  progress: a failed read, and a read that returns bytes, leaves less to come. Under these
  laws \<open>read_exact\<close> always returns, and a successful \<open>read_exact\<close> returns exactly
  the bytes asked for.
\<close>

locale io_reader =
  fixes rd :: "'r read_fn" and left :: "'r \<Rightarrow> nat"
  assumes read_fits: "rd n r = (Inr bs, r') \<Longrightarrow> length bs \<le> n"
    and read_error_progress: "rd n r = (Inl e, r') \<Longrightarrow> left r' < left r"
    and read_bytes_progress: "rd n r = (Inr bs, r') \<Longrightarrow> left r' + length bs \<le> left r"
begin

lemma read_exact_loop_total: "read_exact_loop rd n acc r \<noteq> None"
proof (induction "left r" arbitrary: n acc r rule: less_induct)
  case less
  show ?case
  proof (cases "rd n r")
    case (Pair res r')
    show ?thesis
    proof (cases res)
      case (Inl e)
      with Pair have "left r' < left r" by (simp add: read_error_progress)
      from less [OF this] show ?thesis
        using Pair Inl by (subst read_exact_loop.simps) simp
    next
      case (Inr bs)
      show ?thesis
      proof (cases "bs = []")
        case False
        have "left r' + length bs \<le> left r"
          using Pair Inr by (simp add: read_bytes_progress)
        with False have "left r' < left r" by (cases bs) auto
        from less [OF this] show ?thesis
          using Pair Inr by (subst read_exact_loop.simps) simp
      qed (use Pair Inr in \<open>subst read_exact_loop.simps, simp\<close>)
    qed
  qed
qed

lemma read_exact_loop_length:
  assumes "read_exact_loop rd n acc r = Some (Inr bs, r')"
  shows "\<exists>cs. bs = acc @ cs \<and> length cs = n \<and> left r' + n \<le> left r"
  using assms
proof (induction "left r" arbitrary: n acc r rule: less_induct)
  case less
  show ?case
  proof (cases "n = 0")
    case True
    with less.prems show ?thesis
      by (simp add: read_exact_loop.simps [of rd 0 acc r])
  next
    case n: False
    obtain res r1 where step: "rd n r = (res, r1)" by (cases "rd n r")
    show ?thesis
    proof (cases res)
      case (Inl e)
      with less.prems n step have "read_exact_loop rd n acc r1 = Some (Inr bs, r')"
        by (simp add: read_exact_loop.simps [of rd n acc r] split: if_splits)
      with less.hyps [of r1 n acc] read_error_progress [of n r e r1] step Inl show ?thesis
        by fastforce
    next
      case (Inr ds)
      with less.prems n step have ds: "ds \<noteq> []"
        and rec: "read_exact_loop rd (n - length ds) (acc @ ds) r1 = Some (Inr bs, r')"
        by (auto simp add: read_exact_loop.simps [of rd n acc r] split: if_splits)
      have le: "length ds \<le> n" and lt: "left r1 + length ds \<le> left r"
        using step Inr read_fits read_bytes_progress by blast+
      moreover from ds lt have "left r1 < left r" by (cases ds) auto
      ultimately show ?thesis
        using less.hyps [OF _ rec] by fastforce
    qed
  qed
qed

lemma read_to_end_loop_total: "read_to_end_loop rd room k acc r \<noteq> None"
proof (induction "left r" arbitrary: k acc r rule: less_induct)
  case less
  obtain res r' where step: "rd (room k) r = (res, r')" by (cases "rd (room k) r")
  have "left r' < left r" if "(\<exists>e. res = Inl e) \<or> (\<exists>b bs. res = Inr (b # bs))"
    using that step read_error_progress [of "room k" r _ r'] read_bytes_progress [of "room k" r _ r'] by fastforce
  with less step show ?case
    by (subst read_to_end_loop.simps) (auto simp: neq_Nil_conv split: sum.split)
qed

lemma read_exact_total: "read_exact rd n r \<noteq> None"
  unfolding read_exact_def by (rule read_exact_loop_total)

lemma read_exact_length: "read_exact rd n r = Some (Inr bs, r') \<Longrightarrow> length bs = n"
  unfolding read_exact_def using read_exact_loop_length [of n "[]" r bs r'] by auto

lemma read_exact_progress:
  "read_exact rd n r = Some (Inr bs, r') \<Longrightarrow> left r' + n \<le> left r"
  unfolding read_exact_def using read_exact_loop_length [of n "[]" r bs r'] by auto

end

text \<open>
  A writer promises never to claim more bytes than it was given and that every failed
  write uses up part of its script. Under these laws \<open>write_all\<close> always returns.
\<close>

locale io_writer =
  fixes wr :: "'w write_fn" and slack :: "'w \<Rightarrow> nat"
  assumes write_fits: "wr buf w = (Inr n, w') \<Longrightarrow> n \<le> length buf"
    and write_error_progress: "wr buf w = (Inl e, w') \<Longrightarrow> slack w' < slack w"
    and write_keeps_slack: "wr buf w = (Inr n, w') \<Longrightarrow> slack w' \<le> slack w"
begin

lemma write_all_total: "write_all wr buf w \<noteq> None"
proof (induction "length buf + slack w" arbitrary: buf w rule: less_induct)
  case less
  show ?case
  proof (cases "buf = []")
    case True
    then show ?thesis by (simp add: write_all.simps)
  next
    case ne: False
    obtain res w' where step: "wr buf w = (res, w')" by (cases "wr buf w")
    show ?thesis
    proof (cases res)
      case (Inl e)
      with step have "length buf + slack w' < length buf + slack w"
        by (simp add: write_error_progress)
      from less [OF this] show ?thesis
        using step Inl by (subst write_all.simps) simp
    next
      case (Inr n)
      have "slack w' \<le> slack w" using step Inr by (simp add: write_keeps_slack)
      moreover have "0 < length buf" using ne by simp
      ultimately have "n \<noteq> 0 \<Longrightarrow> length (drop n buf) + slack w' < length buf + slack w"
        by (cases buf) auto
      from less [OF this] show ?thesis
        using step Inr by (subst write_all.simps) auto
    qed
  qed
qed

end

interpretation vec_wr: io_writer vec_write "\<lambda>v. 0"
  by unfold_locales (auto simp: vec_write_def)

lemma write_all_vec [simp, io_simps]: "write_all vec_write buf v = Some (Inr (), v @ buf)"
  by (cases "buf = []") (simp_all add: write_all_step vec_write_def)

end
