(* ===== verification/File_Stream.thy ===== *)
theory File_Stream
  imports Std_IO
begin

text \<open>
  Files and in-memory cursors: contents, a position, and scripted write outcomes. The
  reader and writer interfaces are interpreted for them.
\<close>

section \<open>Files\<close>

text \<open>
  A file or in-memory cursor: contents, position, and the script of the coming writes.
  Writing past the end fills the gap with zeros.
\<close>

record fs_file =
  f_data :: bytes
  f_pos :: nat
  f_script :: "write_event list"

definition overwrite :: "nat \<Rightarrow> bytes \<Rightarrow> bytes \<Rightarrow> bytes" where
  "overwrite p new old =
     take p old @ replicate (p - length old) 0 @ new @ drop (p + length new) old"

definition file_read :: "fs_file read_fn" where
  "file_read n f =
     (let bs = take n (drop (f_pos f) (f_data f))
      in (Inr bs, f\<lparr>f_pos := f_pos f + length bs\<rparr>))"

definition file_put :: "bytes \<Rightarrow> fs_file \<Rightarrow> fs_file" where
  "file_put bs f =
     (if bs = [] then f
      else f\<lparr>f_data := overwrite (f_pos f) bs (f_data f), f_pos := f_pos f + length bs\<rparr>)"

definition file_write :: "fs_file write_fn" where
  "file_write buf f =
     (case f_script f of
        [] \<Rightarrow> (Inr (length buf), file_put buf f)
      | WFault e # es \<Rightarrow> (Inl e, f\<lparr>f_script := es\<rparr>)
      | Accept k # es \<Rightarrow> (Inr (min k (length buf)), file_put (take k buf) (f\<lparr>f_script := es\<rparr>)))"

definition file_stream_position :: "(fs_file, nat) io" where
  "file_stream_position f = io_return (f_pos f) f"

definition file_seek_start :: "nat \<Rightarrow> (fs_file, nat) io" where
  "file_seek_start p f = io_return p (f\<lparr>f_pos := p\<rparr>)"

definition file_of :: "bytes \<Rightarrow> fs_file" where
  "file_of bs = \<lparr>f_data = bs, f_pos = 0, f_script = []\<rparr>"

text \<open>The bytes still to be read, and a file positioned at its end.\<close>

definition unread :: "fs_file \<Rightarrow> bytes" where
  "unread f = drop (f_pos f) (f_data f)"

definition at_end :: "fs_file \<Rightarrow> bool" where
  "at_end f \<longleftrightarrow> f_pos f = length (f_data f)"

section \<open>The interfaces hold\<close>

interpretation file_rd: io_reader file_read "\<lambda>f. length (unread f)"
  by unfold_locales (auto simp: file_read_def unread_def Let_def)

interpretation file_wr: io_writer file_write "\<lambda>f. length (f_script f)"
  by unfold_locales
    (auto simp: file_write_def file_put_def split: list.splits write_event.splits)

section \<open>Reading a file\<close>

text \<open>
  On a file \<open>read_exact\<close> is a split of the unread bytes, or an end-of-file error that
  leaves nothing unread.
\<close>

lemma read_exact_loop_file:
  "read_exact_loop file_read n acc f =
     Some (if n \<le> length (unread f)
           then (Inr (acc @ take n (unread f)), f\<lparr>f_pos := f_pos f + n\<rparr>)
           else (Inl READ_EXACT_EOF, f\<lparr>f_pos := f_pos f + length (unread f)\<rparr>))"
proof (cases "n = 0")
  case False
  show ?thesis
  proof (cases "n \<le> length (unread f)")
    case True
    with False show ?thesis
      by (subst read_exact_loop.simps) (auto simp: file_read_def unread_def Let_def)
  next
    case short: False
    show ?thesis
    proof (cases "unread f = []")
      case True
      with False show ?thesis
        by (subst read_exact_loop.simps) (simp add: file_read_def unread_def Let_def)
    next
      case ne: False
      have r: "file_read n f = (Inr (unread f), f\<lparr>f_pos := f_pos f + length (unread f)\<rparr>)"
        using short by (simp add: file_read_def unread_def Let_def)
      have r2: "file_read m (f\<lparr>f_pos := f_pos f + length (unread f)\<rparr>) =
          (Inr [], f\<lparr>f_pos := f_pos f + length (unread f)\<rparr>)" for m
        by (simp add: file_read_def unread_def Let_def)
      from False ne short show ?thesis
        by (subst read_exact_loop.simps)
          (simp add: r, subst read_exact_loop.simps, simp add: r2)
    qed
  qed
qed simp

lemma read_exact_file [io_simps]:
  "read_exact file_read n f =
     Some (if n \<le> length (unread f)
           then (Inr (take n (unread f)), f\<lparr>f_pos := f_pos f + n\<rparr>)
           else (Inl READ_EXACT_EOF, f\<lparr>f_pos := f_pos f + length (unread f)\<rparr>))"
  by (simp add: read_exact_def read_exact_loop_file)

lemma unread_advance [simp]: "unread (f\<lparr>f_pos := f_pos f + n\<rparr>) = drop n (unread f)"
  by (simp add: unread_def add.commute)

lemma unread_file_of [simp]: "unread (file_of bs) = bs"
  by (simp add: unread_def file_of_def)

lemma read_exact_file_append:
  assumes "unread f = bs @ rest" and "n = length bs"
  shows "read_exact file_read n f = Some (Inr bs, f\<lparr>f_pos := f_pos f + n\<rparr>)"
  using assms by (simp add: read_exact_file)

section \<open>Writing a file\<close>

lemma overwrite_at_end [simp]: "p = length old \<Longrightarrow> overwrite p new old = old @ new"
  by (simp add: overwrite_def)

lemma overwrite_at_start:
  "length new \<le> length old \<Longrightarrow> overwrite 0 new old = new @ drop (length new) old"
  by (simp add: overwrite_def)

lemma file_put_at_end:
  assumes "at_end f"
  shows "file_put bs f = f\<lparr>f_data := f_data f @ bs, f_pos := f_pos f + length bs\<rparr>"
  using assms by (auto simp: file_put_def at_end_def)

lemma file_put_Nil [simp]: "file_put [] f = f"
  by (simp add: file_put_def)

lemma f_script_file_put [simp]: "f_script (file_put bs f) = f_script f"
  by (simp add: file_put_def)

lemma at_end_file_put [simp]: "at_end f \<Longrightarrow> at_end (file_put bs f)"
  by (simp add: file_put_at_end) (simp add: at_end_def)

lemma f_data_file_put [simp]: "at_end f \<Longrightarrow> f_data (file_put bs f) = f_data f @ bs"
  by (simp add: file_put_at_end)

lemma at_end_f_script [simp]: "at_end (f\<lparr>f_script := x\<rparr>) = at_end f"
  by (simp add: at_end_def)

lemma write_all_file_whole [simp]:
  "f_script f = [] \<Longrightarrow> write_all file_write buf f = Some (Inr (), file_put buf f)"
  by (cases "buf = []") (simp_all add: write_all_step file_write_def)

text \<open>
  At the end of a file a \<open>write_all\<close> only ever appends, and what it appends is a
  prefix of the buffer: the whole of it when it succeeds.
\<close>

lemma file_write_at_end:
  assumes "at_end f" and "file_write buf f = (r, f')"
  shows "\<exists>k \<le> length buf. f_data f' = f_data f @ take k buf \<and> at_end f' \<and>
    (case r of Inl e \<Rightarrow> k = 0 | Inr n \<Rightarrow> k = n)"
  using assms
  by (auto simp: file_write_def min_def split: list.splits write_event.splits)

lemma write_all_file_append:
  assumes "write_all file_write buf f = Some (r, f')" and "at_end f"
  shows "\<exists>k \<le> length buf. f_data f' = f_data f @ take k buf \<and> at_end f' \<and>
    (r = Inr () \<longrightarrow> k = length buf)"
  using assms
proof (induction "length buf + length (f_script f)" arbitrary: buf f rule: less_induct)
  case less
  show ?case
  proof (cases "buf = []")
    case True
    with less.prems show ?thesis by auto
  next
    case ne: False
    obtain res f1 where w: "file_write buf f = (res, f1)" by (cases "file_write buf f")
    have step: "(case res of
          Inl e \<Rightarrow> if err_kind e = Interrupted then write_all file_write buf f1 else Some (Inl e, f1)
        | Inr n \<Rightarrow> if n = 0 then Some (Inl WRITE_ALL_EOF, f1)
                   else write_all file_write (drop n buf) f1) = Some (r, f')"
      using less.prems(1) by (subst (asm) write_all_step [OF ne]) (simp add: w)
    from file_write_at_end [OF less.prems(2) w] obtain k where
      k: "k \<le> length buf" "f_data f1 = f_data f @ take k buf" "at_end f1"
        "case res of Inl e \<Rightarrow> k = 0 | Inr n \<Rightarrow> k = n" by blast
    show ?thesis
    proof (cases res)
      case (Inl e)
      with w have "length buf + length (f_script f1) < length buf + length (f_script f)"
        by (simp add: file_wr.write_error_progress)
      with Inl k step less.hyps [of buf f1] show ?thesis
        by (fastforce split: if_splits)
    next
      case (Inr n)
      have n: "n = k" using k Inr by simp
      have sl: "length (f_script f1) \<le> length (f_script f)"
        using w Inr by (simp add: file_wr.write_keeps_slack)
      show ?thesis
      proof (cases "k = 0")
        case True
        with step Inr n k show ?thesis by auto
      next
        case False
        with ne sl k have "length (drop k buf) + length (f_script f1) < length buf + length (f_script f)"
          by simp
        moreover from False step Inr n have "write_all file_write (drop k buf) f1 = Some (r, f')"
          by simp
        ultimately obtain j where j: "j \<le> length buf - k" "at_end f'"
            "f_data f' = f_data f1 @ take j (drop k buf)" "r = Inr () \<longrightarrow> j = length buf - k"
          using less.hyps [of "drop k buf" f1] k by auto
        with k show ?thesis
          by (intro exI [of _ "k + j"]) (auto simp: take_add)
      qed
    qed
  qed
qed

end
