(* ===== verification/Tcp_Stream.thy ===== *)
theory Tcp_Stream
  imports Std_IO
begin

text \<open>
  TCP streams as the program sees them: a script of what the peer and the kernel do. The
  reader and writer interfaces are interpreted for them, and \<open>read_exact\<close> and
  \<open>write_all\<close> over a stream are reduced to one pass over its script.
\<close>

section \<open>TCP streams\<close>

datatype read_event = Data bytes | Fault io_error

text \<open>
  \<open>rx\<close> is the sequence of batches and errors the socket will report to its reader, and
  end of stream once the list is exhausted; \<open>tx\<close> is what has been handed to the peer;
  \<open>tx_script\<close> limits or fails the coming writes (each is accepted whole once it is
  exhausted). The timeouts are in milliseconds.
\<close>

record tcp =
  rx :: "read_event list"
  tx :: bytes
  tx_script :: "write_event list"
  read_timeout :: "nat option"
  write_timeout :: "nat option"

fun read_events :: "nat \<Rightarrow> read_event list \<Rightarrow> (io_error + bytes) \<times> read_event list" where
  "read_events n [] = (Inr [], [])"
| "read_events n (Fault e # es) = (Inl e, es)"
| "read_events n (Data bs # es) =
     (if bs = [] then read_events n es
      else if length bs \<le> n then (Inr bs, es)
      else (Inr (take n bs), Data (drop n bs) # es))"

definition tcp_read :: "tcp read_fn" where
  "tcp_read n s = (case read_events n (rx s) of (r, es) \<Rightarrow> (r, s\<lparr>rx := es\<rparr>))"

definition tcp_write :: "tcp write_fn" where
  "tcp_write buf s =
     (case tx_script s of
        [] \<Rightarrow> (Inr (length buf), s\<lparr>tx := tx s @ buf\<rparr>)
      | WFault e # es \<Rightarrow> (Inl e, s\<lparr>tx_script := es\<rparr>)
      | Accept k # es \<Rightarrow>
          (Inr (min k (length buf)), s\<lparr>tx := tx s @ take k buf, tx_script := es\<rparr>))"

text \<open>
  The bytes a fault-free script carries, and how many steps a reader can take on a script
  before it is exhausted.
\<close>

fun stream_bytes :: "read_event list \<Rightarrow> bytes" where
  "stream_bytes [] = []"
| "stream_bytes (Data bs # es) = bs @ stream_bytes es"
| "stream_bytes (Fault e # es) = stream_bytes es"

fun fault_free :: "read_event list \<Rightarrow> bool" where
  "fault_free [] = True"
| "fault_free (Data bs # es) = fault_free es"
| "fault_free (Fault e # es) = False"

fun script_size :: "read_event list \<Rightarrow> nat" where
  "script_size [] = 0"
| "script_size (Data bs # es) = length bs + script_size es"
| "script_size (Fault e # es) = Suc (script_size es)"

text \<open>
  What \<open>read_exact\<close> does to a script in one pass over its events, as a structural
  recursion.
\<close>

fun take_exact :: "nat \<Rightarrow> bytes \<Rightarrow> read_event list \<Rightarrow> (io_error + bytes) \<times> read_event list" where
  "take_exact n acc [] = (if n = 0 then (Inr acc, []) else (Inl READ_EXACT_EOF, []))"
| "take_exact n acc (Fault e # es) =
     (if n = 0 then (Inr acc, Fault e # es)
      else if err_kind e = Interrupted then take_exact n acc es else (Inl e, es))"
| "take_exact n acc (Data bs # es) =
     (if n = 0 then (Inr acc, Data bs # es)
      else if length bs \<le> n then take_exact (n - length bs) (acc @ bs) es
      else (Inr (acc @ take n bs), Data (drop n bs) # es))"


text \<open>The same for \<open>write_all\<close>: the result, the bytes handed over, the script left.\<close>

fun send_script ::
  "bytes \<Rightarrow> write_event list \<Rightarrow> (io_error + unit) \<times> bytes \<times> write_event list" where
  "send_script buf [] = (Inr (), buf, [])"
| "send_script buf (WFault e # es) =
     (if buf = [] then (Inr (), [], WFault e # es)
      else if err_kind e = Interrupted then send_script buf es else (Inl e, [], es))"
| "send_script buf (Accept k # es) =
     (if buf = [] then (Inr (), [], Accept k # es)
      else if k = 0 then (Inl WRITE_ALL_EOF, [], es)
      else (case send_script (drop k buf) es of (r, sent, es') \<Rightarrow> (r, take k buf @ sent, es')))"

definition tcp_read_exact :: "nat \<Rightarrow> tcp \<Rightarrow> (io_error + bytes) \<times> tcp" where
  "tcp_read_exact n s = (case take_exact n [] (rx s) of (r, es) \<Rightarrow> (r, s\<lparr>rx := es\<rparr>))"

definition tcp_write_all :: "bytes \<Rightarrow> tcp \<Rightarrow> (io_error + unit) \<times> tcp" where
  "tcp_write_all buf s =
     (case send_script buf (tx_script s) of
        (r, sent, es) \<Rightarrow> (r, s\<lparr>tx := tx s @ sent, tx_script := es\<rparr>))"

text \<open>\<open>set_read_timeout\<close> and \<open>set_write_timeout\<close> refuse a zero duration.\<close>

definition zero_timeout :: io_error where
  "zero_timeout = \<lparr>err_kind = OtherKind, err_msg = ''cannot set a 0 duration timeout''\<rparr>"

definition set_read_timeout :: "nat \<Rightarrow> tcp \<Rightarrow> (io_error + unit) \<times> tcp" where
  "set_read_timeout ms s =
     (if ms = 0 then (Inl zero_timeout, s) else (Inr (), s\<lparr>read_timeout := Some ms\<rparr>))"

definition set_write_timeout :: "nat \<Rightarrow> tcp \<Rightarrow> (io_error + unit) \<times> tcp" where
  "set_write_timeout ms s =
     (if ms = 0 then (Inl zero_timeout, s) else (Inr (), s\<lparr>write_timeout := Some ms\<rparr>))"

text \<open>A stream just opened, on which every write is accepted.\<close>

definition fresh_tcp :: "read_event list \<Rightarrow> tcp" where
  "fresh_tcp es =
     \<lparr>rx = es, tx = [], tx_script = [], read_timeout = None, write_timeout = None\<rparr>"

section \<open>The interfaces hold\<close>

lemma read_events_error: "read_events n es = (Inl e, es') \<Longrightarrow> script_size es' < script_size es"
  by (induction n es rule: read_events.induct) (auto split: if_splits)

lemma read_events_bytes:
  "read_events n es = (Inr bs, es') \<Longrightarrow>
     length bs \<le> n \<and> script_size es' + length bs \<le> script_size es"
  by (induction n es rule: read_events.induct) (auto split: if_splits)

lemma read_events_fault_free:
  assumes "fault_free es" and "0 < n"
  shows "\<exists>bs es'. read_events n es = (Inr bs, es') \<and> fault_free es' \<and>
    stream_bytes es = bs @ stream_bytes es' \<and> (bs = [] \<longrightarrow> stream_bytes es = [])"
  using assms by (induction n es rule: read_events.induct) auto

interpretation tcp_rd: io_reader tcp_read "\<lambda>s. script_size (rx s)"
proof unfold_locales
  fix n r bs r'
  assume "tcp_read n r = (Inr bs, r')"
  then show "length bs \<le> n" and "script_size (rx r') + length bs \<le> script_size (rx r)"
    by (auto simp: tcp_read_def dest!: read_events_bytes split: prod.splits)
next
  fix n r e r'
  assume "tcp_read n r = (Inl e, r')"
  then show "script_size (rx r') < script_size (rx r)"
    by (auto simp: tcp_read_def dest!: read_events_error split: prod.splits)
qed

interpretation tcp_wr: io_writer tcp_write "\<lambda>s. length (tx_script s)"
  by unfold_locales (auto simp: tcp_write_def split: list.splits write_event.splits)

text \<open>A read takes its bytes off the front of the stream; a fault takes nothing.\<close>

lemma read_events_stream:
  "read_events n es = (r, es') \<Longrightarrow>
     stream_bytes es = (case r of Inl e \<Rightarrow> [] | Inr bs \<Rightarrow> bs) @ stream_bytes es'"
  by (induction n es rule: read_events.induct) (auto split: if_splits)

lemma tcp_read_stream:
  "tcp_read n s = (r, s') \<Longrightarrow>
     stream_bytes (rx s) = (case r of Inl e \<Rightarrow> [] | Inr bs \<Rightarrow> bs) @ stream_bytes (rx s')"
  by (auto simp: tcp_read_def dest: read_events_stream split: prod.splits)

section \<open>read\_exact on a stream\<close>

text \<open>
  The loop over single reads is one pass over the script: the equivalence of the loop of
  the standard library with the structural recursion.
\<close>

lemma read_exact_loop_tcp:
  "read_exact_loop tcp_read n acc s =
     (case take_exact n acc (rx s) of (r, es) \<Rightarrow> Some (r, s\<lparr>rx := es\<rparr>))"
proof (induction n acc "rx s" arbitrary: s rule: take_exact.induct)
  case (1 n acc)
  then show ?case
    by (subst read_exact_loop.simps) (simp add: tcp_read_def flip: 1)
next
  case (2 n acc e es)
  from "2.hyps"(2) [symmetric] "2.hyps"(1) [of "s\<lparr>rx := es\<rparr>"] show ?case
    by (subst read_exact_loop.simps) (simp add: tcp_read_def)
next
  case (3 n acc bs es)
  note rx = "3.hyps"(2) [symmetric]
  show ?case
  proof (cases "n = 0")
    case True
    then show ?thesis
      using rx by (subst read_exact_loop.simps) simp
  next
    case n: False
    show ?thesis
    proof (cases "bs = []")
      case True
      have "read_exact_loop tcp_read n acc s = read_exact_loop tcp_read n acc (s\<lparr>rx := es\<rparr>)"
        using rx n True
        by (subst (1 2) read_exact_loop.simps) (simp add: tcp_read_def)
      with "3.hyps"(1) [of "s\<lparr>rx := es\<rparr>"] rx n True show ?thesis by simp
    next
      case False
      then show ?thesis
        using "3.hyps"(1) [of "s\<lparr>rx := es\<rparr>"] rx n
        by (subst read_exact_loop.simps) (auto simp: tcp_read_def read_exact_loop.simps)
    qed
  qed
qed

lemma read_exact_tcp [io_simps]: "read_exact tcp_read n s = Some (tcp_read_exact n s)"
  by (simp add: read_exact_def read_exact_loop_tcp tcp_read_exact_def split: prod.splits)

text \<open>
  On a stream without faults \<open>read_exact\<close> sees only the byte sequence: how the bytes
  were batched makes no difference.
\<close>

lemma take_exact_fault_free:
  assumes "fault_free es" and "n \<le> length (stream_bytes es)"
  shows "\<exists>es'. take_exact n acc es = (Inr (acc @ take n (stream_bytes es)), es') \<and>
           fault_free es' \<and> stream_bytes es' = drop n (stream_bytes es)"
  using assms
  by (induction n acc es rule: take_exact.induct) auto

lemma take_exact_eof:
  assumes "fault_free es" and "length (stream_bytes es) < n"
  shows "take_exact n acc es = (Inl READ_EXACT_EOF, [])"
  using assms
  by (induction n acc es rule: take_exact.induct) auto

lemma take_exact_size:
  "take_exact n acc es = (r, es') \<Longrightarrow> script_size es' \<le> script_size es"
  by (induction n acc es rule: take_exact.induct) (auto split: if_splits)

lemma take_exact_0 [simp]: "take_exact 0 acc es = (Inr acc, es)"
  by (cases "(0 :: nat, acc, es)" rule: take_exact.cases) auto

text \<open>Asking for at least one byte uses up part of the script, unless it is exhausted.\<close>

lemma take_exact_progress:
  assumes "take_exact n acc es = (r, es')" and "0 < n" and "r \<noteq> Inl READ_EXACT_EOF"
  shows "script_size es' < script_size es"
  using assms
proof (induction n acc es rule: take_exact.induct)
  case (3 n acc bs es)
  show ?case
  proof (cases "length bs < n")
    case True
    with 3 have "script_size es' < script_size es" by simp
    then show ?thesis by simp
  next
    case False
    with 3 show ?thesis
      by (auto split: if_splits dest: take_exact_size)
  qed
qed (auto split: if_splits dest: take_exact_size)

section \<open>write\_all on a stream\<close>

text \<open>One round of the loop, by the next entry of the write script.\<close>

lemma write_all_tcp_whole [simp]:
  "tx_script s = [] \<Longrightarrow> write_all tcp_write buf s = Some (Inr (), s\<lparr>tx := tx s @ buf\<rparr>)"
  by (cases "buf = []") (simp_all add: write_all_step tcp_write_def)

lemma write_all_tcp_accept:
  assumes "buf \<noteq> []" and "tx_script s = Accept k # evs" and "0 < k"
  shows "write_all tcp_write buf s =
    write_all tcp_write (drop k buf) (s\<lparr>tx := tx s @ take k buf, tx_script := evs\<rparr>)"
proof -
  define m where "m = min k (length buf)"
  have w: "tcp_write buf s = (Inr m, s\<lparr>tx := tx s @ take k buf, tx_script := evs\<rparr>)"
    using assms(2) by (simp add: tcp_write_def m_def)
  have "0 < m" and "drop m buf = drop k buf"
    using assms by (auto simp: m_def min_def)
  with w show ?thesis by (subst write_all_step [OF assms(1)]) simp
qed

lemma write_all_tcp_zero:
  assumes "buf \<noteq> []" and "tx_script s = Accept 0 # evs"
  shows "write_all tcp_write buf s = Some (Inl WRITE_ALL_EOF, s\<lparr>tx_script := evs\<rparr>)"
  using assms by (simp add: write_all_step tcp_write_def)

lemma write_all_tcp_fault:
  assumes "buf \<noteq> []" and "tx_script s = WFault e # evs"
  shows "write_all tcp_write buf s =
    (if err_kind e = Interrupted then write_all tcp_write buf (s\<lparr>tx_script := evs\<rparr>)
     else Some (Inl e, s\<lparr>tx_script := evs\<rparr>))"
  using assms(2) by (subst write_all_step [OF assms(1)]) (simp add: tcp_write_def)

text \<open>
  Bytes that were handed over are never changed, and what a \<open>write_all\<close> adds is a
  prefix of its buffer: the whole buffer when it succeeds.
\<close>

lemma write_all_tcp_prefix:
  assumes "write_all tcp_write buf s = Some (r, s')"
  shows "\<exists>k \<le> length buf. tx s' = tx s @ take k buf \<and> (r = Inr () \<longrightarrow> k = length buf) \<and>
           rx s' = rx s"
  using assms
proof (induction "tx_script s" arbitrary: buf s)
  case Nil
  then show ?case by auto
next
  case (Cons ev evs)
  note scr = Cons.hyps(2) [symmetric]
  show ?case
  proof (cases "buf = []")
    case True
    with Cons.prems show ?thesis by auto
  next
    case ne: False
    show ?thesis
    proof (cases ev)
      case (WFault e)
      with ne scr Cons.prems Cons.hyps(1) [of "s\<lparr>tx_script := evs\<rparr>" buf] show ?thesis
        by (auto simp: write_all_tcp_fault split: if_splits)
    next
      case (Accept k)
      let ?s = "s\<lparr>tx := tx s @ take k buf, tx_script := evs\<rparr>"
      show ?thesis
      proof (cases "k = 0")
        case True
        with ne scr Accept Cons.prems show ?thesis
          by (auto simp: write_all_tcp_zero)
      next
        case False
        with ne scr Accept Cons.prems
        have "write_all tcp_write (drop k buf) ?s = Some (r, s')"
          by (simp add: write_all_tcp_accept)
        with Cons.hyps(1) [of ?s "drop k buf"] obtain j where
          j: "j \<le> length buf - k" "tx s' = tx s @ take k buf @ take j (drop k buf)"
            "r = Inr () \<longrightarrow> j = length buf - k" "rx s' = rx s"
          by auto
        have "take k buf @ take j (drop k buf) = take (min k (length buf) + j) buf"
          by (simp add: take_add min_def)
        with j show ?thesis
          by (intro exI [of _ "min k (length buf) + j"]) auto
      qed
    qed
  qed
qed

text \<open>If the script lets every write make progress, \<open>write_all\<close> succeeds.\<close>

lemma write_all_tcp_ok:
  assumes "write_ok (tx_script s)"
  shows "\<exists>evs. write_all tcp_write buf s =
           Some (Inr (), s\<lparr>tx := tx s @ buf, tx_script := evs\<rparr>) \<and> write_ok evs"
  using assms
proof (induction "tx_script s" arbitrary: buf s rule: write_ok.induct)
  case 1
  then show ?case by (auto intro!: exI [of _ "[]"])
next
  case (2 k es)
  note scr = "2.hyps"(2) [symmetric]
  show ?case
  proof (cases "buf = []")
    case True
    then show ?thesis using 2(3) by (auto intro!: exI [of _ "tx_script s"])
  next
    case False
    with scr 2(3) 2(1) [of "s\<lparr>tx := tx s @ take k buf, tx_script := es\<rparr>" "drop k buf"]
    show ?thesis
      by (auto simp: write_all_tcp_accept)
  qed
next
  case (3 e es)
  note scr = "3.hyps"(2) [symmetric]
  show ?case
  proof (cases "buf = []")
    case True
    then show ?thesis using 3(3) by (auto intro!: exI [of _ "tx_script s"])
  next
    case False
    with scr 3(3) 3(1) [of "s\<lparr>tx_script := es\<rparr>" buf] show ?thesis
      by (auto simp: write_all_tcp_fault)
  qed
qed

lemma send_script_Nil [simp]: "send_script [] es = (Inr (), [], es)"
  by (cases "([] :: bytes, es)" rule: send_script.cases) auto

lemma tcp_write_all_Nil [simp]: "tcp_write_all [] s = (Inr (), s)"
  by (simp add: tcp_write_all_def)

text \<open>The loop of single writes is one pass over the write script.\<close>

lemma write_all_tcp [io_simps]: "write_all tcp_write buf s = Some (tcp_write_all buf s)"
proof (induction buf "tx_script s" arbitrary: s rule: send_script.induct)
  case (1 buf)
  then show ?case by (simp add: tcp_write_all_def flip: 1)
next
  case (2 buf e es)
  note scr = "2.hyps"(2) [symmetric]
  show ?case
  proof (cases "buf = []")
    case False
    with scr "2.hyps"(1) [of "s\<lparr>tx_script := es\<rparr>"] show ?thesis
      by (auto simp: write_all_tcp_fault tcp_write_all_def split: prod.splits)
  qed simp
next
  case (3 buf k es)
  note scr = "3.hyps"(2) [symmetric]
  show ?case
  proof (cases "buf = []")
    case False
    show ?thesis
    proof (cases "k = 0")
      case True
      with False scr show ?thesis by (simp add: write_all_tcp_zero tcp_write_all_def)
    next
      case k: False
      with False scr "3.hyps"(1) [of "s\<lparr>tx := tx s @ take k buf, tx_script := es\<rparr>"]
      show ?thesis
        by (auto simp: write_all_tcp_accept tcp_write_all_def split: prod.splits)
    qed
  qed simp
qed

lemma tcp_write_all_whole [simp]:
  "tx_script s = [] \<Longrightarrow> tcp_write_all buf s = (Inr (), s\<lparr>tx := tx s @ buf\<rparr>)"
  by (simp add: tcp_write_all_def)

lemma tcp_write_all_prefix:
  assumes "tcp_write_all buf s = (r, s')"
  shows "\<exists>k \<le> length buf. tx s' = tx s @ take k buf \<and> (r = Inr () \<longrightarrow> k = length buf) \<and>
           rx s' = rx s"
  using write_all_tcp_prefix [of buf s r s'] assms by (simp add: write_all_tcp)

lemma tcp_read_exact_fault_free:
  assumes "fault_free (rx s)" and "n \<le> length (stream_bytes (rx s))"
  shows "\<exists>es. tcp_read_exact n s = (Inr (take n (stream_bytes (rx s))), s\<lparr>rx := es\<rparr>) \<and>
    fault_free es \<and> stream_bytes es = drop n (stream_bytes (rx s))"
  using take_exact_fault_free [OF assms, of "[]"] by (auto simp: tcp_read_exact_def)

lemma tcp_read_exact_length: "tcp_read_exact n s = (Inr bs, s') \<Longrightarrow> length bs = n"
  using tcp_rd.read_exact_length [of n s bs s'] by (simp add: read_exact_tcp)

text \<open>What a call takes from the stream, and that it is returned when the call succeeds.\<close>

lemma take_exact_bytes:
  "take_exact n acc es = (r, es') \<Longrightarrow>
     \<exists>gone. stream_bytes es = gone @ stream_bytes es' \<and>
       (case r of Inl e \<Rightarrow> length gone \<le> n | Inr bs \<Rightarrow> bs = acc @ gone)"
proof (induction n acc es rule: take_exact.induct)
  case (2 n acc e es)
  then show ?case by (auto split: if_splits)
next
  case (3 n acc bs es)
  show ?case
  proof (cases "n \<noteq> 0 \<and> length bs \<le> n")
    case True
    with 3 obtain gone where "stream_bytes es = gone @ stream_bytes es'"
      "case r of Inl e \<Rightarrow> length gone \<le> n - length bs | Inr got \<Rightarrow> got = (acc @ bs) @ gone" by auto
    with True show ?thesis by (intro exI [of _ "bs @ gone"]) (auto split: sum.splits)
  next
    case False
    with 3(2) have "(n = 0 \<and> r = Inr acc \<and> es' = Data bs # es) \<or>
        (r = Inr (acc @ take n bs) \<and> es' = Data (drop n bs) # es)" by (auto split: if_splits)
    then show ?thesis
      by (auto simp flip: append_assoc intro: exI [of _ "[]"] exI [of _ "take n bs"])
  qed
qed (auto split: if_splits)

lemma tcp_read_exact_bytes:
  assumes "tcp_read_exact n s = (r, s')"
  shows "\<exists>gone. stream_bytes (rx s) = gone @ stream_bytes (rx s') \<and> length gone \<le> n \<and>
    (\<forall>bs. r = Inr bs \<longrightarrow> gone = bs)"
proof -
  from assms obtain es' where t: "take_exact n [] (rx s) = (r, es')" "rx s' = es'"
    by (auto simp: tcp_read_exact_def split: prod.splits)
  from take_exact_bytes [OF t(1)] t(2) tcp_read_exact_length [of n s _ s'] assms show ?thesis
    by (cases r) auto
qed

lemma tcp_read_exact_progress:
  assumes "tcp_read_exact n s = (r, s')" and "0 < n" and "r \<noteq> Inl READ_EXACT_EOF"
  shows "script_size (rx s') < script_size (rx s)"
  using assms by (auto simp: tcp_read_exact_def dest: take_exact_progress split: prod.splits)

lemma tcp_read_exact_frame:
  assumes "tcp_read_exact n s = (r, s')"
  shows "s' = s\<lparr>rx := rx s'\<rparr>" and "script_size (rx s') \<le> script_size (rx s)"
  using assms by (auto simp: tcp_read_exact_def dest: take_exact_size split: prod.splits)

lemma tcp_write_all_rx [simp]: "rx (snd (tcp_write_all buf s)) = rx s"
  by (simp add: tcp_write_all_def split: prod.splits)

lemma fresh_tcp_simps [simp]:
  "rx (fresh_tcp es) = es" "tx (fresh_tcp es) = []" "tx_script (fresh_tcp es) = []"
  by (simp_all add: fresh_tcp_def)

end
