(* ===== verification/Capture.thy ===== *)
theory Capture
  imports File_Stream Tcp_Stream
begin

text \<open>
  The capture file format (\<open>src/capture/mod.rs\<close>): writing and reading the header and
  the chunks, over any writer and reader as the generic functions of the source are. The
  format is also given as two plain encoding functions, and the readers and writers are
  shown to implement it.
\<close>

definition CAPTURE_MAGIC :: bytes where
  "CAPTURE_MAGIC = [0x52, 0x54, 0x4C, 0x58]"

definition CAPTURE_VERSION :: u32 where
  "CAPTURE_VERSION = 1"

record capture_header =
  magic_payload :: bytes

record capture_chunk =
  timestamp_ns :: u64
  chunk_data :: bytes

definition write_header_to_vec :: "capture_header \<Rightarrow> bytes" where
  "write_header_to_vec header =
     (let buf = [];
          buf = buf @ CAPTURE_MAGIC;
          buf = buf @ to_le CAPTURE_VERSION;
          magic_len = (of_nat (length (magic_payload header)) :: u32);
          buf = buf @ to_le magic_len
      in buf @ magic_payload header)"

definition write_header ::
  "'w write_fn \<Rightarrow> ('w, nat) io \<Rightarrow> (nat \<Rightarrow> ('w, nat) io) \<Rightarrow> capture_header \<Rightarrow> ('w, unit) io" where
  "write_header wr stream_position seek_start header =
     io_bind stream_position (\<lambda>start.
     io_bind (write_all wr CAPTURE_MAGIC) (\<lambda>_.
     io_bind (write_all wr (to_le CAPTURE_VERSION)) (\<lambda>_.
     let magic_len = (of_nat (length (magic_payload header)) :: u32) in
     io_bind (write_all wr (to_le magic_len)) (\<lambda>_.
     io_bind (write_all wr (magic_payload header)) (\<lambda>_.
     io_bind stream_position (\<lambda>end_pos.
     if start \<noteq> 0 then
       (let header_bytes = write_header_to_vec header in
        io_bind (seek_start 0) (\<lambda>_.
        io_bind (write_all wr header_bytes) (\<lambda>_.
        io_bind (seek_start end_pos) (\<lambda>_. io_return ()))))
     else io_return ()))))))"

definition invalid_magic :: io_error where
  "invalid_magic = \<lparr>err_kind = InvalidData, err_msg = ''invalid capture magic''\<rparr>"

definition read_header :: "'r read_fn \<Rightarrow> ('r, capture_header) io" where
  "read_header rd =
     io_bind (read_exact rd 4) (\<lambda>magic.
     if magic \<noteq> CAPTURE_MAGIC then io_throw invalid_magic
     else
       io_bind (read_exact rd 4) (\<lambda>version_buf.
       io_bind (read_exact rd 4) (\<lambda>magic_len_buf.
       let magic_len = unat (from_le magic_len_buf :: u32) in
       io_bind (read_exact rd magic_len) (\<lambda>payload.
       io_return \<lparr>magic_payload = payload\<rparr>))))"

definition write_chunk :: "'w write_fn \<Rightarrow> capture_chunk \<Rightarrow> ('w, unit) io" where
  "write_chunk wr chunk =
     io_bind (write_all wr (to_le (timestamp_ns chunk))) (\<lambda>_.
     let data_len = (of_nat (length (chunk_data chunk)) :: u32) in
     io_bind (write_all wr (to_le data_len)) (\<lambda>_.
     write_all wr (chunk_data chunk)))"

definition read_chunk :: "'r read_fn \<Rightarrow> ('r, capture_chunk option) io" where
  "read_chunk rd r =
     (case read_exact rd 8 r of
        None \<Rightarrow> None
      | Some (Inl e, r') \<Rightarrow>
          if err_kind e = UnexpectedEof then io_return None r' else io_throw e r'
      | Some (Inr ts_buf, r') \<Rightarrow>
          io_bind (read_exact rd 4) (\<lambda>len_buf.
          let data_len = unat (from_le len_buf :: u32) in
          io_bind (read_exact rd data_len) (\<lambda>payload.
          io_return (Some \<lparr>timestamp_ns = from_le ts_buf, chunk_data = payload\<rparr>))) r')"

section \<open>The format\<close>

text \<open>Which headers and chunks the 32-bit length fields can describe.\<close>

definition header_fits :: "capture_header \<Rightarrow> bool" where
  "header_fits h \<longleftrightarrow> length (magic_payload h) < 2 ^ 32"

definition chunk_fits :: "capture_chunk \<Rightarrow> bool" where
  "chunk_fits c \<longleftrightarrow> length (chunk_data c) < 2 ^ 32"

definition encode_chunk :: "capture_chunk \<Rightarrow> bytes" where
  "encode_chunk c =
     to_le (timestamp_ns c) @ to_le (of_nat (length (chunk_data c)) :: u32) @ chunk_data c"

definition encode_capture :: "capture_header \<Rightarrow> capture_chunk list \<Rightarrow> bytes" where
  "encode_capture h cs = write_header_to_vec h @ concat (map encode_chunk cs)"

lemma length_CAPTURE_MAGIC [simp]: "length CAPTURE_MAGIC = 4"
  by (simp add: CAPTURE_MAGIC_def)

lemma length_header: "length (write_header_to_vec h) = 12 + length (magic_payload h)"
  by (simp add: write_header_to_vec_def Let_def CAPTURE_MAGIC_def)

lemma length_encode_chunk: "length (encode_chunk c) = 12 + length (chunk_data c)"
  by (simp add: encode_chunk_def)

lemma unat_of_length [simp]: "n < 4294967296 \<Longrightarrow> unat (of_nat n :: u32) = n"
  by (simp add: unat_of_nat take_bit_nat_eq_self)

section \<open>Writers implement the format\<close>

lemma write_chunk_file:
  assumes "f_script f = []" and "at_end f"
  shows "write_chunk file_write c f = Some (Inr (), file_put (encode_chunk c) f)"
  using assms
  by (simp add: write_chunk_def io_simps Let_def encode_chunk_def file_put_at_end at_end_def)

lemma write_header_file:
  assumes "f_script f = []" and "f_data f = []" and "f_pos f = 0"
  shows "write_header file_write file_stream_position file_seek_start h f =
    Some (Inr (), file_put (write_header_to_vec h) f)"
  using assms
  by (simp add: write_header_def io_simps Let_def write_header_to_vec_def file_stream_position_def
      file_put_at_end at_end_def)

section \<open>Readers implement the format\<close>

lemma read_header_file:
  assumes "unread f = write_header_to_vec h @ rest" and "header_fits h"
  shows "read_header file_read f =
    Some (Inr h, f\<lparr>f_pos := f_pos f + length (write_header_to_vec h)\<rparr>)"
  using assms
  by (simp add: read_header_def io_simps Let_def write_header_to_vec_def header_fits_def
      add.assoc)

lemma read_chunk_file:
  assumes "unread f = encode_chunk c @ rest" and "chunk_fits c"
  shows "read_chunk file_read f =
    Some (Inr (Some c), f\<lparr>f_pos := f_pos f + length (encode_chunk c)\<rparr>)"
  using assms
  by (simp add: read_chunk_def io_simps Let_def encode_chunk_def chunk_fits_def add.assoc)

lemma read_chunk_file_end:
  assumes "length (unread f) < 8"
  shows "read_chunk file_read f = Some (Inr None, f\<lparr>f_pos := f_pos f + length (unread f)\<rparr>)"
  using assms by (simp add: read_chunk_def io_simps READ_EXACT_EOF_def)

text \<open>A chunk cut short after its timestamp is an error, not an end of file.\<close>

lemma read_chunk_file_truncated:
  assumes "unread f = take n (encode_chunk c)" and "8 \<le> n"
    and "n < length (encode_chunk c)" and "chunk_fits c"
  shows "read_chunk file_read f = Some (Inl READ_EXACT_EOF, f\<lparr>f_pos := f_pos f + n\<rparr>)"
proof -
  define ts where "ts = to_le (timestamp_ns c)"
  define ln where "ln = to_le (of_nat (length (chunk_data c)) :: u32)"
  have parts: "encode_chunk c = ts @ ln @ chunk_data c" "length ts = 8" "length ln = 4"
    by (simp_all add: encode_chunk_def ts_def ln_def)
  have len: "length (unread f) = n" using assms(1,3) by simp
  have ts: "take 8 (unread f) = ts"
    using assms(1,2) parts by (simp add: take_append min_def)
  show ?thesis
  proof (cases "n < 12")
    case True
    with len assms(2) ts show ?thesis
      by (simp add: read_chunk_def io_simps)
  next
    case False
    with assms(1) parts have ln: "take 4 (drop 8 (unread f)) = ln"
      by (simp add: take_append drop_take min_def)
    have data_len: "unat (from_le ln :: u32) = length (chunk_data c)"
      using assms(4) by (simp add: ln_def chunk_fits_def)
    have r2: "read_exact file_read 4 (f\<lparr>f_pos := f_pos f + 8\<rparr>) =
        Some (Inr ln, f\<lparr>f_pos := f_pos f + 12\<rparr>)"
      using False len ln by (simp add: read_exact_file)
    have r3: "read_exact file_read (length (chunk_data c)) (f\<lparr>f_pos := f_pos f + 12\<rparr>) =
        Some (Inl READ_EXACT_EOF, f\<lparr>f_pos := f_pos f + n\<rparr>)"
      using False len assms(3) parts by (auto simp: read_exact_file)
    from assms(2) len ts show ?thesis
      by (simp add: read_chunk_def read_exact_file [of 8 f] io_bind_def r2 r3 Let_def data_len)
  qed
qed

section \<open>Reading always returns\<close>

context io_reader
begin

lemma read_header_total: "read_header rd r \<noteq> None"
  unfolding read_header_def Let_def
  by (intro io_total read_exact_total)

lemma read_chunk_total: "read_chunk rd r \<noteq> None"
proof -
  obtain res r' where first: "read_exact rd 8 r = Some (res, r')"
    using read_exact_total [of 8 r] by auto
  have "io_bind (read_exact rd 4) (\<lambda>len_buf.
      io_bind (read_exact rd (unat (from_le len_buf :: u32))) (\<lambda>payload.
      io_return (Some \<lparr>timestamp_ns = from_le ts, chunk_data = payload\<rparr>))) r' \<noteq> None" for ts
    by (intro io_total read_exact_total)
  with first show ?thesis
    by (cases res) (simp_all add: read_chunk_def io_return_run io_throw_run Let_def)
qed

lemma read_chunk_progress:
  assumes "read_chunk rd r = Some (Inr (Some c), r')"
  shows "left r' + 12 + length (chunk_data c) \<le> left r"
proof -
  from assms obtain ts r1 where r1: "read_exact rd 8 r = Some (Inr ts, r1)"
    by (auto simp: read_chunk_def io_simps split: option.splits sum.splits if_splits)
  with assms obtain ln r2 where r2: "read_exact rd 4 r1 = Some (Inr ln, r2)"
    by (auto simp: read_chunk_def io_bind_def split: option.splits sum.splits)
  with assms r1 have r3: "read_exact rd (length (chunk_data c)) r2 = Some (Inr (chunk_data c), r')"
    using read_exact_length
    by (auto simp: read_chunk_def io_bind_def io_simps Let_def split: option.splits sum.splits)
  from read_exact_progress [OF r1] read_exact_progress [OF r2] read_exact_progress [OF r3]
  show ?thesis by simp
qed

end

section \<open>Properties\<close>

text \<open>
  The capture format round trips: a header and a chunk written to a new file are read
  back as the same header and chunk, followed by the end of the capture, as long as their
  lengths fit the 32-bit length fields.
\<close>

lemma capture_round_trip:
  assumes "header_fits h" and "chunk_fits c"
  shows "\<exists>f1 f2 g1 g2. write_header file_write file_stream_position file_seek_start h (file_of []) =
      Some (Inr (), f1) \<and>
    write_chunk file_write c f1 = Some (Inr (), f2) \<and>
    read_header file_read (file_of (f_data f2)) = Some (Inr h, g1) \<and>
    read_chunk file_read g1 = Some (Inr (Some c), g2) \<and>
    read_chunk file_read g2 = Some (Inr None, g2)"
proof -
  let ?f1 = "file_put (write_header_to_vec h) (file_of [])"
  let ?f2 = "file_put (encode_chunk c) ?f1"
  let ?g = "file_of (write_header_to_vec h @ encode_chunk c)"
  let ?g1 = "?g\<lparr>f_pos := f_pos ?g + length (write_header_to_vec h)\<rparr>"
  let ?g2 = "?g1\<lparr>f_pos := f_pos ?g1 + length (encode_chunk c)\<rparr>"
  have e0: "at_end (file_of [])" by (simp add: at_end_def file_of_def)
  then have e1: "at_end ?f1" by (rule at_end_file_put)
  have w1: "write_header file_write file_stream_position file_seek_start h (file_of []) = Some (Inr (), ?f1)"
    by (rule write_header_file) (simp_all add: file_of_def)
  have w2: "write_chunk file_write c ?f1 = Some (Inr (), ?f2)"
    using e1 by (intro write_chunk_file) (simp_all add: file_of_def)
  have d: "f_data ?f2 = write_header_to_vec h @ encode_chunk c"
    using e0 e1 by (simp add: f_data_file_put) (simp add: file_of_def)
  have r1: "read_header file_read ?g = Some (Inr h, ?g1)"
    by (rule read_header_file [OF _ assms(1)]) simp
  have r2: "read_chunk file_read ?g1 = Some (Inr (Some c), ?g2)"
    by (rule read_chunk_file [OF _ assms(2), where rest = "[]"]) (simp add: unread_def file_of_def)
  have "unread ?g2 = []" by (simp add: unread_def file_of_def)
  with read_chunk_file_end [of ?g2] have "read_chunk file_read ?g2 = Some (Inr None, ?g2)" by simp
  with w1 w2 d r1 r2 show ?thesis by metis
qed

lemma capture_round_trip_witness:
  "\<exists>f1 f2 g1 g2. write_header file_write file_stream_position file_seek_start
      \<lparr>magic_payload = [82, 84]\<rparr> (file_of []) = Some (Inr (), f1) \<and>
    write_chunk file_write \<lparr>timestamp_ns = 5, chunk_data = [1, 2, 3]\<rparr> f1 = Some (Inr (), f2) \<and>
    read_header file_read (file_of (f_data f2)) = Some (Inr \<lparr>magic_payload = [82, 84]\<rparr>, g1) \<and>
    read_chunk file_read g1 = Some (Inr (Some \<lparr>timestamp_ns = 5, chunk_data = [1, 2, 3]\<rparr>), g2) \<and>
    read_chunk file_read g2 = Some (Inr None, g2)"
  by (rule capture_round_trip) (simp_all add: header_fits_def chunk_fits_def)

text \<open>
  A chunk cut off anywhere after its time stamp is reported as an error and never taken
  for data; a chunk cut off inside its time stamp is taken for the regular end of the
  capture.
\<close>

lemma truncated_chunk:
  assumes "unread f = take n (encode_chunk c)" and "n < length (encode_chunk c)" and "chunk_fits c"
  shows "\<exists>f'. read_chunk file_read f = Some (if n < 8 then Inr None else Inl READ_EXACT_EOF, f')"
proof (cases "n < 8")
  case True
  with assms(1) read_chunk_file_end [of f] show ?thesis by simp
next
  case False
  with read_chunk_file_truncated [OF assms(1) _ assms(2,3)] show ?thesis by simp
qed

lemma truncated_chunk_witness:
  "\<exists>f'. read_chunk file_read (file_of (take 11 (encode_chunk \<lparr>timestamp_ns = 5, chunk_data = [1, 2, 3]\<rparr>))) =
     Some (Inl READ_EXACT_EOF, f')"
  using truncated_chunk [of "file_of (take 11 (encode_chunk \<lparr>timestamp_ns = 5, chunk_data = [1, 2, 3]\<rparr>))" 11
      "\<lparr>timestamp_ns = 5, chunk_data = [1, 2, 3]\<rparr>"]
  by (simp add: length_encode_chunk chunk_fits_def)

end
