(* ===== verification/Loops.thy ===== *)
theory Loops
  imports Main
begin

text \<open>
  The worker threads of the program are loops of one shape: a round may go on or end the
  loop, and what it reads from outside comes with the round. The locale \<open>thread_loop\<close>
  states that shape together with what makes such a loop end, and proves once what every
  thread needs: it returns, it stops when its input is used up, and what a round preserves
  the loop preserves. It is interpreted for each loop in the theory that models it.
\<close>

datatype flow = Continue | Break

locale thread_loop =
  fixes step :: "'o \<Rightarrow> 's \<Rightarrow> (flow \<times> 's) option"
    and finish :: "'s \<Rightarrow> 's"
    and run :: "'o list \<Rightarrow> 's \<Rightarrow> (flow \<times> 's) option"
    and fuel :: "'s \<Rightarrow> nat"
  assumes run_Nil: "run [] s = Some (Continue, s)"
    and run_Cons: "run (r # rs) s =
      (case step r s of
         None \<Rightarrow> None
       | Some (Break, s') \<Rightarrow> Some (Break, finish s')
       | Some (Continue, s') \<Rightarrow> run rs s')"
    and step_total: "step r s \<noteq> None"
    and step_progress: "step r s = Some (Continue, s') \<Longrightarrow> fuel s' < fuel s"
begin

lemma run_total: "run rs s \<noteq> None"
proof (induction rs arbitrary: s)
  case (Cons r rs)
  obtain fl s' where "step r s = Some (fl, s')" using step_total [of r s] by auto
  with Cons.IH [of s'] show ?case by (cases fl) (simp_all add: run_Cons)
qed (simp add: run_Nil)

text \<open>One round more than the input allows, and the loop has ended.\<close>

lemma run_ends: "fuel s < length rs \<Longrightarrow> \<exists>s'. run rs s = Some (Break, s')"
proof (induction rs arbitrary: s)
  case (Cons r rs)
  obtain fl s' where st: "step r s = Some (fl, s')" using step_total [of r s] by auto
  show ?case
  proof (cases fl)
    case Continue
    with st have "fuel s' < fuel s" by (simp add: step_progress)
    with Cons.prems have "fuel s' < length rs" by simp
    with Cons.IH [of s'] st Continue show ?thesis by (simp add: run_Cons)
  qed (simp add: run_Cons st)
qed simp

lemma run_invariant:
  assumes "run rs s = Some (fl, s')" and "I s"
    and pres: "\<And>r s fl s'. r \<in> set rs \<Longrightarrow> I s \<Longrightarrow> step r s = Some (fl, s') \<Longrightarrow> I s'"
    and fin: "\<And>s. I s \<Longrightarrow> I (finish s)"
  shows "I s'"
  using assms(1-3)
proof (induction rs arbitrary: s)
  case Nil
  then show ?case by (simp add: run_Nil)
next
  case (Cons r rs)
  obtain f1 s1 where st: "step r s = Some (f1, s1)" using step_total [of r s] by auto
  with Cons.prems(2,3) have "I s1" by (meson list.set_intros(1))
  with Cons.prems(1,3) Cons.IH [of s1] st fin show ?case
    by (cases f1) (auto simp: run_Cons)
qed

lemma run_append:
  "run (rs @ rs') s =
     (case run rs s of
        Some (Continue, s') \<Rightarrow> run rs' s'
      | r \<Rightarrow> r)"
proof (induction rs arbitrary: s)
  case Nil
  then show ?case by (simp add: run_Nil)
next
  case (Cons r rs)
  then show ?case by (simp add: run_Cons split: option.splits prod.splits flow.splits)
qed

end

end
