(* ===== verification/Capture_Tool.thy ===== *)
theory Capture_Tool
  imports Capture Loops "HOL-Library.Sublist"
begin

text \<open>
  The \<open>rtltcp-capture\<close> binary (\<open>src/bin/capture.rs\<close>): connect, read the magic packet,
  create the file, write the header, then a loop that reads from the server, stamps each
  batch and appends it to an in-memory buffer, which is flushed when it is large enough and
  once more at the end.
\<close>

record capture_args =
  duration_s :: nat
  timeout_s :: nat
  buffer_mem :: nat

text \<open>
  What a round reads from outside: the interrupt flag, the elapsed time at the duration
  check, and the elapsed time when the batch is stamped (nanoseconds).
\<close>

record capture_round_in =
  interrupted :: bool
  elapsed :: nat
  stamp :: nat

record capture_state =
  cap_stream :: tcp
  cap_file :: fs_file
  cap_buf :: bytes
  total_bytes :: u64

definition CAPTURE_READ :: nat where
  "CAPTURE_READ = 512 * 1024"

text \<open>Storing one batch: encode it, and flush the buffer when it has grown enough.\<close>

definition store_chunk ::
  "capture_args \<Rightarrow> capture_chunk \<Rightarrow> capture_state \<Rightarrow> (flow \<times> capture_state) option" where
  "store_chunk args chunk s =
     (case write_chunk vec_write chunk [] of
        None \<Rightarrow> None
      | Some (Inl e, _) \<Rightarrow> Some (Continue, s)
      | Some (Inr _, chunk_buf) \<Rightarrow>
          let s = s\<lparr>total_bytes := total_bytes s + of_nat (length (chunk_data chunk)),
                    cap_buf := cap_buf s @ chunk_buf\<rparr>
          in if buffer_mem args \<le> length (cap_buf s)
             then (case write_all file_write (cap_buf s) (cap_file s) of
                     None \<Rightarrow> None
                   | Some (Inl e, f) \<Rightarrow> Some (Break, s\<lparr>cap_file := f\<rparr>)
                   | Some (Inr _, f) \<Rightarrow> Some (Continue, s\<lparr>cap_file := f, cap_buf := []\<rparr>))
             else Some (Continue, s))"

definition capture_round ::
  "capture_args \<Rightarrow> capture_round_in \<Rightarrow> capture_state \<Rightarrow> (flow \<times> capture_state) option" where
  "capture_round args r s =
     (if interrupted r then Some (Break, s)
      else if duration_s args * 10 ^ 9 \<le> elapsed r then Some (Break, s)
      else (case tcp_read CAPTURE_READ (cap_stream s) of
              (Inr bs, st) \<Rightarrow>
                let s' = s\<lparr>cap_stream := st\<rparr>
                in if bs = [] then Some (Break, s')
                   else store_chunk args \<lparr>timestamp_ns = of_nat (stamp r), chunk_data = bs\<rparr> s'
            | (Inl e, st) \<Rightarrow>
                let s' = s\<lparr>cap_stream := st\<rparr>
                in if err_kind e = WouldBlock \<or> err_kind e = TimedOut then Some (Continue, s')
                   else Some (Break, s')))"

fun capture_loop ::
  "capture_args \<Rightarrow> capture_round_in list \<Rightarrow> capture_state \<Rightarrow> (flow \<times> capture_state) option" where
  "capture_loop args [] s = Some (Continue, s)"
| "capture_loop args (r # rs) s =
     (case capture_round args r s of
        None \<Rightarrow> None
      | Some (Break, s') \<Rightarrow> Some (Break, s')
      | Some (Continue, s') \<Rightarrow> capture_loop args rs s')"

text \<open>After the loop: what is left in the buffer goes to the file; an error is only logged.\<close>

definition final_flush :: "capture_state \<Rightarrow> capture_state option" where
  "final_flush s =
     (if cap_buf s \<noteq> []
      then (case write_all file_write (cap_buf s) (cap_file s) of
              None \<Rightarrow> None
            | Some (_, f) \<Rightarrow> Some (s\<lparr>cap_file := f\<rparr>))
      else Some s)"

text \<open>
  The whole program, given what connecting and creating the file return. \<open>Inl\<close> is the
  exit code of an early failure; \<open>Inr\<close> the state at the end, with whether the loop ended.
\<close>

definition capture_main ::
  "capture_args \<Rightarrow> (io_error + tcp) \<Rightarrow> (io_error + fs_file) \<Rightarrow> capture_round_in list \<Rightarrow>
   (nat + flow \<times> capture_state) option" where
  "capture_main args connected created rs =
     (case connected of
        Inl e \<Rightarrow> Some (Inl 1)
      | Inr s0 \<Rightarrow>
          (case set_read_timeout (timeout_s args * 1000) s0 of
             (_, s1) \<Rightarrow>
               (case tcp_read_exact 12 s1 of
                  (Inl e, _) \<Rightarrow> Some (Inl 1)
                | (Inr magic, s2) \<Rightarrow>
                    (case created of
                       Inl e \<Rightarrow> Some (Inl 1)
                     | Inr f0 \<Rightarrow>
                         (case write_header file_write file_stream_position file_seek_start
                                 \<lparr>magic_payload = magic\<rparr> f0 of
                            None \<Rightarrow> None
                          | Some (Inl e, _) \<Rightarrow> Some (Inl 1)
                          | Some (Inr _, f1) \<Rightarrow>
                              (case capture_loop args rs
                                      \<lparr>cap_stream = s2, cap_file = f1, cap_buf = [],
                                       total_bytes = 0\<rparr> of
                                 None \<Rightarrow> None
                               | Some (fl, s) \<Rightarrow>
                                   map_option (\<lambda>s'. Inr (fl, s')) (final_flush s)))))))"

text \<open>
  \<open>main\<close> as a whole: a handler that cannot be installed is a panic; a capture that ends
  flushes the file, which does nothing for a file, and reports the bytes captured, the time
  (\<open>t\<close>) and the size of the file as \<open>metadata\<close> finds it, none if it fails.
\<close>

record capture_report =
  report_total :: u64
  report_elapsed :: nat
  report_size :: nat

datatype capture_end = HandlerPanic | ExitCode nat | Completed flow capture_state capture_report

definition capture_finish :: "(fs_file \<Rightarrow> io_error + nat) \<Rightarrow> nat \<Rightarrow> capture_state \<Rightarrow> capture_report" where
  "capture_finish metadata t s =
     \<lparr>report_total = total_bytes s, report_elapsed = t,
      report_size = (case metadata (cap_file s) of Inl e \<Rightarrow> 0 | Inr n \<Rightarrow> n)\<rparr>"

definition capture_program ::
  "capture_args \<Rightarrow> (string + unit) \<Rightarrow> (io_error + tcp) \<Rightarrow> (io_error + fs_file) \<Rightarrow>
   (fs_file \<Rightarrow> io_error + nat) \<Rightarrow> capture_round_in list \<Rightarrow> nat \<Rightarrow> capture_end option" where
  "capture_program args handler connected created metadata rs t =
     (case handler of
        Inl e \<Rightarrow> Some HandlerPanic
      | Inr _ \<Rightarrow>
          (case capture_main args connected created rs of
             None \<Rightarrow> None
           | Some (Inl code) \<Rightarrow> Some (ExitCode code)
           | Some (Inr (fl, s)) \<Rightarrow> Some (Completed fl s (capture_finish metadata t s))))"

section \<open>The loop ends\<close>

lemma write_chunk_vec [simp]: "write_chunk vec_write c v = Some (Inr (), v @ encode_chunk c)"
  by (simp add: write_chunk_def io_simps Let_def encode_chunk_def)

lemma store_chunk_total: "store_chunk args c s \<noteq> None"
proof -
  obtain r f where "write_all file_write (cap_buf s @ encode_chunk c) (cap_file s) = Some (r, f)"
    using file_wr.write_all_total by fastforce
  then show ?thesis by (cases r) (simp_all add: store_chunk_def Let_def)
qed

lemma store_chunk_stream:
  "store_chunk args c s = Some (fl, s') \<Longrightarrow> cap_stream s' = cap_stream s"
  by (auto simp: store_chunk_def Let_def split: option.splits sum.splits if_splits)

lemma capture_round_total: "capture_round args r s \<noteq> None"
  using store_chunk_total
  by (auto simp: capture_round_def Let_def simp del: not_None_eq split: sum.splits prod.splits)

lemma capture_round_progress:
  assumes "capture_round args r s = Some (Continue, s')"
  shows "script_size (rx (cap_stream s')) < script_size (rx (cap_stream s))"
proof -
  obtain res st where st: "tcp_read CAPTURE_READ (cap_stream s) = (res, st)"
    by (cases "tcp_read CAPTURE_READ (cap_stream s)")
  show ?thesis
  proof (cases res)
    case (Inl e)
    with assms st tcp_rd.read_error_progress [of CAPTURE_READ "cap_stream s" e st] show ?thesis
      by (auto simp: capture_round_def Let_def split: if_splits)
  next
    case (Inr bs)
    with assms st tcp_rd.read_bytes_progress [of CAPTURE_READ "cap_stream s" bs st] show ?thesis
      by (cases bs) (auto simp: capture_round_def Let_def dest!: store_chunk_stream split: if_splits)
  qed
qed

interpretation capture_thread: thread_loop
  "capture_round args" "\<lambda>s. s" "capture_loop args" "\<lambda>s. script_size (rx (cap_stream s))" for args
  by unfold_locales
    (auto simp: capture_round_progress capture_round_total simp del: not_None_eq
      split: option.splits flow.splits prod.splits)

section \<open>What the file holds\<close>

text \<open>
  \<open>capture_inv\<close>: the file is positioned at its end and takes what is written, and file
  and buffer together are a header followed by the encoded chunks. \<open>recorded\<close>: the
  chunks are, in order, what was read from the server, each stamped by the round that read
  it.
\<close>

definition capture_inv :: "bytes \<Rightarrow> capture_chunk list \<Rightarrow> capture_state \<Rightarrow> bool" where
  "capture_inv start cs s \<longleftrightarrow>
     at_end (cap_file s) \<and> f_script (cap_file s) = [] \<and>
     f_data (cap_file s) @ cap_buf s = start @ concat (map encode_chunk cs)"

definition recorded ::
  "read_event list \<Rightarrow> capture_round_in list \<Rightarrow> capture_chunk list \<Rightarrow> capture_state \<Rightarrow> bool" where
  "recorded src rs cs s \<longleftrightarrow>
     stream_bytes src = concat (map chunk_data cs) @ stream_bytes (rx (cap_stream s)) \<and>
     subseq (map timestamp_ns cs) (map (\<lambda>r. of_nat (stamp r)) rs) \<and>
     list_all (\<lambda>c. chunk_data c \<noteq> [] \<and> chunk_fits c) cs \<and>
     total_bytes s = of_nat (length (concat (map chunk_data cs)))"

lemma store_chunk_ok:
  assumes "capture_inv start cs s"
  shows "\<exists>f buf. store_chunk args c s =
      Some (Continue, s\<lparr>total_bytes := total_bytes s + of_nat (length (chunk_data c)),
                        cap_buf := buf, cap_file := f\<rparr>) \<and>
    capture_inv start (cs @ [c])
      (s\<lparr>total_bytes := total_bytes s + of_nat (length (chunk_data c)),
         cap_buf := buf, cap_file := f\<rparr>)"
proof (cases "buffer_mem args \<le> length (cap_buf s @ encode_chunk c)")
  case True
  with assms show ?thesis
    by (intro exI [of _ "file_put (cap_buf s @ encode_chunk c) (cap_file s)"] exI [of _ "[]"])
      (simp add: store_chunk_def Let_def capture_inv_def)
next
  case False
  with assms show ?thesis
    by (intro exI [of _ "cap_file s"] exI [of _ "cap_buf s @ encode_chunk c"])
      (simp add: store_chunk_def Let_def capture_inv_def)
qed

lemma capture_round_inv:
  assumes "capture_round args r s = Some (fl, s')"
    and "capture_inv start cs s" and "recorded src rs cs s"
  shows "\<exists>cs'. capture_inv start cs' s' \<and> recorded src (rs @ [r]) cs' s'"
proof -
  obtain res st where st: "tcp_read CAPTURE_READ (cap_stream s) = (res, st)"
    by (cases "tcp_read CAPTURE_READ (cap_stream s)")
  note sb = tcp_read_stream [OF st]
  have keep: "recorded src (rs @ [r]) cs (s\<lparr>cap_stream := st\<rparr>)"
    if "(case res of Inl e \<Rightarrow> [] | Inr bs \<Rightarrow> bs) = []"
    using assms(3) sb that by (auto simp: recorded_def)
  have same: "recorded src (rs @ [r]) cs s"
    using assms(3) by (auto simp: recorded_def)
  have inv: "capture_inv start cs (s\<lparr>cap_stream := st\<rparr>)"
    using assms(2) by (simp add: capture_inv_def)
  show ?thesis
  proof (cases "interrupted r \<or> duration_s args * 10 ^ 9 \<le> elapsed r")
    case True
    with assms(1) have "s' = s" by (auto simp: capture_round_def split: if_splits)
    with same assms(2) show ?thesis by blast
  next
    case go: False
    show ?thesis
    proof (cases "(case res of Inl e \<Rightarrow> [] | Inr bs \<Rightarrow> bs) = []")
      case True
      with assms(1) st go have "s' = s\<lparr>cap_stream := st\<rparr>"
        by (auto simp: capture_round_def Let_def split: if_splits sum.splits)
      with keep inv True show ?thesis by blast
    next
      case False
      then obtain bs where bs: "res = Inr bs" "bs \<noteq> []" by (cases res) auto
      let ?c = "\<lparr>timestamp_ns = of_nat (stamp r), chunk_data = bs\<rparr>"
      from store_chunk_ok [OF inv, of args ?c] obtain f buf where
        s': "s' = s\<lparr>cap_stream := st, total_bytes := total_bytes s + of_nat (length bs),
               cap_buf := buf, cap_file := f\<rparr>"
          "capture_inv start (cs @ [?c]) s'"
        using assms(1) st go bs by (auto simp: capture_round_def Let_def)
      have "length bs < 2 ^ 32"
        using tcp_rd.read_fits [of CAPTURE_READ "cap_stream s" bs st] st bs
        by (simp add: CAPTURE_READ_def)
      then have "recorded src (rs @ [r]) (cs @ [?c]) s'"
        using assms(3) sb bs s' by (auto simp: recorded_def chunk_fits_def subseq_append')
      with s' show ?thesis by blast
    qed
  qed
qed

lemma recorded_more: "recorded src rs cs s \<Longrightarrow> recorded src (rs @ rs') cs s"
  by (auto simp: recorded_def intro: list_emb_prefix)

lemma capture_loop_inv:
  assumes "capture_loop args rs s = Some (fl, s')"
    and "capture_inv start cs s" and "recorded src rs0 cs s"
  shows "\<exists>cs'. capture_inv start cs' s' \<and> recorded src (rs0 @ rs) cs' s'"
  using assms
proof (induction rs arbitrary: s cs rs0)
  case Nil
  then show ?case by auto
next
  case (Cons r rs)
  obtain f1 s1 where s1: "capture_round args r s = Some (f1, s1)"
    using capture_round_total by fastforce
  from capture_round_inv [OF s1 Cons.prems(2,3)] obtain cs1 where
    cs1: "capture_inv start cs1 s1" "recorded src (rs0 @ [r]) cs1 s1" by blast
  show ?case
  proof (cases f1)
    case Continue
    with Cons.IH [of s1 cs1 "rs0 @ [r]"] cs1 s1 Cons.prems(1) show ?thesis by simp
  next
    case Break
    with s1 Cons.prems(1) have "s' = s1" by simp
    moreover have "recorded src (rs0 @ r # rs) cs1 s1"
      using recorded_more [OF cs1(2), of rs] by simp
    ultimately show ?thesis using cs1 by blast
  qed
qed

lemma final_flush_inv:
  assumes "capture_inv start cs s"
  shows "\<exists>f. final_flush s = Some (s\<lparr>cap_file := f\<rparr>) \<and> f_data f = start @ concat (map encode_chunk cs)"
  using assms
  by (cases "cap_buf s = []")
    (auto simp: final_flush_def capture_inv_def intro: exI [of _ "cap_file s"])

section \<open>The program\<close>

lemma capture_main_run:
  assumes "tcp_read_exact 12 (snd (set_read_timeout (timeout_s args * 1000) s0)) = (Inr magic, s2)"
  shows "\<exists>fl s cs. capture_main args (Inr s0) (Inr (file_of [])) rs = Some (Inr (fl, s)) \<and>
    f_data (cap_file s) = encode_capture \<lparr>magic_payload = magic\<rparr> cs \<and>
    recorded (rx s2) rs cs s \<and> (script_size (rx s2) < length rs \<longrightarrow> fl = Break)"
proof -
  let ?h = "\<lparr>magic_payload = magic\<rparr>"
  let ?f = "file_put (write_header_to_vec ?h) (file_of [])"
  let ?s = "\<lparr>cap_stream = s2, cap_file = ?f, cap_buf = [], total_bytes = 0\<rparr>"
  have hdr: "write_header file_write file_stream_position file_seek_start ?h (file_of []) =
      Some (Inr (), ?f)"
    by (rule write_header_file) (simp_all add: file_of_def)
  obtain fl t where t: "capture_loop args rs ?s = Some (fl, t)"
    using capture_thread.run_total by fastforce
  have "capture_inv (write_header_to_vec ?h) [] ?s"
    by (simp add: capture_inv_def at_end_def file_of_def file_put_def overwrite_def)
  moreover have "recorded (rx s2) [] [] ?s" by (simp add: recorded_def)
  ultimately obtain cs where cs: "capture_inv (write_header_to_vec ?h) cs t" "recorded (rx s2) rs cs t"
    using capture_loop_inv [OF t] by fastforce
  from final_flush_inv [OF cs(1)] obtain f where
    f: "final_flush t = Some (t\<lparr>cap_file := f\<rparr>)"
      "f_data f = write_header_to_vec ?h @ concat (map encode_chunk cs)" by blast
  have "capture_main args (Inr s0) (Inr (file_of [])) rs = Some (Inr (fl, t\<lparr>cap_file := f\<rparr>))"
    using assms hdr t f
    by (cases "set_read_timeout (timeout_s args * 1000) s0") (simp add: capture_main_def)
  moreover have "script_size (rx s2) < length rs \<longrightarrow> fl = Break"
    using capture_thread.run_ends [of ?s rs args] t by auto
  ultimately show ?thesis using f cs(2) by (auto simp: encode_capture_def recorded_def)
qed

lemma length_encode_capture:
  "length (encode_capture h cs) =
     12 + length (magic_payload h) + 12 * length cs + length (concat (map chunk_data cs))"
proof -
  have "length (concat (map encode_chunk cs)) = 12 * length cs + length (concat (map chunk_data cs))"
    by (induction cs) (simp_all add: length_encode_chunk)
  then show ?thesis by (simp add: encode_capture_def write_header_to_vec_def)
qed

lemma tcp_read_exact_12: "tcp_read_exact 12 s = (Inr magic, s') \<Longrightarrow> length magic = 12"
  using tcp_rd.read_exact_length [of 12 s magic s'] by (simp add: read_exact_tcp)

text \<open>
  C22. Once the twelve bytes of the magic packet have arrived, and as long as the disk takes
  what is written, the capture program runs to its end whatever the server sends and however
  it fails, and leaves a file that is exactly one header followed by encoded chunks: the
  header carries the twelve bytes, the chunks carry every byte read after them, in order and
  none lost or doubled, and the stamps are those of the rounds that read them, in order. The
  loop has ended by itself when it was given more rounds than the connection has events. The
  closing report is true: its byte count is the number of bytes captured (modulo its width),
  and the size of the file is that number plus 24 bytes of header and 12 for each chunk.
\<close>

theorem capture_program_file:
  assumes "tcp_read_exact 12 (snd (set_read_timeout (timeout_s args * 1000) s0)) = (Inr magic, s2)"
  shows "\<exists>fl s cs rep.
    capture_program args (Inr ()) (Inr s0) (Inr (file_of [])) (\<lambda>f. Inr (length (f_data f))) rs t =
      Some (Completed fl s rep) \<and>
    f_data (cap_file s) = encode_capture \<lparr>magic_payload = magic\<rparr> cs \<and>
    recorded (rx s2) rs cs s \<and> (script_size (rx s2) < length rs \<longrightarrow> fl = Break) \<and>
    report_total rep = of_nat (length (concat (map chunk_data cs))) \<and>
    report_size rep = 24 + 12 * length cs + length (concat (map chunk_data cs))"
proof -
  from capture_main_run [OF assms, of rs] obtain fl s cs where
    s: "capture_main args (Inr s0) (Inr (file_of [])) rs = Some (Inr (fl, s))"
      "f_data (cap_file s) = encode_capture \<lparr>magic_payload = magic\<rparr> cs" "recorded (rx s2) rs cs s"
      "script_size (rx s2) < length rs \<longrightarrow> fl = Break" by blast
  have "capture_program args (Inr ()) (Inr s0) (Inr (file_of [])) (\<lambda>f. Inr (length (f_data f))) rs t =
      Some (Completed fl s (capture_finish (\<lambda>f. Inr (length (f_data f))) t s))"
    using s(1) by (simp add: capture_program_def)
  moreover have "report_size (capture_finish (\<lambda>f. Inr (length (f_data f))) t s) =
      24 + 12 * length cs + length (concat (map chunk_data cs))"
    using s(2) tcp_read_exact_12 [OF assms] by (simp add: capture_finish_def length_encode_capture)
  moreover have "report_total (capture_finish (\<lambda>f. Inr (length (f_data f))) t s) =
      of_nat (length (concat (map chunk_data cs)))"
    using s(3) by (simp add: capture_finish_def recorded_def)
  ultimately show ?thesis using s(2-4) by blast
qed

theorem capture_program_file_witness:
  "\<exists>fl s cs rep. capture_program \<lparr>duration_s = 10, timeout_s = 5, buffer_mem = 16\<rparr> (Inr ())
      (Inr (fresh_tcp [Data [1, 2, 3, 4, 5, 6, 7, 8, 9, 10], Data [11, 12, 13, 14], Data [15]]))
      (Inr (file_of [])) (\<lambda>f. Inr (length (f_data f)))
      (replicate 4 \<lparr>interrupted = False, elapsed = 7, stamp = 9\<rparr>) 8 = Some (Completed fl s rep) \<and>
    f_data (cap_file s) =
      encode_capture \<lparr>magic_payload = [1, 2, 3, 4, 5, 6, 7, 8, 9, 10, 11, 12]\<rparr> cs \<and>
    recorded [Data [13, 14], Data [15]]
      (replicate 4 \<lparr>interrupted = False, elapsed = 7, stamp = 9\<rparr>) cs s \<and> fl = Break \<and>
    report_total rep = of_nat (length (concat (map chunk_data cs))) \<and>
    report_size rep = 24 + 12 * length cs + length (concat (map chunk_data cs))"
  using capture_program_file
    [of "\<lparr>duration_s = 10, timeout_s = 5, buffer_mem = 16\<rparr>"
      "fresh_tcp [Data [1, 2, 3, 4, 5, 6, 7, 8, 9, 10], Data [11, 12, 13, 14], Data [15]]"
      "[1, 2, 3, 4, 5, 6, 7, 8, 9, 10, 11, 12]"
      "(fresh_tcp [Data [13, 14], Data [15]])\<lparr>read_timeout := Some 5000\<rparr>"
      "replicate 4 \<lparr>interrupted = False, elapsed = 7, stamp = 9\<rparr>" 8]
  by (simp add: fresh_tcp_def set_read_timeout_def tcp_read_exact_def)



end
