(* ===== verification/Errors.thy ===== *)
theory Errors
  imports Std_IO
begin

text \<open>
  The program's error type (\<open>src/error.rs\<close>), its text, and the conversions the
  \<open>?\<close> operator applies. \<open>err_msg\<close> of an I/O error is its \<open>Display\<close> text.
\<close>

datatype rtl_tcp_error =
    Device string
  | Network string
  | Config string
  | Io io_error

definition rtl_tcp_error_fmt :: "rtl_tcp_error \<Rightarrow> string" where
  "rtl_tcp_error_fmt err =
     (case err of
        Device msg \<Rightarrow> ''Device error: '' @ msg
      | Network msg \<Rightarrow> ''Network error: '' @ msg
      | Config msg \<Rightarrow> ''Configuration error: '' @ msg
      | Io e \<Rightarrow> ''I/O error: '' @ err_msg e)"

definition rtl_tcp_error_from_io :: "io_error \<Rightarrow> rtl_tcp_error" where
  "rtl_tcp_error_from_io e = Io e"

text \<open>A boxed error is known to the conversion only through its text.\<close>

definition rtl_tcp_error_from_box :: "string \<Rightarrow> rtl_tcp_error" where
  "rtl_tcp_error_from_box text = Device text"

text \<open>
  The \<open>?\<close> operator on an \<open>io::Result\<close> in a function that returns
  \<open>RtlTcpError\<close>, and \<open>map_err\<close> with a text of its own.
\<close>

definition lift_io :: "io_error + 'a \<Rightarrow> rtl_tcp_error + 'a" where
  "lift_io r = (case r of Inl e \<Rightarrow> Inl (rtl_tcp_error_from_io e) | Inr x \<Rightarrow> Inr x)"

definition map_err :: "('e \<Rightarrow> 'f) \<Rightarrow> 'e + 'a \<Rightarrow> 'f + 'a" where
  "map_err f r = (case r of Inl e \<Rightarrow> Inl (f e) | Inr x \<Rightarrow> Inr x)"

lemma lift_io_simps [simp]:
  "lift_io (Inl e) = Inl (Io e)"
  "lift_io (Inr x) = Inr x"
  by (simp_all add: lift_io_def rtl_tcp_error_from_io_def)

lemma map_err_simps [simp]:
  "map_err f (Inl e) = Inl (f e)"
  "map_err f (Inr x) = Inr x"
  by (simp_all add: map_err_def)

text \<open>The class of an error can be read off its text.\<close>

lemma rtl_tcp_error_fmt_class:
  assumes "rtl_tcp_error_fmt a = rtl_tcp_error_fmt b"
  shows "(\<exists>m. a = Device m \<and> b = Device m) \<or> (\<exists>m. a = Network m \<and> b = Network m) \<or>
    (\<exists>m. a = Config m \<and> b = Config m) \<or>
    (\<exists>e e'. a = Io e \<and> b = Io e' \<and> err_msg e = err_msg e')"
  using assms by (cases a; cases b) (auto simp: rtl_tcp_error_fmt_def)

end
