(* ===== verification/Std_Text.thy ===== *)
theory Std_Text
  imports Prelude
begin

text \<open>
  Text conversions of the standard library that the program uses: \<open>Display\<close> of integers,
  parsing of a port number, \<open>rsplit_once\<close>, and the parser and printer of
  \<open>std::net::IpAddr\<close> with \<open>to_canonical\<close>. A parser takes the rest of the input
  and returns a value with what is left, or \<open>None\<close> without consuming anything, as the
  standard library's \<open>read_atomically\<close> does.
\<close>

section \<open>Integers\<close>

definition digit_char :: "nat \<Rightarrow> char" where
  "digit_char d = (if d < 10 then char_of (48 + d) else char_of (87 + d))"

definition to_digit :: "nat \<Rightarrow> char \<Rightarrow> nat option" where
  "to_digit radix c =
     (let k = of_char c :: nat;
          d = (if 48 \<le> k \<and> k \<le> 57 then k - 48
               else if 97 \<le> k \<and> k \<le> 122 then k - 87
               else if 65 \<le> k \<and> k \<le> 90 then k - 55
               else radix)
      in if d < radix then Some d else None)"

fun show_radix :: "nat \<Rightarrow> nat \<Rightarrow> string" where
  "show_radix b n =
     (if n < b \<or> b < 2 then [digit_char n] else show_radix b (n div b) @ [digit_char (n mod b)])"

declare show_radix.simps [simp del]

definition show_nat :: "nat \<Rightarrow> string" where
  "show_nat n = show_radix 10 n"

definition show_u32 :: "u32 \<Rightarrow> string" where
  "show_u32 w = show_nat (unat w)"

definition show_i32 :: "i32 \<Rightarrow> string" where
  "show_i32 w =
     (if sint w < 0 then CHR ''-'' # show_nat (nat (- sint w)) else show_nat (nat (sint w)))"

fun digits_value :: "nat \<Rightarrow> nat \<Rightarrow> string \<Rightarrow> nat option" where
  "digits_value radix acc [] = Some acc"
| "digits_value radix acc (c # cs) =
     (case to_digit radix c of
        None \<Rightarrow> None
      | Some d \<Rightarrow> digits_value radix (acc * radix + d) cs)"

text \<open>\<open>str::parse::<u16>\<close>: an optional plus sign, then at least one digit.\<close>

definition parse_u16 :: "string \<Rightarrow> u16 option" where
  "parse_u16 s =
     (let body = (case s of c # cs \<Rightarrow> if c = CHR ''+'' then cs else s | [] \<Rightarrow> [])
      in if body = [] then None
         else (case digits_value 10 0 body of
                 None \<Rightarrow> None
               | Some n \<Rightarrow> if n < 2 ^ 16 then Some (of_nat n) else None))"

text \<open>\<open>str::rsplit_once\<close> with a character: split at its last occurrence.\<close>

fun rsplit_once :: "char \<Rightarrow> string \<Rightarrow> (string \<times> string) option" where
  "rsplit_once d [] = None"
| "rsplit_once d (c # cs) =
     (case rsplit_once d cs of
        Some (a, b) \<Rightarrow> Some (c # a, b)
      | None \<Rightarrow> if c = d then Some ([], cs) else None)"

section \<open>IP addresses\<close>

datatype ip_addr = V4 u8 u8 u8 u8 | V6 "u16 list"

type_synonym 'a parser = "string \<Rightarrow> ('a \<times> string) option"

fun read_digits :: "nat \<Rightarrow> nat \<Rightarrow> nat \<Rightarrow> string \<Rightarrow> nat \<times> nat \<times> string" where
  "read_digits radix acc count [] = (acc, count, [])"
| "read_digits radix acc count (c # cs) =
     (case to_digit radix c of
        None \<Rightarrow> (acc, count, c # cs)
      | Some d \<Rightarrow> read_digits radix (acc * radix + d) (Suc count) cs)"

definition read_number :: "nat \<Rightarrow> nat \<Rightarrow> bool \<Rightarrow> nat \<Rightarrow> nat parser" where
  "read_number radix max_digits allow_zero_prefix bound s =
     (case read_digits radix 0 0 s of
        (value, count, rest) \<Rightarrow>
          if count = 0 \<or> max_digits < count then None
          else if \<not> allow_zero_prefix \<and> take 1 s = ''0'' \<and> 1 < count then None
          else if value < bound then Some (value, rest) else None)"

definition read_given_char :: "char \<Rightarrow> unit parser" where
  "read_given_char d s = (case s of c # cs \<Rightarrow> if c = d then Some ((), cs) else None | [] \<Rightarrow> None)"

definition read_separator :: "char \<Rightarrow> nat \<Rightarrow> 'a parser \<Rightarrow> 'a parser" where
  "read_separator sep index inner s =
     (if 0 < index
      then (case read_given_char sep s of None \<Rightarrow> None | Some (_, rest) \<Rightarrow> inner rest)
      else inner s)"

definition read_octet :: "nat \<Rightarrow> nat parser" where
  "read_octet i = read_separator CHR ''.'' i (read_number 10 3 False 256)"

definition read_ipv4_addr :: "(u8 \<times> u8 \<times> u8 \<times> u8) parser" where
  "read_ipv4_addr s0 =
     (case read_octet 0 s0 of None \<Rightarrow> None | Some (a, s1) \<Rightarrow>
      (case read_octet 1 s1 of None \<Rightarrow> None | Some (b, s2) \<Rightarrow>
       (case read_octet 2 s2 of None \<Rightarrow> None | Some (c, s3) \<Rightarrow>
        (case read_octet 3 s3 of None \<Rightarrow> None | Some (d, s4) \<Rightarrow>
           Some ((of_nat a, of_nat b, of_nat c, of_nat d), s4)))))"

text \<open>
  \<open>read_groups k i limit s\<close> reads the groups from index \<open>i\<close> on (\<open>k = limit - i\<close> are
  left), and says whether the last thing read was an embedded IPv4 address.
\<close>

fun read_groups :: "nat \<Rightarrow> nat \<Rightarrow> nat \<Rightarrow> string \<Rightarrow> u16 list \<times> bool \<times> string" where
  "read_groups 0 i limit s = ([], False, s)"
| "read_groups (Suc k) i limit s =
     (case (if i < limit - 1 then read_separator CHR '':'' i read_ipv4_addr s else None) of
        Some ((a, b, c, d), rest) \<Rightarrow> ([from_be [a, b], from_be [c, d]], True, rest)
      | None \<Rightarrow>
          (case read_separator CHR '':'' i (read_number 16 4 True (2 ^ 16)) s of
             None \<Rightarrow> ([], False, s)
           | Some (g, rest) \<Rightarrow>
               (case read_groups k (Suc i) limit rest of
                  (gs, v4, rest') \<Rightarrow> (of_nat g # gs, v4, rest'))))"

definition read_ipv6_addr :: "u16 list parser" where
  "read_ipv6_addr s =
     (case read_groups 8 0 8 s of
        (hd_groups, hd_ipv4, s1) \<Rightarrow>
          if length hd_groups = 8 then Some (hd_groups, s1)
          else if hd_ipv4 then None
          else (case read_given_char CHR '':'' s1 of None \<Rightarrow> None | Some (_, s2) \<Rightarrow>
                (case read_given_char CHR '':'' s2 of None \<Rightarrow> None | Some (_, s3) \<Rightarrow>
                   (let limit = 8 - (length hd_groups + 1)
                    in case read_groups limit 0 limit s3 of
                         (tl_groups, _, s4) \<Rightarrow>
                           Some (hd_groups @
                                 replicate (8 - length hd_groups - length tl_groups) 0 @
                                 tl_groups, s4)))))"

definition parse_ip_addr :: "string \<Rightarrow> ip_addr option" where
  "parse_ip_addr s =
     (case read_ipv4_addr s of
        Some ((a, b, c, d), rest) \<Rightarrow> if rest = [] then Some (V4 a b c d) else None
      | None \<Rightarrow>
          (case read_ipv6_addr s of
             Some (gs, rest) \<Rightarrow> if rest = [] then Some (V6 gs) else None
           | None \<Rightarrow> None))"

definition to_ipv4_mapped :: "u16 list \<Rightarrow> ip_addr option" where
  "to_ipv4_mapped gs =
     (if take 6 gs = [0, 0, 0, 0, 0, 0xffff] \<and> length gs = 8
      then (case to_be (gs ! 6) @ to_be (gs ! 7) of
              [a, b, c, d] \<Rightarrow> Some (V4 a b c d)
            | _ \<Rightarrow> None)
      else None)"

definition to_canonical :: "ip_addr \<Rightarrow> ip_addr" where
  "to_canonical ip =
     (case ip of
        V4 a b c d \<Rightarrow> V4 a b c d
      | V6 gs \<Rightarrow> (case to_ipv4_mapped gs of Some v4 \<Rightarrow> v4 | None \<Rightarrow> V6 gs))"

definition show_ipv4 :: "u8 \<Rightarrow> u8 \<Rightarrow> u8 \<Rightarrow> u8 \<Rightarrow> string" where
  "show_ipv4 a b c d =
     show_nat (unat a) @ ''.'' @ show_nat (unat b) @ ''.'' @ show_nat (unat c) @ ''.'' @
     show_nat (unat d)"

fun show_groups :: "u16 list \<Rightarrow> string" where
  "show_groups [] = []"
| "show_groups [g] = show_radix 16 (unat g)"
| "show_groups (g # gs) = show_radix 16 (unat g) @ '':'' @ show_groups gs"

text \<open>The first longest run of zero groups, as its start and length.\<close>

fun zero_span :: "u16 list \<Rightarrow> nat \<Rightarrow> nat \<times> nat \<Rightarrow> nat \<times> nat \<Rightarrow> nat \<times> nat" where
  "zero_span [] i current longest = longest"
| "zero_span (g # gs) i current longest =
     (if g = 0
      then (let current' = (if snd current = 0 then (i, 1) else (fst current, snd current + 1))
            in zero_span gs (Suc i) current'
                 (if snd longest < snd current' then current' else longest))
      else zero_span gs (Suc i) (0, 0) longest)"

definition show_ipv6 :: "u16 list \<Rightarrow> string" where
  "show_ipv6 gs =
     (case to_ipv4_mapped gs of
        Some (V4 a b c d) \<Rightarrow> ''::ffff:'' @ show_ipv4 a b c d
      | _ \<Rightarrow>
          (case zero_span gs 0 (0, 0) (0, 0) of
             (start, len) \<Rightarrow>
               if 1 < len
               then show_groups (take start gs) @ ''::'' @ show_groups (drop (start + len) gs)
               else show_groups gs))"

definition show_ip_addr :: "ip_addr \<Rightarrow> string" where
  "show_ip_addr ip = (case ip of V4 a b c d \<Rightarrow> show_ipv4 a b c d | V6 gs \<Rightarrow> show_ipv6 gs)"

section \<open>Digits\<close>

lemma to_digit_digit_char:
  assumes "d < b" and "b \<le> 16"
  shows "to_digit b (digit_char d) = Some d"
  using assms by (auto simp: to_digit_def digit_char_def Let_def of_char_of)

lemma read_digits_show_radix:
  assumes "2 \<le> b" and "b \<le> 16"
    and stop: "rest = [] \<or> to_digit b (hd rest) = None"
  shows "read_digits b acc count (show_radix b n @ rest) =
    (acc * b ^ length (show_radix b n) + n, count + length (show_radix b n), rest)"
proof -
  have go: "read_digits b acc count (show_radix b n @ cs) =
      read_digits b (acc * b ^ length (show_radix b n) + n)
        (count + length (show_radix b n)) cs" for cs
    using assms(1,2)
  proof (induction b n arbitrary: cs rule: show_radix.induct)
    case (1 b n)
    show ?case
    proof (cases "n < b")
      case True
      with 1 show ?thesis
        by (simp add: show_radix.simps [of b n] to_digit_digit_char)
    next
      case False
      with 1 show ?thesis
        by (simp add: show_radix.simps [of b n] to_digit_digit_char algebra_simps)
    qed
  qed
  have "read_digits b a k rest = (a, k, rest)" for a k
    using stop by (cases rest) auto
  with go show ?thesis by simp
qed

lemma show_radix_first:
  assumes "2 \<le> b" and "b \<le> 16"
  shows "show_radix b n \<noteq> [] \<and>
    (hd (show_radix b n) = CHR ''0'' \<longrightarrow> length (show_radix b n) = 1)"
  using assms
proof (induction b n rule: show_radix.induct)
  case (1 b n)
  show ?case
  proof (cases "n < b")
    case True
    then show ?thesis by (simp add: show_radix.simps [of b n])
  next
    case False
    with 1 have IH: "show_radix b (n div b) \<noteq> []"
      "hd (show_radix b (n div b)) = CHR ''0'' \<longrightarrow> length (show_radix b (n div b)) = 1"
      by simp_all
    have "hd (show_radix b (n div b)) \<noteq> CHR ''0''"
    proof
      assume z: "hd (show_radix b (n div b)) = CHR ''0''"
      with IH have one: "show_radix b (n div b) = ''0''"
        by (cases "show_radix b (n div b)") auto
      have "read_digits b 0 0 (show_radix b (n div b) @ []) = (n div b, 1, [])"
        using one 1(2,3) by (subst read_digits_show_radix) auto
      with one 1(2) have "n div b = 0"
        by (simp add: to_digit_def)
      with False 1(2) show False by (simp add: div_eq_0_iff)
    qed
    with IH False show ?thesis by (simp add: show_radix.simps [of b n])
  qed
qed

lemma length_show_radix_bound:
  assumes "2 \<le> b" and "n < b ^ k" and "0 < k"
  shows "length (show_radix b n) \<le> k"
  using assms
proof (induction b n arbitrary: k rule: show_radix.induct)
  case (1 b n)
  show ?case
  proof (cases "n < b")
    case True
    with 1 show ?thesis by (simp add: show_radix.simps [of b n])
  next
    case False
    with 1(3,4) obtain j where j: "k = Suc j" "0 < j"
      by (metis gr0_implies_Suc less_numeral_extra(3) neq0_conv power_0 power_Suc0_right power_one_right Suc_eq_plus1 add_0)
    with 1(3) have "n div b < b ^ j"
      by (simp add: less_mult_imp_div_less mult.commute)
    with 1(1) [of j] False 1(2) j show ?thesis
      by (simp add: show_radix.simps [of b n])
  qed
qed

lemma read_number_show:
  assumes "2 \<le> b" and "b \<le> 16" and "n < bound" and "n < b ^ k" and "0 < k"
    and "rest = [] \<or> to_digit b (hd rest) = None"
  shows "read_number b k zp bound (show_radix b n @ rest) = Some (n, rest)"
proof -
  have ne: "show_radix b n \<noteq> []"
    and lead: "hd (show_radix b n) = CHR ''0'' \<longrightarrow> length (show_radix b n) = 1"
    using show_radix_first [OF assms(1,2)] by auto
  have "take 1 (show_radix b n @ rest) = [hd (show_radix b n)]"
    using ne by (cases "show_radix b n") auto
  with ne lead assms length_show_radix_bound [OF assms(1,4,5)] show ?thesis
    by (auto simp: read_number_def read_digits_show_radix)
qed

lemma digits_value_show:
  assumes "2 \<le> b" and "b \<le> 16"
  shows "digits_value b acc (show_radix b n @ cs) =
    digits_value b (acc * b ^ length (show_radix b n) + n) cs"
  using assms
proof (induction b n arbitrary: cs rule: show_radix.induct)
  case (1 b n)
  show ?case
  proof (cases "n < b")
    case True
    with 1 show ?thesis by (simp add: show_radix.simps [of b n] to_digit_digit_char)
  next
    case False
    with 1 show ?thesis
      by (simp add: show_radix.simps [of b n] to_digit_digit_char algebra_simps)
  qed
qed

lemma digit_char_not:
  assumes "d < 10"
  shows "digit_char d \<noteq> CHR '':''" "digit_char d \<noteq> CHR ''+''"
proof -
  from assms have "(of_char (digit_char d) :: nat) = 48 + d"
    by (simp add: digit_char_def of_char_of)
  with assms show "digit_char d \<noteq> CHR '':''" "digit_char d \<noteq> CHR ''+''" by auto
qed

lemma show_nat_chars: "c \<in> set (show_nat n) \<Longrightarrow> c \<noteq> CHR '':'' \<and> c \<noteq> CHR ''+''"
proof -
  have "c \<in> set (show_radix b n) \<Longrightarrow> b = 10 \<Longrightarrow> c \<noteq> CHR '':'' \<and> c \<noteq> CHR ''+''" for b
    by (induction b n rule: show_radix.induct)
      (subst (asm) (2) show_radix.simps, auto simp: digit_char_not split: if_splits)
  then show "c \<in> set (show_nat n) \<Longrightarrow> c \<noteq> CHR '':'' \<and> c \<noteq> CHR ''+''" by (simp add: show_nat_def)
qed

text \<open>The decimal form of a port number is parsed back to it.\<close>

lemma parse_u16_show [simp]: "parse_u16 (show_nat (unat (p :: u16))) = Some p"
proof -
  have "unat p < 2 ^ LENGTH(16)" by (rule unsigned_less)
  moreover have "show_nat (unat p) \<noteq> []"
    using show_radix_first [of 10 "unat p"] by (simp add: show_nat_def)
  moreover have "digits_value 10 0 (show_nat (unat p)) = Some (unat p)"
    using digits_value_show [of 10 0 "unat p" "[]"] by (simp add: show_nat_def)
  ultimately show ?thesis
    using show_nat_chars [of "hd (show_nat (unat p))" "unat p"]
    by (cases "show_nat (unat p)") (auto simp: parse_u16_def)
qed

lemma rsplit_once_None: "d \<notin> set s \<Longrightarrow> rsplit_once d s = None"
  by (induction s) auto

lemma rsplit_once_last [simp]: "d \<notin> set b \<Longrightarrow> rsplit_once d (a @ d # b) = Some (a, b)"
  by (induction a) (auto simp: rsplit_once_None)

lemma rsplit_once_SomeD:
  "rsplit_once d s = Some (a, b) \<Longrightarrow> s = a @ d # b \<and> d \<notin> set b"
proof (induction s arbitrary: a b)
  case (Cons c s)
  show ?case
  proof (cases "rsplit_once d s")
    case None
    moreover have "d \<notin> set s" if "rsplit_once d s = None"
      using that by (induction s) (auto split: option.splits if_splits)
    ultimately show ?thesis using Cons.prems by (auto split: if_splits)
  next
    case (Some ab)
    with Cons show ?thesis by (cases ab) auto
  qed
qed simp

section \<open>Addresses round trip\<close>

lemma read_octet_show:
  assumes "rest = [] \<or> hd rest = CHR ''.''"
  shows "read_octet i ((if 0 < i then ''.'' else []) @ show_nat (unat (a :: u8)) @ rest) =
    Some (unat a, rest)"
proof -
  have "unat a < 2 ^ LENGTH(8)" by (rule unsigned_less)
  then have "unat a < 256" by simp
  moreover have "to_digit 10 CHR ''.'' = None" by (simp add: to_digit_def)
  ultimately show ?thesis
    using assms
    by (auto simp: read_octet_def read_separator_def read_given_char_def show_nat_def
        intro!: read_number_show)
qed

text \<open>The printed form of an IPv4 address is parsed back to the same address.\<close>

lemma parse_show_ipv4 [simp]: "parse_ip_addr (show_ip_addr (V4 a b c d)) = Some (V4 a b c d)"
proof -
  have "read_ipv4_addr (show_ipv4 a b c d) = Some ((a, b, c, d), [])"
    using read_octet_show [where i = 0] read_octet_show [where i = 1]
      read_octet_show [where i = 2] read_octet_show [where i = 3 and rest = "[]"]
    by (simp add: read_ipv4_addr_def show_ipv4_def)
  then show ?thesis
    by (simp add: parse_ip_addr_def show_ip_addr_def)
qed

lemma to_canonical_V4 [simp]: "to_canonical (V4 a b c d) = V4 a b c d"
  by (simp add: to_canonical_def)

lemma to_canonical_idem [simp]: "to_canonical (to_canonical ip) = to_canonical ip"
  by (auto simp: to_canonical_def to_ipv4_mapped_def split: ip_addr.splits option.splits list.splits if_splits)

text \<open>The IPv4-mapped form of an IPv4 address is canonicalised to that address.\<close>

definition ipv4_mapped :: "u8 \<Rightarrow> u8 \<Rightarrow> u8 \<Rightarrow> u8 \<Rightarrow> ip_addr" where
  "ipv4_mapped a b c d = V6 [0, 0, 0, 0, 0, 0xffff, from_be [a, b], from_be [c, d]]"

lemma to_canonical_mapped [simp]: "to_canonical (ipv4_mapped a b c d) = V4 a b c d"
  by (simp add: to_canonical_def to_ipv4_mapped_def ipv4_mapped_def)

end
