(* ===== verification/Ip_Text.thy ===== *)
theory Ip_Text
  imports Std_Text
begin

text \<open>
  The printer and the parser of IP addresses (\<open>Std_Text\<close>) agree: every address is parsed
  back from its printed form, IPv6 with its compressed run of zeros and its embedded IPv4
  part included. The whitelist check depends on it: it prints the address of a client and
  parses it again.
\<close>

section \<open>Characters of the printed form\<close>

lemma hex_digit_char:
  assumes "d < 16"
  shows "digit_char d \<noteq> CHR ''.''" "digit_char d \<noteq> CHR '':''"
proof -
  from assms have "(of_char (digit_char d) :: nat) = (if d < 10 then 48 + d else 87 + d)"
    by (simp add: digit_char_def of_char_of)
  with assms show "digit_char d \<noteq> CHR ''.''" "digit_char d \<noteq> CHR '':''" by (auto split: if_splits)
qed

lemma show_radix_digits: "2 \<le> b \<Longrightarrow> set (show_radix b n) \<subseteq> digit_char ` {..<b}"
proof (induction b n rule: show_radix.induct)
  case (1 b n)
  then show ?case by (cases "n < b") (simp_all add: show_radix.simps [of b n])
qed

lemma show_hex_chars: "CHR ''.'' \<notin> set (show_radix 16 n) \<and> CHR '':'' \<notin> set (show_radix 16 n)"
  using show_radix_digits [of 16 n] hex_digit_char by fastforce

lemma show_groups_no_dot: "CHR ''.'' \<notin> set (show_groups gs)"
  by (induction gs rule: show_groups.induct) (auto simp: show_hex_chars)

lemma to_digit_stops [simp]:
  "to_digit 10 CHR '':'' = None" "to_digit 16 CHR '':'' = None" "to_digit 10 CHR ''.'' = None"
  "to_digit 16 CHR ''.'' = None" "to_digit 10 CHR ''f'' = None"
  by (simp_all add: to_digit_def)

section \<open>Where the readers stop\<close>

lemma read_digits_rest: "read_digits b acc k s = (v, m, rest) \<Longrightarrow> set rest \<subseteq> set s"
  by (induction b acc k s rule: read_digits.induct) (auto split: option.splits)

text \<open>Without a dot there is no IPv4 address.\<close>

lemma read_ipv4_no_dot:
  assumes "CHR ''.'' \<notin> set s"
  shows "read_ipv4_addr s = None"
proof (cases "read_octet 0 s")
  case (Some as)
  obtain a s1 where as: "as = (a, s1)" by (cases as)
  with Some have "set s1 \<subseteq> set s"
    by (auto simp: read_octet_def read_separator_def read_number_def split: prod.splits if_splits
        dest: read_digits_rest)
  with assms have "read_octet 1 s1 = None"
    by (cases s1) (auto simp: read_octet_def read_separator_def read_given_char_def)
  with Some as show ?thesis by (simp add: read_ipv4_addr_def)
qed (simp add: read_ipv4_addr_def)

lemma read_separated_no_dot: "CHR ''.'' \<notin> set s \<Longrightarrow> read_separator sep i read_ipv4_addr s = None"
  by (cases s) (auto simp: read_separator_def read_given_char_def read_ipv4_no_dot split: option.splits)

lemma read_number_stops: "s = [] \<or> to_digit b (hd s) = None \<Longrightarrow> read_number b k zp bound s = None"
  by (cases s) (auto simp: read_number_def)

text \<open>What ends a list of groups: the end of the text, or a second colon.\<close>

definition groups_end :: "string \<Rightarrow> bool" where
  "groups_end s \<longleftrightarrow> s = [] \<or> (\<exists>r. s = CHR '':'' # CHR '':'' # r)"

lemma read_groups_stop:
  assumes "groups_end s" and "CHR ''.'' \<notin> set s"
  shows "read_groups k i limit s = ([], False, s)"
proof (cases k)
  case (Suc k')
  have "read_separator CHR '':'' i (read_number 16 4 True (2 ^ 16)) s = None"
    using assms(1)
    by (auto simp: groups_end_def read_separator_def read_given_char_def intro!: read_number_stops)
  with Suc read_separated_no_dot [OF assms(2)] show ?thesis by simp
qed simp

text \<open>Printed groups are read back, up to where they end.\<close>

lemma read_hex_show:
  assumes "rest = [] \<or> hd rest = CHR '':''"
  shows "read_number 16 4 True (2 ^ 16) (show_radix 16 (unat (g :: u16)) @ rest) = Some (unat g, rest)"
proof -
  have "unat g < 2 ^ LENGTH(16)" by (rule unsigned_less)
  with assms show ?thesis by (intro read_number_show) auto
qed

lemma read_groups_show:
  assumes "gs \<noteq> []" and "length gs \<le> k" and "groups_end rest" and "CHR ''.'' \<notin> set rest"
  shows "read_groups k i limit ((if 0 < i then '':'' else []) @ show_groups gs @ rest) = (gs, False, rest)"
  using assms
proof (induction gs arbitrary: k i rule: show_groups.induct)
  case 1
  then show ?case by simp
next
  case (2 g)
  then obtain k' where k: "k = Suc k'" by (cases k) auto
  let ?s = "(if 0 < i then '':'' else []) @ show_radix 16 (unat g) @ rest"
  have "read_separator CHR '':'' i read_ipv4_addr ?s = None"
    using 2 show_hex_chars by (intro read_separated_no_dot) auto
  moreover have "read_number 16 4 True (2 ^ 16) (show_radix 16 (unat g) @ rest) = Some (unat g, rest)"
    using 2(3) by (intro read_hex_show) (auto simp: groups_end_def)
  ultimately show ?case
    using k read_groups_stop [OF 2(3,4)] by (simp add: read_separator_def read_given_char_def)
next
  case (3 g g' gs)
  then obtain k' where k: "k = Suc k'" "length (g' # gs) \<le> k'" by (cases k) auto
  let ?r = "'':'' @ show_groups (g' # gs) @ rest"
  let ?s = "(if 0 < i then '':'' else []) @ show_radix 16 (unat g) @ ?r"
  have "read_separator CHR '':'' i read_ipv4_addr ?s = None"
    using 3(5) show_hex_chars show_groups_no_dot [of "g' # gs"] by (intro read_separated_no_dot) auto
  moreover have "read_number 16 4 True (2 ^ 16) (show_radix 16 (unat g) @ ?r) = Some (unat g, ?r)"
    by (rule read_hex_show) simp
  moreover have "read_groups k' (Suc i) limit ?r = (g' # gs, False, rest)"
    using 3(1) [of k' "Suc i"] 3(4,5) k(2) by simp
  ultimately show ?case
    using k(1) by (cases "i = 0") (simp_all add: read_separator_def read_given_char_def)
qed

section \<open>The run of zeros\<close>

definition zeros_at :: "u16 list \<Rightarrow> nat \<times> nat \<Rightarrow> bool" where
  "zeros_at gs sp \<longleftrightarrow> fst sp + snd sp \<le> length gs \<and> (\<forall>j < snd sp. gs ! (fst sp + j) = 0)"

lemma zeros_at_append: "zeros_at gs sp \<Longrightarrow> zeros_at (gs @ hs) sp"
  by (simp add: zeros_at_def nth_append)

lemma zero_span_zeros:
  assumes "zeros_at done longest" and "snd current = 0 \<or> zeros_at done current \<and> fst current + snd current = length done"
  shows "zeros_at (done @ gs) (zero_span gs (length done) current longest)"
  using assms
proof (induction gs arbitrary: "done" current longest)
  case (Cons g gs)
  let ?d = "done @ [g]"
  let ?c = "if snd current = 0 then (length done, 1) else (fst current, snd current + 1)"
  have longest: "zeros_at ?d longest" using Cons.prems(1) by (rule zeros_at_append)
  show ?case
  proof (cases "g = 0")
    case True
    have c: "zeros_at ?d ?c" "fst ?c + snd ?c = length ?d"
      using Cons.prems(2) True by (auto simp: zeros_at_def nth_append less_Suc_eq)
    with longest have "zeros_at ?d (if snd longest < snd ?c then ?c else longest)" by (simp split: if_split)
    from Cons.IH [OF this, of ?c] c True show ?thesis by (simp only: zero_span.simps Let_def) simp
  next
    case False
    with Cons.IH [OF longest, of "(0, 0)"] show ?thesis by simp
  qed
qed simp

lemma zeros_at_split:
  assumes "zeros_at gs (st, len)"
  shows "gs = take st gs @ replicate len 0 @ drop (st + len) gs"
proof -
  have "take len (drop st gs) = replicate len 0"
    using assms by (intro nth_equalityI) (auto simp: zeros_at_def)
  then show ?thesis
    by (metis append_take_drop_id drop_drop add.commute)
qed

section \<open>Round trip\<close>

lemma read_ipv6_plain: "length gs = 8 \<Longrightarrow> read_ipv6_addr (show_groups gs) = Some (gs, [])"
  using read_groups_show [of gs 8 "[]" 0 8] by (cases "gs = []") (simp_all add: read_ipv6_addr_def groups_end_def)

lemma read_ipv6_compressed:
  assumes "length pre + len + length post = 8" and "1 < len"
  shows "read_ipv6_addr (show_groups pre @ ''::'' @ show_groups post) = Some (pre @ replicate len 0 @ post, [])"
proof -
  let ?r = "''::'' @ show_groups post" and ?limit = "8 - (length pre + 1)"
  have r: "groups_end ?r" "CHR ''.'' \<notin> set ?r" by (auto simp: groups_end_def show_groups_no_dot)
  have "read_groups 8 0 8 (show_groups pre @ ?r) = (pre, False, ?r)"
    using read_groups_show [OF _ _ r, of pre 8 0 8] read_groups_stop [OF r] assms by (cases "pre = []") auto
  moreover have "read_groups ?limit 0 ?limit (show_groups post) = (post, False, [])"
    using read_groups_show [of post ?limit "[]" 0 ?limit] read_groups_stop [of "[]" ?limit 0 ?limit] assms
    by (cases "post = []") (auto simp: groups_end_def)
  moreover have "8 - length pre - length post = len" "length pre \<noteq> 8" using assms by simp_all
  ultimately show ?thesis by (simp add: read_ipv6_addr_def read_given_char_def)
qed

lemma read_ipv4_show: "read_ipv4_addr (show_ipv4 a b c d) = Some ((a, b, c, d), [])"
  using read_octet_show [where i = 0] read_octet_show [where i = 1]
    read_octet_show [where i = 2] read_octet_show [where i = 3 and rest = "[]"]
  by (simp add: read_ipv4_addr_def show_ipv4_def)

lemma read_ipv6_mapped:
  "read_ipv6_addr (''::ffff:'' @ show_ipv4 a b c d) =
     Some ([0, 0, 0, 0, 0, 0xffff, from_be [a, b], from_be [c, d]], [])"
proof -
  have "read_number 16 4 True 65536 (''ffff:'' @ show_ipv4 a b c d) = Some (65535, '':'' @ show_ipv4 a b c d)"
    by (simp add: read_number_def to_digit_def)
  moreover have "read_ipv4_addr (''ffff:'' @ show_ipv4 a b c d) = None"
    by (simp add: read_ipv4_addr_def read_octet_def read_separator_def read_number_def)
  moreover have "read_ipv4_addr (''::ffff:'' @ show_ipv4 a b c d) = None"
    by (simp add: read_ipv4_addr_def read_octet_def read_separator_def read_number_def)
  moreover have "read_number 16 4 True 65536 (''::ffff:'' @ show_ipv4 a b c d) = None"
    by (simp add: read_number_def)
  moreover have "read_groups (Suc 5) (Suc 0) 7 ('':'' @ show_ipv4 a b c d) =
      ([from_be [a, b], from_be [c, d]], True, [])"
    unfolding read_groups.simps by (simp add: read_separator_def read_given_char_def read_ipv4_show)
  then have "read_groups 6 (Suc 0) 7 (CHR '':'' # show_ipv4 a b c d) =
      ([from_be [a, b], from_be [c, d]], True, [])" by simp
  ultimately have "read_groups (Suc 7) 0 8 (''::ffff:'' @ show_ipv4 a b c d) =
      ([], False, ''::ffff:'' @ show_ipv4 a b c d)"
    "read_groups (Suc 6) 0 7 (''ffff:'' @ show_ipv4 a b c d) =
      ([0xffff, from_be [a, b], from_be [c, d]], True, [])"
    unfolding read_groups.simps by (simp_all add: read_separator_def)
  moreover have "replicate 5 (0 :: u16) = [0, 0, 0, 0, 0]" by (simp add: numeral_eq_Suc)
  ultimately show ?thesis by (simp add: read_ipv6_addr_def read_given_char_def)
qed

definition ip_wf :: "ip_addr \<Rightarrow> bool" where
  "ip_wf ip \<longleftrightarrow> (case ip of V4 a b c d \<Rightarrow> True | V6 gs \<Rightarrow> length gs = 8)"

lemma to_ipv4_mapped_Some:
  assumes "to_ipv4_mapped gs = Some v4"
  obtains a b c d where "v4 = V4 a b c d" "gs = [0, 0, 0, 0, 0, 0xffff, from_be [a, b], from_be [c, d]]"
proof -
  have gs: "take 6 gs = [0, 0, 0, 0, 0, 0xffff]" "length gs = 8"
    using assms by (auto simp: to_ipv4_mapped_def split: if_splits)
  have "length (drop 6 gs) = Suc (Suc 0)" using gs(2) by simp
  then obtain g h where gh: "drop 6 gs = [g, h]" unfolding length_Suc_conv by blast
  have all: "gs = [0, 0, 0, 0, 0, 0xffff, g, h]"
    using append_take_drop_id [of 6 gs] gs(1) gh by simp
  have pair: "\<exists>a b. to_be w = [a, b] \<and> w = from_be [a, b]" for w :: u16
  proof -
    have "length (to_be w) = Suc (Suc 0)" by simp
    then obtain a b where "to_be w = [a, b]" unfolding length_Suc_conv by blast
    moreover from this have "w = from_be [a, b]" using from_be_to_be [of w] by simp
    ultimately show ?thesis by blast
  qed
  from pair [of g] pair [of h] obtain a b c d where
    "to_be g = [a, b]" "g = from_be [a, b]" "to_be h = [c, d]" "h = from_be [c, d]" by blast
  with assms all that [of a b c d] show ?thesis by (simp add: to_ipv4_mapped_def)
qed

lemma read_ipv6_show:
  assumes "length gs = 8"
  shows "read_ipv6_addr (show_ipv6 gs) = Some (gs, []) \<and> read_ipv4_addr (show_ipv6 gs) = None"
proof (cases "to_ipv4_mapped gs")
  case None
  obtain st len where sp: "zero_span gs 0 (0, 0) (0, 0) = (st, len)" by fastforce
  have z: "zeros_at gs (st, len)" using zero_span_zeros [of "[]" "(0, 0)" "(0, 0)" gs] sp by (simp add: zeros_at_def)
  have "CHR ''.'' \<notin> set (show_ipv6 gs)"
    using None sp by (simp add: show_ipv6_def show_groups_no_dot)
  then have "read_ipv4_addr (show_ipv6 gs) = None" by (rule read_ipv4_no_dot)
  moreover have "read_ipv6_addr (show_ipv6 gs) = Some (gs, [])"
  proof (cases "1 < len")
    case True
    have "length (take st gs) + len + length (drop (st + len) gs) = 8"
      using z assms by (auto simp: zeros_at_def)
    from read_ipv6_compressed [OF this True] zeros_at_split [OF z] None sp True show ?thesis
      by (simp add: show_ipv6_def)
  next
    case False
    with None sp read_ipv6_plain [OF assms] show ?thesis by (simp add: show_ipv6_def)
  qed
  ultimately show ?thesis by simp
next
  case (Some v4)
  then obtain a b c d where v: "v4 = V4 a b c d"
    "gs = [0, 0, 0, 0, 0, 0xffff, from_be [a, b], from_be [c, d]]" by (rule to_ipv4_mapped_Some)
  with Some have "show_ipv6 gs = ''::ffff:'' @ show_ipv4 a b c d" by (simp add: show_ipv6_def)
  moreover have "read_ipv4_addr (''::ffff:'' @ show_ipv4 a b c d) = None"
    by (simp add: read_ipv4_addr_def read_octet_def read_separator_def read_number_def)
  ultimately show ?thesis using read_ipv6_mapped [of a b c d] v(2) by simp
qed

lemma parse_show_ip_addr: "ip_wf ip \<Longrightarrow> parse_ip_addr (show_ip_addr ip) = Some ip"
  by (cases ip) (simp_all add: parse_ip_addr_def show_ip_addr_def ip_wf_def read_ipv6_show read_ipv4_show)

lemma ip_wf_canonical: "ip_wf ip \<Longrightarrow> ip_wf (to_canonical ip)"
  by (auto simp: to_canonical_def ip_wf_def split: ip_addr.splits option.splits elim!: to_ipv4_mapped_Some)

end
