(* ===== verification/Control.thy ===== *)
theory Control
  imports Errors Ip_Text
begin

text \<open>
  The control module (\<open>src/control.rs\<close>): protocol constants, parameter validation, the
  IP whitelist, the AGC state and the rate limiter. Instants are integers (nanoseconds of
  the monotonic clock) and durations natural numbers (nanoseconds); the reading of the
  clock is an argument. The parser and the membership test of a CIDR network belong to the
  \<open>ipnet\<close> crate and are arguments too.
\<close>

section \<open>Protocol constants\<close>

definition COMMAND_HEADER_SIZE :: nat where "COMMAND_HEADER_SIZE = 5"
definition CMD_SET_FREQUENCY :: u8 where "CMD_SET_FREQUENCY = 0x01"
definition CMD_SET_SAMPLE_RATE :: u8 where "CMD_SET_SAMPLE_RATE = 0x02"
definition CMD_SET_GAIN_MODE :: u8 where "CMD_SET_GAIN_MODE = 0x03"
definition CMD_SET_TUNER_GAIN :: u8 where "CMD_SET_TUNER_GAIN = 0x04"
definition CMD_SET_PPM :: u8 where "CMD_SET_PPM = 0x05"
definition CMD_SET_AGC :: u8 where "CMD_SET_AGC = 0x08"
definition CMD_CHAIN_DETECT :: u8 where "CMD_CHAIN_DETECT = 0xF0"

lemmas cmd_defs =
  CMD_SET_FREQUENCY_def CMD_SET_SAMPLE_RATE_def CMD_SET_GAIN_MODE_def CMD_SET_TUNER_GAIN_def
  CMD_SET_PPM_def CMD_SET_AGC_def CMD_CHAIN_DETECT_def

definition MAGIC_PACKET :: bytes where
  "MAGIC_PACKET = [0x52, 0x54, 0x4C, 0x30, 0, 0, 0, 5, 0, 0, 0, 0x1d]"

section \<open>Ranges and validation\<close>

definition FREQ_MIN :: u32 where "FREQ_MIN = 0"
definition FREQ_MAX :: u32 where "FREQ_MAX = 2200000000"
definition SAMPLE_RATE_MIN :: u32 where "SAMPLE_RATE_MIN = 0"
definition SAMPLE_RATE_MAX :: u32 where "SAMPLE_RATE_MAX = 3200000"
definition PPM_MIN :: i32 where "PPM_MIN = -200"
definition PPM_MAX :: i32 where "PPM_MAX = 200"
definition TUNER_GAIN_MIN :: i32 where "TUNER_GAIN_MIN = 0"
definition TUNER_GAIN_MAX :: i32 where "TUNER_GAIN_MAX = 500"

lemmas range_defs =
  FREQ_MIN_def FREQ_MAX_def SAMPLE_RATE_MIN_def SAMPLE_RATE_MAX_def
  PPM_MIN_def PPM_MAX_def TUNER_GAIN_MIN_def TUNER_GAIN_MAX_def

text \<open>\<open>RangeInclusive::contains\<close> on unsigned and on signed integers.\<close>

definition FREQ_RANGE :: "u32 \<Rightarrow> bool" where
  "FREQ_RANGE x \<longleftrightarrow> FREQ_MIN \<le> x \<and> x \<le> FREQ_MAX"

definition SAMPLE_RATE_RANGE :: "u32 \<Rightarrow> bool" where
  "SAMPLE_RATE_RANGE x \<longleftrightarrow> SAMPLE_RATE_MIN \<le> x \<and> x \<le> SAMPLE_RATE_MAX"

definition PPM_RANGE :: "i32 \<Rightarrow> bool" where
  "PPM_RANGE x \<longleftrightarrow> sint PPM_MIN \<le> sint x \<and> sint x \<le> sint PPM_MAX"

definition TUNER_GAIN_RANGE :: "i32 \<Rightarrow> bool" where
  "TUNER_GAIN_RANGE x \<longleftrightarrow> sint TUNER_GAIN_MIN \<le> sint x \<and> sint x \<le> sint TUNER_GAIN_MAX"

definition validate_frequency :: "u32 \<Rightarrow> string + unit" where
  "validate_frequency freq =
     (if \<not> FREQ_RANGE freq
      then Inl (''frequency '' @ show_u32 freq @ '' Hz out of range ('' @ show_u32 FREQ_MIN @
                ''-'' @ show_u32 FREQ_MAX @ '')'')
      else Inr ())"

definition validate_sample_rate :: "u32 \<Rightarrow> string + unit" where
  "validate_sample_rate rate =
     (if \<not> SAMPLE_RATE_RANGE rate
      then Inl (''sample rate '' @ show_u32 rate @ '' Hz out of range ('' @
                show_u32 SAMPLE_RATE_MIN @ ''-'' @ show_u32 SAMPLE_RATE_MAX @ '')'')
      else Inr ())"

definition validate_ppm :: "i32 \<Rightarrow> string + unit" where
  "validate_ppm ppm =
     (if \<not> PPM_RANGE ppm
      then Inl (''ppm '' @ show_i32 ppm @ '' out of range ('' @ show_i32 PPM_MIN @ ''-'' @
                show_i32 PPM_MAX @ '')'')
      else Inr ())"

definition validate_tuner_gain :: "i32 \<Rightarrow> string + unit" where
  "validate_tuner_gain gain =
     (if \<not> TUNER_GAIN_RANGE gain
      then Inl (''tuner gain '' @ show_i32 gain @ '' out of range ('' @
                show_i32 TUNER_GAIN_MIN @ ''-'' @ show_i32 TUNER_GAIN_MAX @ '')'')
      else Inr ())"

section \<open>Mutexes\<close>

text \<open>
  A mutex as its data and the poison flag; \<open>with_control\<close> runs the operation on the
  data unless the mutex is poisoned. The second component of the result says whether the
  poisoning was reported.
\<close>

record 'a mutex =
  m_data :: 'a
  m_poisoned :: bool

definition with_control :: "'a mutex \<Rightarrow> ('a \<Rightarrow> 'a) \<Rightarrow> 'a mutex \<times> bool" where
  "with_control ctl op =
     (if m_poisoned ctl then (ctl, True) else (ctl\<lparr>m_data := op (m_data ctl)\<rparr>, False))"

section \<open>The whitelist\<close>

fun whitelist_scan ::
  "(string \<Rightarrow> 'e + 'n) \<Rightarrow> ('n \<Rightarrow> ip_addr \<Rightarrow> bool) \<Rightarrow> ip_addr \<Rightarrow> string list \<Rightarrow> bool" where
  "whitelist_scan parse_net net_contains ip [] = False"
| "whitelist_scan parse_net net_contains ip (cidr # rest) =
     (case parse_net cidr of
        Inr network \<Rightarrow>
          if net_contains network ip then True
          else whitelist_scan parse_net net_contains ip rest
      | Inl e \<Rightarrow> whitelist_scan parse_net net_contains ip rest)"

definition is_ip_in_whitelist ::
  "(string \<Rightarrow> 'e + 'n) \<Rightarrow> ('n \<Rightarrow> ip_addr \<Rightarrow> bool) \<Rightarrow> string \<Rightarrow> string list \<Rightarrow> bool" where
  "is_ip_in_whitelist parse_net net_contains client_ip whitelist =
     (case parse_ip_addr client_ip of
        Some ip \<Rightarrow> whitelist_scan parse_net net_contains (to_canonical ip) whitelist
      | None \<Rightarrow> False)"

definition check_whitelist ::
  "(string \<Rightarrow> 'e + 'n) \<Rightarrow> ('n \<Rightarrow> ip_addr \<Rightarrow> bool) \<Rightarrow> string \<Rightarrow> string list \<Rightarrow>
   rtl_tcp_error + unit" where
  "check_whitelist parse_net net_contains client_ip whitelist =
     (if whitelist = [] then Inr ()
      else if is_ip_in_whitelist parse_net net_contains client_ip whitelist then Inr ()
      else Inl (Network ''connection rejected: IP not in whitelist''))"

section \<open>AGC state\<close>

record agc_state =
  enabled :: bool

definition agc_default :: agc_state where
  "agc_default = \<lparr>enabled = True\<rparr>"

definition agc_new :: agc_state where
  "agc_new = agc_default"

definition agc_enable :: "agc_state \<Rightarrow> bool \<times> agc_state" where
  "agc_enable st = (\<not> enabled st, st\<lparr>enabled := True\<rparr>)"

definition agc_disable :: "agc_state \<Rightarrow> bool \<times> agc_state" where
  "agc_disable st = (enabled st, st\<lparr>enabled := False\<rparr>)"

section \<open>Rate limiter\<close>

type_synonym instant = int
type_synonym duration = nat

record rate_limiter =
  last_command :: instant
  min_interval :: duration

definition COMMAND_RATE_LIMIT_INTERVAL :: duration where
  "COMMAND_RATE_LIMIT_INTERVAL = 50 * 10 ^ 6"

text \<open>
  \<open>Instant::checked_sub\<close> fails only below the range of the clock's representation (a
  signed 64-bit count of seconds).
\<close>

definition instant_checked_sub :: "instant \<Rightarrow> duration \<Rightarrow> instant option" where
  "instant_checked_sub t d =
     (if - (2 ^ 63 * 10 ^ 9) \<le> t - int d then Some (t - int d) else None)"

definition saturating_duration_since :: "instant \<Rightarrow> instant \<Rightarrow> duration" where
  "saturating_duration_since now earlier = nat (now - earlier)"

text \<open>\<open>now\<close> and \<open>now'\<close> are the two readings of the clock the constructor makes.\<close>

definition rate_limiter_new :: "instant \<Rightarrow> instant \<Rightarrow> duration \<Rightarrow> rate_limiter" where
  "rate_limiter_new now now' interval =
     \<lparr>last_command = (case instant_checked_sub now interval of Some t \<Rightarrow> t | None \<Rightarrow> now'),
      min_interval = interval\<rparr>"

definition rate_limiter_check :: "instant \<Rightarrow> rate_limiter \<Rightarrow> bool \<times> rate_limiter" where
  "rate_limiter_check now rl =
     (let elapsed = saturating_duration_since now (last_command rl)
      in if min_interval rl \<le> elapsed then (True, rl\<lparr>last_command := now\<rparr>) else (False, rl))"

text \<open>The clock readings at which a sequence of checks was allowed.\<close>

fun allowed_times :: "rate_limiter \<Rightarrow> instant list \<Rightarrow> instant list" where
  "allowed_times rl [] = []"
| "allowed_times rl (now # rest) =
     (case rate_limiter_check now rl of
        (True, rl') \<Rightarrow> now # allowed_times rl' rest
      | (False, rl') \<Rightarrow> allowed_times rl' rest)"

section \<open>Laws of validation\<close>

lemma validate_frequency_ok_iff: "validate_frequency f = Inr () \<longleftrightarrow> unat f \<le> 2200000000"
  by (simp add: validate_frequency_def FREQ_RANGE_def range_defs word_le_nat_alt)

lemma validate_sample_rate_ok_iff: "validate_sample_rate r = Inr () \<longleftrightarrow> unat r \<le> 3200000"
  by (simp add: validate_sample_rate_def SAMPLE_RATE_RANGE_def range_defs word_le_nat_alt)

lemma validate_ppm_ok_iff: "validate_ppm p = Inr () \<longleftrightarrow> - 200 \<le> sint p \<and> sint p \<le> 200"
  by (simp add: validate_ppm_def PPM_RANGE_def range_defs)

lemma validate_tuner_gain_ok_iff: "validate_tuner_gain g = Inr () \<longleftrightarrow> 0 \<le> sint g \<and> sint g \<le> 500"
  by (simp add: validate_tuner_gain_def TUNER_GAIN_RANGE_def range_defs)

lemmas validate_ok_iff =
  validate_frequency_ok_iff validate_sample_rate_ok_iff validate_ppm_ok_iff
  validate_tuner_gain_ok_iff

lemma validate_errD:
  "validate_frequency f = Inl e \<Longrightarrow> \<not> unat f \<le> 2200000000"
  "validate_sample_rate f = Inl e \<Longrightarrow> \<not> unat f \<le> 3200000"
  "validate_ppm f = Inl e \<Longrightarrow> \<not> (- 200 \<le> sint f \<and> sint f \<le> 200)"
  "validate_tuner_gain f = Inl e \<Longrightarrow> \<not> (0 \<le> sint f \<and> sint f \<le> 500)"
  by (metis sum.distinct(1) validate_ok_iff(1), metis sum.distinct(1) validate_ok_iff(2),
      metis sum.distinct(1) validate_ok_iff(3), metis sum.distinct(1) validate_ok_iff(4))

section \<open>Laws of the whitelist\<close>

lemma whitelist_scan_iff:
  "whitelist_scan p c ip ws \<longleftrightarrow> (\<exists>cidr \<in> set ws. \<exists>network. p cidr = Inr network \<and> c network ip)"
  by (induction ws) (auto split: sum.splits)

lemma is_ip_in_whitelist_iff:
  "is_ip_in_whitelist p c s ws \<longleftrightarrow>
     (\<exists>ip cidr network. parse_ip_addr s = Some ip \<and> cidr \<in> set ws \<and> p cidr = Inr network \<and>
        c network (to_canonical ip))"
  by (auto simp: is_ip_in_whitelist_def whitelist_scan_iff split: option.splits)

lemma check_whitelist_cases:
  "check_whitelist p c s ws = Inr () \<and> (ws = [] \<or> is_ip_in_whitelist p c s ws) \<or>
   check_whitelist p c s ws = Inl (Network ''connection rejected: IP not in whitelist'') \<and>
     ws \<noteq> [] \<and> \<not> is_ip_in_whitelist p c s ws"
  by (auto simp: check_whitelist_def)

section \<open>Laws of the rate limiter\<close>

lemma min_interval_check [simp]: "min_interval (snd (rate_limiter_check now rl)) = min_interval rl"
  by (simp add: rate_limiter_check_def Let_def)

lemma rate_limiter_check_True:
  "rate_limiter_check now rl = (True, rl') \<longleftrightarrow>
     int (min_interval rl) \<le> max 0 (now - last_command rl) \<and> rl' = rl\<lparr>last_command := now\<rparr>"
  by (auto simp: rate_limiter_check_def saturating_duration_since_def Let_def)

lemma rate_limiter_check_False:
  "rate_limiter_check now rl = (False, rl') \<longleftrightarrow>
     max 0 (now - last_command rl) < int (min_interval rl) \<and> rl' = rl"
  by (auto simp: rate_limiter_check_def saturating_duration_since_def Let_def)

text \<open>
  The allowed readings are spaced by the interval, starting from the last command the
  limiter had recorded.
\<close>

lemma allowed_times_spaced:
  assumes "0 < min_interval rl"
  shows "sorted_wrt (\<lambda>a b. a + int (min_interval rl) \<le> b) (last_command rl # allowed_times rl ts)"
  using assms
proof (induction ts arbitrary: rl)
  case Nil
  then show ?case by simp
next
  case (Cons t ts)
  obtain ok rl' where step: "rate_limiter_check t rl = (ok, rl')"
    by (cases "rate_limiter_check t rl")
  show ?case
  proof (cases ok)
    case True
    with step have t: "last_command rl + int (min_interval rl) \<le> t"
      and rl': "rl' = rl\<lparr>last_command := t\<rparr>"
      using Cons.prems by (auto simp: rate_limiter_check_True)
    with Cons.IH [of rl'] Cons.prems
    have "sorted_wrt (\<lambda>a b. a + int (min_interval rl) \<le> b) (t # allowed_times rl' ts)"
      by simp
    with t True step show ?thesis by fastforce
  next
    case False
    with step have "rl' = rl" by (simp add: rate_limiter_check_False)
    with False step Cons show ?thesis by simp
  qed
qed

lemma spaced_length:
  assumes "sorted_wrt (\<lambda>a b. a + d \<le> b) (t # ts)" and "0 \<le> d"
  shows "t + int (length ts) * d \<le> last (t # ts)"
  using assms
proof (induction ts arbitrary: t)
  case Nil
  then show ?case by simp
next
  case (Cons u ts)
  from Cons.prems have "t + d \<le> u" by simp
  moreover have "u + int (length ts) * d \<le> last (u # ts)"
    using Cons by simp
  ultimately show ?case by (simp add: algebra_simps)
qed

section \<open>Properties\<close>

text \<open>
  Commands let through by the rate limiter are spaced by at least its interval, whatever
  clock readings the checks are made at, so a run of checks lets through at most one command
  more than the number of intervals between the first and the last of them.
\<close>

lemma rate_limiter_flood_bound:
  assumes "0 < min_interval rl" and "allowed_times rl ts = t # us"
  shows "sorted_wrt (\<lambda>a b. a + int (min_interval rl) \<le> b) (t # us) \<and>
    int (length us) * int (min_interval rl) \<le> last (t # us) - t"
proof -
  have spaced: "sorted_wrt (\<lambda>a b. a + int (min_interval rl) \<le> b) (t # us)"
    using allowed_times_spaced [OF assms(1), of ts] assms(2) by simp
  from spaced_length [OF spaced] show ?thesis using spaced by simp
qed

text \<open>
  A fresh rate limiter lets the first command through at once, unless its interval
  reaches back before the range of the clock.
\<close>

lemma rate_limiter_new_allows_first:
  assumes "instant_checked_sub t interval \<noteq> None" and "t \<le> now"
  shows "rate_limiter_check now (rate_limiter_new t t' interval) =
    (True, \<lparr>last_command = now, min_interval = interval\<rparr>)"
  using assms
  by (auto simp: rate_limiter_check_def rate_limiter_new_def saturating_duration_since_def
      Let_def instant_checked_sub_def split: if_splits)

lemma whitelist_ipv4:
  "(check_whitelist parse_net net_contains (show_ip_addr (to_canonical (V4 a b c d))) ws = Inr () \<longleftrightarrow>
      ws = [] \<or> (\<exists>cidr network. cidr \<in> set ws \<and> parse_net cidr = Inr network \<and>
        net_contains network (V4 a b c d))) \<and>
   check_whitelist parse_net net_contains (show_ip_addr (to_canonical (ipv4_mapped a b c d))) ws =
     check_whitelist parse_net net_contains (show_ip_addr (to_canonical (V4 a b c d))) ws"
  by (auto simp: check_whitelist_def is_ip_in_whitelist_iff)

text \<open>
  C29. A client is admitted exactly when there is no whitelist or the canonical form of its
  address is in one of the networks listed: printing the address of a client and parsing it
  again, as the servers do, loses nothing of any IPv4 or IPv6 address, and an IPv4 client
  that appears as an IPv4-mapped address on an IPv6 socket is judged by its IPv4 address.
  Entries that are not valid networks never admit anybody. The network type is the
  \<open>ipnet\<close> crate's, an argument.
\<close>

theorem whitelist_admits:
  assumes "ip_wf ip"
  shows "(check_whitelist parse_net net_contains (show_ip_addr (to_canonical ip)) ws = Inr () \<longleftrightarrow>
      ws = [] \<or> (\<exists>cidr network. cidr \<in> set ws \<and> parse_net cidr = Inr network \<and>
        net_contains network (to_canonical ip))) \<and>
    (ip = ipv4_mapped a b c d \<longrightarrow> to_canonical ip = V4 a b c d)"
  using parse_show_ip_addr [OF ip_wf_canonical [OF assms]]
  by (auto simp: check_whitelist_def is_ip_in_whitelist_iff)

theorem whitelist_admits_witness:
  "check_whitelist (\<lambda>s. if s = ''2001:db8::/32'' then Inr [0x2001, 0xdb8] else Inl ())
     (\<lambda>net ip. case ip of V4 a b c d \<Rightarrow> False | V6 gs \<Rightarrow> take 2 gs = net)
     (show_ip_addr (to_canonical (V6 [0x2001, 0xdb8, 0, 0, 0, 0, 0, 1]))) [''2001:db8::/32''] = Inr ()"
proof -
  have "ip_wf (V6 [0x2001, 0xdb8, 0, 0, 0, 0, 0, 1])" by (simp add: ip_wf_def)
  moreover have "to_canonical (V6 [0x2001, 0xdb8, 0, 0, 0, 0, 0, 1]) = V6 [0x2001, 0xdb8, 0, 0, 0, 0, 0, 1]"
    by (simp add: to_canonical_def to_ipv4_mapped_def)
  ultimately show ?thesis
    using whitelist_admits [of "V6 [0x2001, 0xdb8, 0, 0, 0, 0, 0, 1]"
        "\<lambda>s. if s = ''2001:db8::/32'' then Inr [0x2001, 0xdb8] else Inl ()"
        "\<lambda>net ip. case ip of V4 a b c d \<Rightarrow> False | V6 gs \<Rightarrow> take 2 gs = net" "[''2001:db8::/32'']"]
    by simp
qed

end
