(* ===== verification/Replay.thy ===== *)
theory Replay
  imports Capture Control Loops
begin

text \<open>
  The \<open>rtltcp-replay\<close> binary (\<open>src/bin/replay.rs\<close>): it serves a capture file to one
  client, with the recorded pauses between chunks, once or in a loop, while a second thread
  logs the commands the client sends.
\<close>

section \<open>Playing the chunks\<close>

text \<open>
  \<open>scale_delay\<close> is the floating-point conversion \<open>(delta as f64 / speed) as u64\<close>,
  and \<open>speed_positive\<close> the test \<open>speed > 0.0\<close>. \<open>overflow_checks\<close> tells a build
  in which \<open>-\<close> on \<open>u64\<close> panics on underflow (the default for debug builds) from one in which it
  wraps (release).
\<close>

record replay_args =
  speed_positive :: bool
  scale_delay :: "u64 \<Rightarrow> u64"
  loop_mode :: bool
  overflow_checks :: bool

record replay_state =
  rep_file :: fs_file
  rep_client :: tcp
  prev_timestamp :: "u64 option"
  sleeps :: "u64 list"
  panicked :: bool

definition HEADER_FIXED_SIZE :: nat where
  "HEADER_FIXED_SIZE = 12"

text \<open>The pause before a chunk; \<open>None\<close> when the subtraction panics.\<close>

definition pace :: "replay_args \<Rightarrow> u64 \<Rightarrow> replay_state \<Rightarrow> replay_state option" where
  "pace args ts s =
     (if speed_positive args then
        (case prev_timestamp s of
           None \<Rightarrow> Some (s\<lparr>prev_timestamp := Some ts\<rparr>)
         | Some prev \<Rightarrow>
             if overflow_checks args \<and> ts < prev then None
             else (let delta_ns = scale_delay args (ts - prev);
                       s' = (if 0 < delta_ns then s\<lparr>sleeps := sleeps s @ [delta_ns]\<rparr> else s)
                   in Some (s'\<lparr>prev_timestamp := Some ts\<rparr>)))
      else Some s)"

text \<open>One round of the main loop, given the value of \<open>client_quit\<close> it loads.\<close>

definition replay_round ::
  "replay_args \<Rightarrow> nat \<Rightarrow> bool \<Rightarrow> replay_state \<Rightarrow> (flow \<times> replay_state) option" where
  "replay_round args first_chunk_offset quit s0 =
     (case read_chunk file_read (rep_file s0) of
        None \<Rightarrow> None
      | Some (Inl e, f) \<Rightarrow> Some (Break, s0\<lparr>rep_file := f\<rparr>)
      | Some (Inr None, f) \<Rightarrow>
          if loop_mode args then
            (case file_seek_start first_chunk_offset f of
               None \<Rightarrow> None
             | Some (Inl e, f') \<Rightarrow> Some (Break, s0\<lparr>rep_file := f'\<rparr>)
             | Some (Inr _, f') \<Rightarrow>
                 Some (Continue, s0\<lparr>rep_file := f', prev_timestamp := None\<rparr>))
          else Some (Break, s0\<lparr>rep_file := f\<rparr>)
      | Some (Inr (Some chunk), f) \<Rightarrow>
          let s = s0\<lparr>rep_file := f\<rparr>
          in if quit then Some (Break, s)
             else (case pace args (timestamp_ns chunk) s of
                     None \<Rightarrow> Some (Break, s\<lparr>panicked := True\<rparr>)
                   | Some s' \<Rightarrow>
                       (case tcp_write_all (chunk_data chunk) (rep_client s') of
                          (Inl e, c) \<Rightarrow> Some (Break, s'\<lparr>rep_client := c\<rparr>)
                        | (Inr _, c) \<Rightarrow> Some (Continue, s'\<lparr>rep_client := c\<rparr>))))"

fun replay_loop ::
  "replay_args \<Rightarrow> nat \<Rightarrow> bool list \<Rightarrow> replay_state \<Rightarrow> (flow \<times> replay_state) option" where
  "replay_loop args off [] s = Some (Continue, s)"
| "replay_loop args off (q # qs) s =
     (case replay_round args off q s of
        None \<Rightarrow> None
      | Some (Break, s') \<Rightarrow> Some (Break, s')
      | Some (Continue, s') \<Rightarrow> replay_loop args off qs s')"

section \<open>Logging the client's commands\<close>

text \<open>
  \<open>hex_encode\<close> is the \<open>hex\<close> crate's encoder. The thread keeps its half of the
  socket and what it logged.
\<close>

record cmd_state =
  cmd_stream :: tcp
  cmd_log :: "string list"

definition describe_command :: "(bytes \<Rightarrow> string) \<Rightarrow> bytes \<Rightarrow> string" where
  "describe_command hex_encode buf =
     (let cmd = buf ! 0;
          payload_hex = hex_encode (drop 1 buf);
          payload = [buf ! 1, buf ! 2, buf ! 3, buf ! 4]
      in if cmd = CMD_SET_FREQUENCY then
           ''client command: SET_FREQUENCY freq='' @ show_u32 (from_be payload)
         else if cmd = CMD_SET_SAMPLE_RATE then
           ''client command: SET_SAMPLE_RATE rate='' @ show_u32 (from_be payload)
         else if cmd = CMD_SET_GAIN_MODE then
           ''client command: SET_GAIN_MODE mode='' @ show_i32 (from_be payload)
         else if cmd = CMD_SET_TUNER_GAIN then
           ''client command: SET_TUNER_GAIN gain='' @ show_i32 (from_be payload)
         else if cmd = CMD_SET_PPM then
           ''client command: SET_PPM ppm='' @ show_i32 (from_be payload)
         else if cmd = CMD_SET_AGC then
           ''client command: SET_AGC agc='' @ show_u32 (from_be payload)
         else if cmd = CMD_CHAIN_DETECT then ''client command: CHAIN_DETECT''
         else ''client command: UNKNOWN payload='' @ payload_hex)"

definition replay_is_disconnect_err :: "io_error \<Rightarrow> bool" where
  "replay_is_disconnect_err e \<longleftrightarrow>
     err_kind e \<in> {UnexpectedEof, ConnectionReset, BrokenPipe, ConnectionAborted, NotConnected}"

definition cmd_round :: "(bytes \<Rightarrow> string) \<Rightarrow> bool \<Rightarrow> cmd_state \<Rightarrow> flow \<times> cmd_state" where
  "cmd_round hex_encode reader_quit s0 =
     (case tcp_read_exact COMMAND_HEADER_SIZE (cmd_stream s0) of
        (res, st) \<Rightarrow>
          let s = s0\<lparr>cmd_stream := st\<rparr>
          in case res of
               Inr buf \<Rightarrow> (Continue, s\<lparr>cmd_log := cmd_log s @ [describe_command hex_encode buf]\<rparr>)
             | Inl e \<Rightarrow>
                 if replay_is_disconnect_err e then (Break, s)
                 else if err_kind e = TimedOut \<or> err_kind e = WouldBlock then
                   (if reader_quit then (Break, s) else (Continue, s))
                 else (Break, s))"

fun cmd_loop :: "(bytes \<Rightarrow> string) \<Rightarrow> bool list \<Rightarrow> cmd_state \<Rightarrow> flow \<times> cmd_state" where
  "cmd_loop hex_encode [] s = (Continue, s)"
| "cmd_loop hex_encode (q # qs) s =
     (case cmd_round hex_encode q s of
        (Break, s') \<Rightarrow> (Break, s')
      | (Continue, s') \<Rightarrow> cmd_loop hex_encode qs s')"

section \<open>The program\<close>

text \<open>
  The main function, given what opening the file, binding, accepting and cloning return,
  how many rounds the main loop is followed for and what the command thread's rounds load
  from \<open>client_quit\<close>. The main loop only ever loads \<open>False\<close>: nothing but its own
  end stores \<open>True\<close>. \<open>Inl\<close> is the exit code of an early failure.
\<close>

definition replay_main ::
  "replay_args \<Rightarrow> (bytes \<Rightarrow> string) \<Rightarrow> (io_error + fs_file) \<Rightarrow> (io_error + unit) \<Rightarrow> (io_error + tcp) \<Rightarrow>
   (io_error + unit) \<Rightarrow> nat \<Rightarrow> bool list \<Rightarrow>
   (nat + (flow \<times> replay_state) \<times> (flow \<times> cmd_state)) option" where
  "replay_main args hex_encode opened bound accepted cloned rounds reader_quits =
     (case opened of
        Inl e \<Rightarrow> Some (Inl 1)
      | Inr f0 \<Rightarrow>
          (case read_header file_read f0 of
             None \<Rightarrow> None
           | Some (Inl e, _) \<Rightarrow> Some (Inl 1)
           | Some (Inr header, f1) \<Rightarrow>
               let first_chunk_offset =
                 (case file_stream_position f1 of
                    Some (Inr p, _) \<Rightarrow> p
                  | _ \<Rightarrow> HEADER_FIXED_SIZE + length (magic_payload header))
               in case bound of
                    Inl e \<Rightarrow> Some (Inl 1)
                  | Inr _ \<Rightarrow>
                      (case accepted of
                         Inl e \<Rightarrow> Some (Inl 1)
                       | Inr client \<Rightarrow>
                           (case tcp_write_all (magic_payload header) client of
                              (Inl e, _) \<Rightarrow> Some (Inl 1)
                            | (Inr _, client') \<Rightarrow>
                                (case cloned of
                                   Inl e \<Rightarrow> Some (Inl 1)
                                 | Inr _ \<Rightarrow>
                                     (case replay_loop args first_chunk_offset
                                             (replicate rounds False)
                                             \<lparr>rep_file = f1, rep_client = client',
                                              prev_timestamp = None, sleeps = [],
                                              panicked = False\<rparr> of
                                        None \<Rightarrow> None
                                      | Some r \<Rightarrow>
                                          Some (Inr (r, cmd_loop hex_encode reader_quits
                                            \<lparr>cmd_stream = snd (set_read_timeout 200 client'),
                                             cmd_log = []\<rparr>)))))))) "

section \<open>The loops end\<close>

lemma pace_frame:
  assumes "pace args ts s = Some s'"
  shows "rep_file s' = rep_file s" "rep_client s' = rep_client s"
  using assms by (auto simp: pace_def Let_def split: option.splits if_splits)

lemma replay_round_total: "replay_round args off q s \<noteq> None"
proof -
  obtain r f where "read_chunk file_read (rep_file s) = Some (r, f)"
    using file_rd.read_chunk_total by fastforce
  then show ?thesis
    by (auto simp: replay_round_def Let_def file_seek_start_def io_simps
        split: sum.splits option.splits prod.splits)
qed

lemma replay_round_progress:
  assumes "replay_round args off q s = Some (Continue, s')" and "\<not> loop_mode args"
  shows "length (unread (rep_file s')) < length (unread (rep_file s))"
proof -
  obtain r f where rf: "read_chunk file_read (rep_file s) = Some (r, f)"
    using file_rd.read_chunk_total by fastforce
  from assms rf obtain c where c: "r = Inr (Some c)" "rep_file s' = f"
    by (auto simp: replay_round_def Let_def dest: pace_frame
        split: sum.splits option.splits prod.splits if_splits)
  from file_rd.read_chunk_progress [of "rep_file s" c f] rf c show ?thesis by simp
qed

text \<open>Without loop mode the file bounds the number of rounds.\<close>

interpretation replay_thread: thread_loop
  "replay_round (args\<lparr>loop_mode := False\<rparr>) off" "\<lambda>s. s" "replay_loop (args\<lparr>loop_mode := False\<rparr>) off"
  "\<lambda>s. length (unread (rep_file s))" for args off
  by unfold_locales
    (auto simp: replay_round_total replay_round_progress simp del: not_None_eq
      split: option.splits flow.splits prod.splits)

lemma cmd_round_progress:
  assumes "cmd_round h q s = (Continue, s')"
  shows "script_size (rx (cmd_stream s')) < script_size (rx (cmd_stream s))"
proof -
  obtain res st where st: "tcp_read_exact COMMAND_HEADER_SIZE (cmd_stream s) = (res, st)"
    by (cases "tcp_read_exact COMMAND_HEADER_SIZE (cmd_stream s)")
  have "res \<noteq> Inl READ_EXACT_EOF"
    using assms st
    by (auto simp: cmd_round_def Let_def READ_EXACT_EOF_def replay_is_disconnect_err_def)
  with tcp_read_exact_progress [OF st] have "script_size (rx st) < script_size (rx (cmd_stream s))"
    by (simp add: COMMAND_HEADER_SIZE_def)
  with assms st show ?thesis
    by (auto simp: cmd_round_def Let_def split: sum.splits if_splits)
qed

interpretation cmd_thread: thread_loop
  "\<lambda>q s. Some (cmd_round h q s)" "\<lambda>s. s" "\<lambda>qs s. Some (cmd_loop h qs s)"
  "\<lambda>s. script_size (rx (cmd_stream s))" for h
  by unfold_locales (auto simp: cmd_round_progress split: flow.splits prod.splits)

section \<open>What the client receives\<close>

text \<open>The pauses between the chunks of a capture, from the stamp of the chunk before.\<close>

definition pause :: "replay_args \<Rightarrow> u64 option \<Rightarrow> u64 \<Rightarrow> u64 list" where
  "pause args prev ts =
     (case prev of
        None \<Rightarrow> []
      | Some p \<Rightarrow> if 0 < scale_delay args (ts - p) then [scale_delay args (ts - p)] else [])"

fun pauses :: "replay_args \<Rightarrow> u64 option \<Rightarrow> u64 list \<Rightarrow> u64 list" where
  "pauses args prev [] = []"
| "pauses args prev (t # ts) = pause args prev t @ pauses args (Some t) ts"

text \<open>No stamp is smaller than the one before it.\<close>

fun in_order :: "u64 option \<Rightarrow> u64 list \<Rightarrow> bool" where
  "in_order prev [] = True"
| "in_order prev (t # ts) =
     ((case prev of None \<Rightarrow> True | Some p \<Rightarrow> p \<le> t) \<and> in_order (Some t) ts)"

text \<open>The state after some chunks have been played.\<close>

definition played :: "replay_args \<Rightarrow> capture_chunk list \<Rightarrow> replay_state \<Rightarrow> replay_state" where
  "played args cs s =
     s\<lparr>rep_file := (rep_file s)\<lparr>f_pos := f_pos (rep_file s) + length (concat (map encode_chunk cs))\<rparr>,
       rep_client := (rep_client s)\<lparr>tx := tx (rep_client s) @ concat (map chunk_data cs)\<rparr>,
       prev_timestamp := (if speed_positive args \<and> cs \<noteq> [] then Some (timestamp_ns (last cs))
                          else prev_timestamp s),
       sleeps := sleeps s @ (if speed_positive args
                             then pauses args (prev_timestamp s) (map timestamp_ns cs) else [])\<rparr>"

lemma played_Nil [simp]: "played args [] s = s"
  by (simp add: played_def)

lemma played_Cons: "played args (c # cs) s = played args cs (played args [c] s)"
  by (auto simp: played_def add.assoc)

lemma played_simps [simp]:
  "unread (rep_file (played args cs s)) = drop (length (concat (map encode_chunk cs))) (unread (rep_file s))"
  "f_data (rep_file (played args cs s)) = f_data (rep_file s)"
  "f_script (rep_file (played args cs s)) = f_script (rep_file s)"
  "tx_script (rep_client (played args cs s)) = tx_script (rep_client s)"
  "tx (rep_client (played args cs s)) = tx (rep_client s) @ concat (map chunk_data cs)"
  by (simp_all add: played_def)

lemma pace_ok:
  assumes "overflow_checks args \<and> speed_positive args \<longrightarrow> in_order (prev_timestamp s) [ts]"
  shows "pace args ts s =
    Some (s\<lparr>prev_timestamp := (if speed_positive args then Some ts else prev_timestamp s),
            sleeps := sleeps s @ (if speed_positive args then pause args (prev_timestamp s) ts else [])\<rparr>)"
  using assms by (auto simp: pace_def pause_def Let_def split: option.splits)

lemma replay_round_chunk:
  assumes "unread (rep_file s) = encode_chunk c @ rest" and "chunk_fits c"
    and "tx_script (rep_client s) = []"
    and "overflow_checks args \<and> speed_positive args \<longrightarrow> in_order (prev_timestamp s) [timestamp_ns c]"
  shows "replay_round args off False s = Some (Continue, played args [c] s)"
proof -
  let ?f = "(rep_file s)\<lparr>f_pos := f_pos (rep_file s) + length (encode_chunk c)\<rparr>"
  have "pace args (timestamp_ns c) (s\<lparr>rep_file := ?f\<rparr>) =
    Some (s\<lparr>rep_file := ?f,
            prev_timestamp := (if speed_positive args then Some (timestamp_ns c) else prev_timestamp s),
            sleeps := sleeps s @ (if speed_positive args then pause args (prev_timestamp s) (timestamp_ns c) else [])\<rparr>)"
    using pace_ok [of args "s\<lparr>rep_file := ?f\<rparr>" "timestamp_ns c"] assms(4) by simp
  with read_chunk_file [OF assms(1,2)] assms(3) show ?thesis
    by (simp add: replay_round_def Let_def played_def)
qed

lemma replay_loop_chunks:
  assumes "unread (rep_file s) = concat (map encode_chunk cs) @ rest" and "list_all chunk_fits cs"
    and "tx_script (rep_client s) = []"
    and "overflow_checks args \<and> speed_positive args \<longrightarrow> in_order (prev_timestamp s) (map timestamp_ns cs)"
  shows "replay_loop args off (replicate (length cs) False @ qs) s =
    replay_loop args off qs (played args cs s)"
  using assms
proof (induction cs arbitrary: s)
  case (Cons c cs)
  have "replay_round args off False s = Some (Continue, played args [c] s)"
    using Cons.prems by (intro replay_round_chunk [where rest = "concat (map encode_chunk cs) @ rest"]) auto
  moreover have "replay_loop args off (replicate (length cs) False @ qs) (played args [c] s) =
      replay_loop args off qs (played args cs (played args [c] s))"
    using Cons.prems by (intro Cons.IH) (auto simp: played_def)
  ultimately show ?case by (simp add: played_Cons [of args c cs])
qed simp

text \<open>
  At the end of the complete chunks, be it the end of the file or the middle of a chunk, the
  program stops, or starts over when it loops and less than a stamp is left.
\<close>

lemma replay_round_end:
  assumes "unread (rep_file s) = take n (encode_chunk c)" and "n < length (encode_chunk c)"
    and "chunk_fits c" and "\<not> loop_mode args"
  shows "\<exists>p. replay_round args off q s = Some (Break, s\<lparr>rep_file := (rep_file s)\<lparr>f_pos := p\<rparr>\<rparr>)"
proof (cases "n < 8")
  case True
  with assms read_chunk_file_end [of "rep_file s"] show ?thesis
    by (auto simp: replay_round_def)
next
  case False
  with assms read_chunk_file_truncated [of "rep_file s" n c] show ?thesis
    by (auto simp: replay_round_def)
qed

lemma replay_round_rewind:
  assumes "unread (rep_file s) = []" and "loop_mode args"
  shows "replay_round args off q s =
    Some (Continue, s\<lparr>rep_file := (rep_file s)\<lparr>f_pos := off\<rparr>, prev_timestamp := None\<rparr>)"
  using assms read_chunk_file_end [of "rep_file s"]
  by (simp add: replay_round_def file_seek_start_def io_simps)

lemma replay_loop_once:
  assumes "unread (rep_file s) = concat (map encode_chunk cs) @ take m (encode_chunk c)"
    and "m < length (encode_chunk c)" and "list_all chunk_fits (c # cs)"
    and "tx_script (rep_client s) = []" and "\<not> loop_mode args"
    and "overflow_checks args \<and> speed_positive args \<longrightarrow>
      in_order (prev_timestamp s) (map timestamp_ns cs)"
    and "length cs < n"
  shows "\<exists>p. replay_loop args off (replicate n False) s =
    Some (Break, (played args cs s)\<lparr>rep_file := (rep_file s)\<lparr>f_pos := p\<rparr>\<rparr>)"
proof -
  define k where "k = n - length cs - 1"
  have n: "replicate n False = replicate (length cs) False @ False # replicate k False"
    using assms(7) by (simp add: k_def flip: replicate_Suc replicate_add)
  have "replay_loop args off (replicate n False) s =
      replay_loop args off (False # replicate k False) (played args cs s)"
    unfolding n using assms by (intro replay_loop_chunks) auto
  moreover from replay_round_end [of "played args cs s" m c args off False] assms obtain p where
    "replay_round args off False (played args cs s) =
      Some (Break, (played args cs s)\<lparr>rep_file := (rep_file (played args cs s))\<lparr>f_pos := p\<rparr>\<rparr>)"
    by auto
  ultimately show ?thesis by (auto simp: played_def)
qed

lemma replay_loop_passes:
  assumes "f_data (rep_file s) = hd_bytes @ concat (map encode_chunk cs)"
    and "f_pos (rep_file s) = length hd_bytes" and "prev_timestamp s = None"
    and "list_all chunk_fits cs" and "tx_script (rep_client s) = []" and "loop_mode args"
    and "overflow_checks args \<and> speed_positive args \<longrightarrow> in_order None (map timestamp_ns cs)"
  shows "\<exists>s'. replay_loop args (length hd_bytes) (replicate (k * Suc (length cs)) False) s =
      Some (Continue, s') \<and>
    tx (rep_client s') = tx (rep_client s) @ concat (replicate k (concat (map chunk_data cs)))"
  using assms(1,2,3,5)
proof (induction k arbitrary: s)
  case 0
  then show ?case by simp
next
  case (Suc k)
  let ?off = "length hd_bytes"
  let ?p = "played args cs s"
  let ?s = "?p\<lparr>rep_file := (rep_file ?p)\<lparr>f_pos := ?off\<rparr>, prev_timestamp := None\<rparr>"
  have split: "replicate (Suc k * Suc (length cs)) False =
      replicate (length cs) False @ False # replicate (k * Suc (length cs)) False"
    by (simp flip: replicate_Suc replicate_add)
  have unread: "unread (rep_file s) = concat (map encode_chunk cs)"
    using Suc.prems by (simp add: unread_def)
  have "replay_loop args ?off (replicate (Suc k * Suc (length cs)) False) s =
      replay_loop args ?off (False # replicate (k * Suc (length cs)) False) ?p"
    unfolding split using assms(4,7) Suc.prems unread
    by (intro replay_loop_chunks [where rest = "[]"]) auto
  moreover have "replay_round args ?off False ?p = Some (Continue, ?s)"
    using unread assms(6) by (intro replay_round_rewind) simp_all
  moreover from Suc.IH [of ?s] Suc.prems obtain s' where
    "replay_loop args ?off (replicate (k * Suc (length cs)) False) ?s = Some (Continue, s')"
    "tx (rep_client s') = tx (rep_client ?s) @ concat (replicate k (concat (map chunk_data cs)))"
    by auto
  ultimately show ?case by auto
qed

section \<open>The program\<close>

text \<open>
  What the main function does once everything it opens is there, and the file starts with a
  header: send the magic packet, then play.
\<close>

lemma replay_main_start:
  assumes "header_fits h" and "tx_script client = []"
  shows "replay_main args hex (Inr (file_of (write_header_to_vec h @ body))) (Inr ()) (Inr client)
      (Inr ()) n qs =
    map_option (\<lambda>r. Inr (r, cmd_loop hex qs
        \<lparr>cmd_stream = (client\<lparr>tx := tx client @ magic_payload h, read_timeout := Some 200\<rparr>),
         cmd_log = []\<rparr>))
      (replay_loop args (length (write_header_to_vec h)) (replicate n False)
        \<lparr>rep_file = (file_of (write_header_to_vec h @ body))\<lparr>f_pos := length (write_header_to_vec h)\<rparr>,
         rep_client = client\<lparr>tx := tx client @ magic_payload h\<rparr>,
         prev_timestamp = None, sleeps = [], panicked = False\<rparr>)"
proof -
  have "read_header file_read (file_of (write_header_to_vec h @ body)) =
    Some (Inr h, (file_of (write_header_to_vec h @ body))\<lparr>f_pos := length (write_header_to_vec h)\<rparr>)"
    using read_header_file [of "file_of (write_header_to_vec h @ body)" h body] assms(1)
    by (simp add: file_of_def unread_def)
  with assms(2) show ?thesis
    by (simp add: replay_main_def Let_def file_stream_position_def io_simps set_read_timeout_def
        split: option.splits)
qed

lemma replay_main_play:
  assumes "header_fits h" and "list_all chunk_fits (c # cs)" and "m < length (encode_chunk c)"
    and "tx_script client = []" and "\<not> loop_mode args" and "length cs < n"
    and "overflow_checks args \<and> speed_positive args \<longrightarrow> in_order None (map timestamp_ns cs)"
  shows "\<exists>s r. replay_main args hex
      (Inr (file_of (encode_capture h cs @ take m (encode_chunk c)))) (Inr ()) (Inr client)
      (Inr ()) n qs = Some (Inr ((Break, s), r)) \<and>
    tx (rep_client s) = tx client @ magic_payload h @ concat (map chunk_data cs) \<and>
    sleeps s = (if speed_positive args then pauses args None (map timestamp_ns cs) else []) \<and>
    \<not> panicked s"
proof -
  let ?body = "concat (map encode_chunk cs) @ take m (encode_chunk c)"
  let ?s = "\<lparr>rep_file = (file_of (write_header_to_vec h @ ?body))\<lparr>f_pos := length (write_header_to_vec h)\<rparr>,
         rep_client = client\<lparr>tx := tx client @ magic_payload h\<rparr>,
         prev_timestamp = None, sleeps = [], panicked = False\<rparr>"
  have "unread (rep_file ?s) = ?body" by (simp add: unread_def file_of_def)
  from replay_loop_once [where s = ?s and args = args and n = n and cs = cs and c = c and m = m
      and off = "length (write_header_to_vec h)", OF this] assms
  show ?thesis
    by (auto simp: replay_main_start [OF assms(1,4)] encode_capture_def played_def)
qed

text \<open>
  C23. Replaying a capture: the client receives the magic packet and then the data of every
  complete chunk, byte for byte and in order, with exactly the recorded pauses between them,
  and the loop ends. This holds wherever inside a chunk the file was cut off. In a build that checks
  arithmetic it needs stamps that never decrease.
\<close>

theorem replay_main_once:
  assumes "header_fits h" and "list_all chunk_fits (c # cs)" and "m < length (encode_chunk c)"
    and "tx_script client = []" and "\<not> loop_mode args" and "length cs < n"
    and "overflow_checks args \<and> speed_positive args \<longrightarrow> in_order None (map timestamp_ns cs)"
  shows "\<exists>s r. replay_main args hex
      (Inr (file_of (encode_capture h cs @ take m (encode_chunk c)))) (Inr ()) (Inr client)
      (Inr ()) n qs = Some (Inr ((Break, s), r)) \<and>
    tx (rep_client s) = tx client @ magic_payload h @ concat (map chunk_data cs) \<and>
    sleeps s = (if speed_positive args then pauses args None (map timestamp_ns cs) else []) \<and>
    \<not> panicked s"
  using assms by (rule replay_main_play)

theorem replay_main_once_witness:
  "\<exists>s r. replay_main
      \<lparr>speed_positive = True, scale_delay = (\<lambda>d. d), loop_mode = False, overflow_checks = True\<rparr>
      (\<lambda>_. ''00'')
      (Inr (file_of (encode_capture \<lparr>magic_payload = [82, 84]\<rparr>
          [\<lparr>timestamp_ns = 3, chunk_data = [1, 2]\<rparr>, \<lparr>timestamp_ns = 8, chunk_data = [3]\<rparr>] @
        take 11 (encode_chunk \<lparr>timestamp_ns = 9, chunk_data = [4]\<rparr>))))
      (Inr ()) (Inr (fresh_tcp [])) (Inr ()) 3 [] = Some (Inr ((Break, s), r)) \<and>
    tx (rep_client s) = [82, 84, 1, 2, 3] \<and> sleeps s = [5] \<and> \<not> panicked s"
  using replay_main_once
    [of "\<lparr>magic_payload = [82, 84]\<rparr>" "\<lparr>timestamp_ns = 9, chunk_data = [4]\<rparr>"
      "[\<lparr>timestamp_ns = 3, chunk_data = [1, 2]\<rparr>, \<lparr>timestamp_ns = 8, chunk_data = [3]\<rparr>]" 11
      "fresh_tcp []"
      "\<lparr>speed_positive = True, scale_delay = (\<lambda>d. d), loop_mode = False, overflow_checks = True\<rparr>"
      3 "\<lambda>_. ''00''" "[]"]
  by (simp add: header_fits_def chunk_fits_def length_encode_chunk pause_def)

lemma replicate_two: "replicate 2 x = [x, x]"
  by (simp add: numeral_2_eq_2)

text \<open>
  C31. With \<open>--loop\<close> the replay does not end: after any number of passes over the
  capture the client has received the magic packet once and the data of the whole capture
  that many times. When the capture has no chunks a pass is a single rewind, so the loop
  spins without sending or sleeping.
\<close>

theorem replay_main_looping:
  assumes "header_fits h" and "list_all chunk_fits cs" and "tx_script client = []"
    and "loop_mode args"
    and "overflow_checks args \<and> speed_positive args \<longrightarrow> in_order None (map timestamp_ns cs)"
  shows "\<exists>s r. replay_main args hex (Inr (file_of (encode_capture h cs))) (Inr ()) (Inr client)
      (Inr ()) (k * Suc (length cs)) qs = Some (Inr ((Continue, s), r)) \<and>
    tx (rep_client s) = tx client @ magic_payload h @
      concat (replicate k (concat (map chunk_data cs)))"
proof -
  let ?s = "\<lparr>rep_file = (file_of (encode_capture h cs))\<lparr>f_pos := length (write_header_to_vec h)\<rparr>,
         rep_client = client\<lparr>tx := tx client @ magic_payload h\<rparr>,
         prev_timestamp = None, sleeps = [], panicked = False\<rparr>"
  have "f_data (rep_file ?s) = write_header_to_vec h @ concat (map encode_chunk cs)"
    by (simp add: encode_capture_def file_of_def)
  from replay_loop_passes [where k = k, OF this _ _ assms(2) _ assms(4,5)] assms(3)
  obtain s' where s': "replay_loop args (length (write_header_to_vec h))
      (replicate (k * Suc (length cs)) False) ?s = Some (Continue, s')"
    "tx (rep_client s') = tx (rep_client ?s) @ concat (replicate k (concat (map chunk_data cs)))"
    by auto
  then show ?thesis
    unfolding encode_capture_def replay_main_start [OF assms(1,3)] by simp
qed

theorem replay_main_looping_witness:
  "\<exists>s r. replay_main
      \<lparr>speed_positive = False, scale_delay = (\<lambda>d. d), loop_mode = True, overflow_checks = True\<rparr>
      (\<lambda>_. ''00'')
      (Inr (file_of (encode_capture \<lparr>magic_payload = [82, 84]\<rparr>
          [\<lparr>timestamp_ns = 3, chunk_data = [1, 2]\<rparr>, \<lparr>timestamp_ns = 8, chunk_data = [3]\<rparr>])))
      (Inr ()) (Inr (fresh_tcp [])) (Inr ()) 6 [] = Some (Inr ((Continue, s), r)) \<and>
    tx (rep_client s) = [82, 84, 1, 2, 3, 1, 2, 3]"
  using replay_main_looping
    [of "\<lparr>magic_payload = [82, 84]\<rparr>"
      "[\<lparr>timestamp_ns = 3, chunk_data = [1, 2]\<rparr>, \<lparr>timestamp_ns = 8, chunk_data = [3]\<rparr>]"
      "fresh_tcp []"
      "\<lparr>speed_positive = False, scale_delay = (\<lambda>d. d), loop_mode = True, overflow_checks = True\<rparr>"
      "\<lambda>_. ''00''" 2 "[]"]
  by (simp add: header_fits_def chunk_fits_def replicate_two)

section \<open>The command log\<close>

lemma cmd_round_ok:
  assumes "fault_free (rx (cmd_stream s))" and "stream_bytes (rx (cmd_stream s)) = buf @ rest"
    and "length buf = 5"
  shows "\<exists>es. fault_free es \<and> stream_bytes es = rest \<and>
    cmd_round h q s =
      (Continue, s\<lparr>cmd_stream := (cmd_stream s)\<lparr>rx := es\<rparr>, cmd_log := cmd_log s @ [describe_command h buf]\<rparr>)"
proof -
  have "5 \<le> length (stream_bytes (rx (cmd_stream s)))" using assms(2,3) by simp
  from tcp_read_exact_fault_free [OF assms(1) this] show ?thesis
    using assms(2,3) by (auto simp: cmd_round_def COMMAND_HEADER_SIZE_def Let_def)
qed

text \<open>
  The command thread of the replay program logs every command the client sends, one line
  each and in order, however the bytes arrive.
\<close>

lemma cmd_loop_logs:
  assumes "length qs = length cmds" and "fault_free (rx (cmd_stream s))"
    and "stream_bytes (rx (cmd_stream s)) = concat cmds" and "list_all (\<lambda>c. length c = 5) cmds"
  shows "\<exists>s'. cmd_loop h qs s = (Continue, s') \<and>
    cmd_log s' = cmd_log s @ map (describe_command h) cmds"
  using assms
proof (induction qs cmds arbitrary: s rule: list_induct2)
  case (Cons q qs buf cmds)
  from cmd_round_ok [of s buf "concat cmds" h q] Cons.prems obtain es where
    es: "fault_free es" "stream_bytes es = concat cmds"
    and round: "cmd_round h q s = (Continue, s\<lparr>cmd_stream := (cmd_stream s)\<lparr>rx := es\<rparr>,
      cmd_log := cmd_log s @ [describe_command h buf]\<rparr>)"
    by auto
  from Cons.IH [of "s\<lparr>cmd_stream := (cmd_stream s)\<lparr>rx := es\<rparr>,
      cmd_log := cmd_log s @ [describe_command h buf]\<rparr>"] es Cons.prems round
  show ?case by auto
qed simp

lemma cmd_loop_logs_witness:
  "\<exists>s'. cmd_loop (\<lambda>_. ''00'') [False, False]
      \<lparr>cmd_stream = fresh_tcp [Data [1, 0, 0], Data [0, 9, 240, 0, 0, 0, 0]], cmd_log = []\<rparr> =
        (Continue, s') \<and>
    cmd_log s' = [''client command: SET_FREQUENCY freq=9'', ''client command: CHAIN_DETECT'']"
proof -
  have "map (describe_command (\<lambda>_. ''00'')) [[1, 0, 0, 0, 9], [240, 0, 0, 0, 0]] =
      [''client command: SET_FREQUENCY freq=9'', ''client command: CHAIN_DETECT'']"
    by code_simp
  with cmd_loop_logs [of "[False, False]" "[[1, 0, 0, 0, 9], [240, 0, 0, 0, 0]]"
      "\<lparr>cmd_stream = fresh_tcp [Data [1, 0, 0], Data [0, 9, 240, 0, 0, 0, 0]], cmd_log = []\<rparr>"
      "\<lambda>_. ''00''"]
  show ?thesis by (simp del: cmd_loop.simps)
qed

end
