(* ===== verification/Runs.thy ===== *)
theory Runs
  imports "HOL-Library.Sublist"
begin

text \<open>
  Interleavings of threads: a step relation says which event takes which state to which, and
  a run is a sequence of events in any order. The locales state what the server modes have
  in common: an invariant that steps keep (\<open>step_system\<close>), and a shutdown
  (\<open>stopping_system\<close>): a flag that stays set and a measure that every step of the program's
  own threads decreases from then on, with some such step possible for as long as the
  program runs; and refinement of an abstract system (\<open>refinement\<close>). They are interpreted for the modes in the theories that model them.
\<close>

inductive runs ::
  "('e \<Rightarrow> 's \<Rightarrow> 's \<Rightarrow> bool) \<Rightarrow> 'e list \<Rightarrow> 's \<Rightarrow> 's \<Rightarrow> bool" for step where
  runs_none: "runs step [] s s"
| runs_more: "runs step evs s s' \<Longrightarrow> step ev s' s'' \<Longrightarrow> runs step (evs @ [ev]) s s''"

lemma runs_one: "step ev s s' \<Longrightarrow> runs step [ev] s s'"
  using runs_more [OF runs_none] by fastforce

lemma runs_Cons:
  assumes "step ev s s'" and "runs step evs s' s''"
  shows "runs step (ev # evs) s s''"
  using assms(2,1)
proof (induction rule: runs.induct)
  case (runs_none s')
  then show ?case by (rule runs_one)
next
  case (runs_more evs s' t ev' t')
  from runs.runs_more [OF runs_more.IH [OF runs_more.prems] runs_more.hyps(2)] show ?case by simp
qed

text \<open>A quantity that stays within a bound over a run.\<close>

definition stays_within ::
  "('e \<Rightarrow> 's \<Rightarrow> 's \<Rightarrow> bool) \<Rightarrow> ('s \<Rightarrow> nat) \<Rightarrow> nat \<Rightarrow> 'e list \<Rightarrow> 's \<Rightarrow> bool" where
  "stays_within step size_of bound evs s \<longleftrightarrow>
     (\<forall>evs' s'. prefix evs' evs \<longrightarrow> runs step evs' s s' \<longrightarrow> size_of s' \<le> bound)"

lemma stays_within_snoc:
  assumes "stays_within step size_of bound (evs @ [ev]) s"
  shows "stays_within step size_of bound evs s" and "runs step evs s s' \<Longrightarrow> size_of s' \<le> bound"
  using assms by (auto simp: stays_within_def)

locale step_system =
  fixes step :: "'e \<Rightarrow> 's \<Rightarrow> 's \<Rightarrow> bool"
    and inv :: "'s \<Rightarrow> bool"
  assumes step_inv: "step ev s s' \<Longrightarrow> inv s \<Longrightarrow> inv s'"
begin

lemmas run_none = runs_none [of step]
lemmas run_one = runs_one [of step]
lemmas run_more = runs_more [of step]

lemma run_inv: "runs step evs s s' \<Longrightarrow> inv s \<Longrightarrow> inv s'"
  by (induction rule: runs.induct) (auto intro: step_inv)

end

locale stopping_system = step_system +
  fixes own :: "'e \<Rightarrow> bool"
    and stopped :: "'s \<Rightarrow> bool"
    and live :: "'s \<Rightarrow> bool"
    and weight :: "'s \<Rightarrow> nat"
  assumes stopped_stays: "step ev s s' \<Longrightarrow> stopped s \<Longrightarrow> stopped s'"
    and own_decreases: "step ev s s' \<Longrightarrow> stopped s \<Longrightarrow> inv s \<Longrightarrow> own ev \<Longrightarrow> weight s' < weight s"
    and own_possible: "inv s \<Longrightarrow> live s \<Longrightarrow> \<exists>ev s'. own ev \<and> step ev s s'"
begin

lemma run_bounded:
  assumes "runs step evs s s'" and "list_all own evs" and "stopped s" and "inv s"
  shows "length evs + weight s' \<le> weight s \<and> stopped s'"
  using assms
proof (induction rule: runs.induct)
  case (runs_more evs s s' ev s'')
  then have "length evs + weight s' \<le> weight s" "stopped s'" "inv s'" "own ev"
    using run_inv by auto
  with own_decreases [OF runs_more(2)] stopped_stays [OF runs_more(2)] show ?case by simp
qed simp

text \<open>Once stopped the program cannot go on for ever, and it is not stuck before its end.\<close>

lemma shutdown_terminates:
  assumes "runs step evs s s'" and "list_all own evs" and "stopped s" and "inv s"
  shows "length evs \<le> weight s \<and> (live s' \<longrightarrow> (\<exists>ev s''. own ev \<and> step ev s' s''))"
  using run_bounded [OF assms] own_possible [OF run_inv [OF assms(1,4)]] by auto

end

text \<open>
  A system refines an abstract one when its steps, from states of its invariant, are steps of
  the abstract system between the abstracted states; \<open>act\<close> says which actions an event may
  stand for.
\<close>

locale refinement = step_system +
  fixes astep :: "'a \<Rightarrow> 'v \<Rightarrow> 'v \<Rightarrow> bool"
    and abs_state :: "'s \<Rightarrow> 'v"
    and act :: "'e \<Rightarrow> 'a \<Rightarrow> bool"
  assumes step_refines:
    "step ev s s' \<Longrightarrow> inv s \<Longrightarrow> \<exists>a. act ev a \<and> astep a (abs_state s) (abs_state s')"
begin

lemma run_refines:
  assumes "runs step evs s s'" and "inv s"
  shows "\<exists>as. list_all2 act evs as \<and> runs astep as (abs_state s) (abs_state s')"
  using assms
proof (induction rule: runs.induct)
  case (runs_none s)
  from runs.runs_none [of astep] show ?case by blast
next
  case (runs_more evs s s' ev s'')
  from runs_more.IH [OF runs_more.prems] obtain as where
    as: "list_all2 act evs as" "runs astep as (abs_state s) (abs_state s')" by blast
  from step_refines [OF runs_more.hyps(2) run_inv [OF runs_more.hyps(1) runs_more.prems]] obtain a where
    "act ev a" "astep a (abs_state s') (abs_state s'')" by blast
  with as runs.runs_more [OF as(2)] have
    "list_all2 act (evs @ [ev]) (as @ [a])" "runs astep (as @ [a]) (abs_state s) (abs_state s'')"
    by (auto intro: list_all2_appendI)
  then show ?case by blast
qed

end

end
