(* ===== verification/Replay_Threads.thy ===== *)
theory Replay_Threads
  imports Replay Runs
begin

text \<open>
  The replay program (\<open>src/bin/replay.rs\<close>) after its start-up as the interleaving of its two
  threads: the main thread plays the capture, raises \<open>client_quit\<close> at the end and waits for
  the other; the command thread logs what the client sends and looks at the flag whenever a
  read times out. The threads use the two directions of one socket: the main thread's half
  (\<open>rep_client\<close>) is only written, the command thread's (\<open>cmd_stream\<close>) only read.
\<close>

section \<open>Threads\<close>

text \<open>
  The main thread is in its loop, at the join, at its end, or it has panicked, which ends the
  program without a join.
\<close>

datatype replay_pc = Playing | JoiningCommands | ReplayComplete | ReplayPanicked

record replay_threads =
  rp_main :: replay_pc
  rp_play :: replay_state
  rp_cmd :: cmd_state
  rp_cmd_done :: bool
  client_quit :: bool

record replay_env =
  rp_args :: replay_args
  rp_hex :: "bytes \<Rightarrow> string"
  rp_offset :: nat

definition rp_begin :: "fs_file \<Rightarrow> tcp \<Rightarrow> replay_threads" where
  "rp_begin f client =
     \<lparr>rp_main = Playing,
      rp_play = \<lparr>rep_file = f, rep_client = client, prev_timestamp = None, sleeps = [], panicked = False\<rparr>,
      rp_cmd = \<lparr>cmd_stream = snd (set_read_timeout 200 client), cmd_log = []\<rparr>,
      rp_cmd_done = False, client_quit = False\<rparr>"

text \<open>A round of the main loop; after its last one the flag is raised.\<close>

definition on_play :: "replay_env \<Rightarrow> replay_threads \<Rightarrow> replay_threads" where
  "on_play env s =
     (case replay_round (rp_args env) (rp_offset env) (client_quit s) (rp_play s) of
        None \<Rightarrow> s
      | Some (Continue, st) \<Rightarrow> s\<lparr>rp_play := st\<rparr>
      | Some (Break, st) \<Rightarrow>
          if panicked st then s\<lparr>rp_play := st, rp_main := ReplayPanicked\<rparr>
          else s\<lparr>rp_play := st, rp_main := JoiningCommands, client_quit := True\<rparr>)"

definition on_command :: "replay_env \<Rightarrow> replay_threads \<Rightarrow> replay_threads" where
  "on_command env s =
     (case cmd_round (rp_hex env) (client_quit s) (rp_cmd s) of
        (Continue, c) \<Rightarrow> s\<lparr>rp_cmd := c\<rparr>
      | (Break, c) \<Rightarrow> s\<lparr>rp_cmd := c, rp_cmd_done := True\<rparr>)"

definition on_replay_join :: "replay_threads \<Rightarrow> replay_threads" where
  "on_replay_join s = s\<lparr>rp_main := ReplayComplete\<rparr>"

definition rp_running :: "replay_threads \<Rightarrow> bool" where
  "rp_running s \<longleftrightarrow> rp_main s = Playing \<or> rp_main s = JoiningCommands"

datatype replay_event = PlayRound | CommandRound | JoinCommands

inductive rp_step :: "replay_env \<Rightarrow> replay_event \<Rightarrow> replay_threads \<Rightarrow> replay_threads \<Rightarrow> bool" for env where
  rp_play: "rp_main s = Playing \<Longrightarrow> rp_step env PlayRound s (on_play env s)"
| rp_command: "rp_running s \<Longrightarrow> \<not> rp_cmd_done s \<Longrightarrow> rp_step env CommandRound s (on_command env s)"
| rp_join: "rp_main s = JoiningCommands \<Longrightarrow> rp_cmd_done s \<Longrightarrow> rp_step env JoinCommands s (on_replay_join s)"

inductive_cases rp_step_elims: "rp_step env ev s s'"

abbreviation rp_run :: "replay_env \<Rightarrow> replay_event list \<Rightarrow> replay_threads \<Rightarrow> replay_threads \<Rightarrow> bool" where
  "rp_run env \<equiv> runs (rp_step env)"

section \<open>Every interleaving is the two loops\<close>

text \<open>
  The flag is raised exactly when the main thread has left its loop, so the loop itself never
  finds it raised.
\<close>

definition rp_inv :: "replay_threads \<Rightarrow> bool" where
  "rp_inv s \<longleftrightarrow>
     (client_quit s \<longleftrightarrow> rp_main s \<in> {JoiningCommands, ReplayComplete}) \<and>
     (rp_main s = ReplayComplete \<longrightarrow> rp_cmd_done s)"

lemma rp_step_inv: "rp_step env ev s s' \<Longrightarrow> rp_inv s \<Longrightarrow> rp_inv s'"
  by (induction rule: rp_step.induct)
    (auto simp: rp_inv_def on_play_def on_command_def on_replay_join_def rp_running_def
      split: option.splits prod.splits flow.splits)

interpretation rp: step_system "rp_step env" rp_inv for env
  by unfold_locales (rule rp_step_inv)

text \<open>
  The main thread's state is the one of its loop run by itself with the flag down; the command
  thread's is the one of its loop that finds the flag down some number of times and then up.
\<close>

definition cmd_sequential :: "replay_env \<Rightarrow> cmd_state \<Rightarrow> bool \<Rightarrow> flow \<times> cmd_state \<Rightarrow> bool" where
  "cmd_sequential env c0 quit r \<longleftrightarrow>
     (\<exists>m k. cmd_loop (rp_hex env) (replicate m False @ replicate k True) c0 = r \<and> (quit \<or> k = 0))"

definition rp_sequential :: "replay_env \<Rightarrow> replay_state \<Rightarrow> cmd_state \<Rightarrow> replay_threads \<Rightarrow> bool" where
  "rp_sequential env st0 c0 s \<longleftrightarrow>
     (\<exists>n. replay_loop (rp_args env) (rp_offset env) (replicate n False) st0 =
        Some (if rp_main s = Playing then Continue else Break, rp_play s)) \<and>
     cmd_sequential env c0 (client_quit s) (if rp_cmd_done s then Break else Continue, rp_cmd s)"

lemma cmd_sequential_raise: "cmd_sequential env c0 q r \<Longrightarrow> cmd_sequential env c0 True r"
  by (auto simp: cmd_sequential_def)

lemma replay_loop_snoc:
  "replay_loop args off qs s = Some (Continue, s') \<Longrightarrow>
     replay_loop args off (qs @ [q]) s = replay_round args off q s'"
proof (induction qs arbitrary: s)
  case Nil
  then show ?case by (simp split: option.splits prod.splits flow.splits)
next
  case (Cons r qs)
  then show ?case by (simp split: option.splits prod.splits flow.splits)
qed

lemma cmd_loop_snoc:
  "cmd_loop h qs c = (Continue, c') \<Longrightarrow> cmd_loop h (qs @ [q]) c = cmd_round h q c'"
proof (induction qs arbitrary: c)
  case Nil
  then show ?case by (simp split: prod.splits flow.splits)
next
  case (Cons r qs)
  then show ?case by (simp split: prod.splits flow.splits)
qed

lemma rp_play_sequential:
  assumes "rp_sequential env st0 c0 s" and "rp_inv s" and "rp_main s = Playing"
  shows "rp_sequential env st0 c0 (on_play env s)"
proof -
  obtain fl st where r: "replay_round (rp_args env) (rp_offset env) False (rp_play s) = Some (fl, st)"
    using replay_round_total by fastforce
  have q: "\<not> client_quit s" using assms(2,3) by (simp add: rp_inv_def)
  from assms(1,3) obtain n where
    "replay_loop (rp_args env) (rp_offset env) (replicate n False) st0 = Some (Continue, rp_play s)"
    by (auto simp: rp_sequential_def)
  from replay_loop_snoc [OF this, of False] r have
    n: "replay_loop (rp_args env) (rp_offset env) (replicate (Suc n) False) st0 = Some (fl, st)"
    by (simp only: replicate_Suc replicate_append_same [symmetric])
  have cmd: "cmd_sequential env c0 q (if rp_cmd_done s then Break else Continue, rp_cmd s)"
    if "q = client_quit s \<or> q" for q
    using assms(1) that cmd_sequential_raise by (auto simp: rp_sequential_def)
  show ?thesis
    using n r q assms(3) cmd
    by (cases fl) (auto simp: rp_sequential_def on_play_def simp del: replicate_Suc intro: exI [of _ "Suc n"])
qed

lemma rp_command_sequential:
  assumes "rp_sequential env st0 c0 s" and "\<not> rp_cmd_done s"
  shows "rp_sequential env st0 c0 (on_command env s)"
proof -
  obtain fl c where r: "cmd_round (rp_hex env) (client_quit s) (rp_cmd s) = (fl, c)" by fastforce
  from assms obtain m k where
    mk: "cmd_loop (rp_hex env) (replicate m False @ replicate k True) c0 = (Continue, rp_cmd s)"
      "client_quit s \<or> k = 0"
    by (auto simp: rp_sequential_def cmd_sequential_def)
  let ?m = "if client_quit s then m else Suc m" and ?k = "if client_quit s then Suc k else 0"
  have "replicate ?m False @ replicate ?k True = (replicate m False @ replicate k True) @ [client_quit s]"
    using mk(2) by (auto simp: replicate_append_same)
  with cmd_loop_snoc [OF mk(1), of "client_quit s"] r
  have "cmd_loop (rp_hex env) (replicate ?m False @ replicate ?k True) c0 = (fl, c)" by simp
  then have "cmd_sequential env c0 (client_quit s) (fl, c)"
    unfolding cmd_sequential_def by (intro exI [of _ ?m] exI [of _ ?k]) simp
  with assms r show ?thesis
    by (cases fl) (simp_all add: rp_sequential_def on_command_def)
qed

lemma rp_run_sequential:
  assumes "rp_run env evs s s'" and "rp_inv s" and "rp_sequential env st0 c0 s"
  shows "rp_sequential env st0 c0 s'"
  using assms
proof (induction rule: runs.induct)
  case (runs_more evs s s' ev s'')
  from rp.run_inv [OF runs_more(1,4)] have inv: "rp_inv s'" .
  from runs_more(3) [OF runs_more(4,5)] have sq: "rp_sequential env st0 c0 s'" .
  from runs_more(2) show ?case
  proof cases
    case rp_join
    with sq show ?thesis by (simp add: rp_sequential_def on_replay_join_def)
  qed (use sq inv in \<open>simp_all add: rp_play_sequential rp_command_sequential\<close>)
qed

section \<open>The end\<close>

text \<open>How often the main loop can still go round when the capture is played once.\<close>

definition rounds_left :: "replay_threads \<Rightarrow> nat" where
  "rounds_left s = (if rp_main s = Playing then Suc (length (unread (rep_file (rp_play s)))) else 0)"

lemma rp_step_rounds:
  assumes "rp_step env ev s s'" and "\<not> loop_mode (rp_args env)"
  shows "rounds_left s' + (if ev = PlayRound then 1 else 0) \<le> rounds_left s"
  using assms
proof (induction rule: rp_step.induct)
  case (rp_play s)
  obtain fl st where r: "replay_round (rp_args env) (rp_offset env) (client_quit s) (rp_play s) = Some (fl, st)"
    using replay_round_total by fastforce
  with rp_play replay_round_progress [of "rp_args env" "rp_offset env" "client_quit s" "rp_play s" st]
  show ?case by (cases fl) (auto simp: rounds_left_def on_play_def)
qed (auto simp: rounds_left_def on_command_def on_replay_join_def split: prod.splits flow.splits)

lemma rp_run_rounds:
  assumes "rp_run env evs s s'" and "\<not> loop_mode (rp_args env)"
  shows "rounds_left s' + length (filter (\<lambda>ev. ev = PlayRound) evs) \<le> rounds_left s"
  using assms
proof (induction rule: runs.induct)
  case (runs_more evs s s' ev s'')
  with rp_step_rounds [OF runs_more(2,4)] show ?case by (auto split: if_splits)
qed simp

text \<open>
  The bytes the client sends before it is silent for the first time (or leaves). Once the flag
  is up the command thread reads whole commands of these and ends at the first time-out.
\<close>

fun before_pause :: "read_event list \<Rightarrow> nat" where
  "before_pause [] = 0"
| "before_pause (Data bs # es) = length bs + before_pause es"
| "before_pause (Fault e # es) = (if err_kind e = Interrupted then before_pause es else 0)"

lemma take_exact_before_pause:
  "take_exact k acc es = (Inr bs, es') \<Longrightarrow> before_pause es = k + before_pause es'"
  by (induction k acc es rule: take_exact.induct) (auto split: if_splits)

lemma cmd_round_quitting:
  assumes "cmd_round h True c = (Continue, c')"
  shows "before_pause (rx (cmd_stream c)) = 5 + before_pause (rx (cmd_stream c'))"
proof -
  obtain res es where es: "take_exact 5 [] (rx (cmd_stream c)) = (res, es)"
    by (cases "take_exact 5 [] (rx (cmd_stream c))")
  with assms obtain bs where "res = Inr bs" "rx (cmd_stream c') = es"
    by (auto simp: cmd_round_def tcp_read_exact_def COMMAND_HEADER_SIZE_def Let_def
        split: sum.splits if_splits)
  with take_exact_before_pause es show ?thesis by simp
qed

definition rp_remaining :: "replay_threads \<Rightarrow> nat" where
  "rp_remaining s =
     (if rp_main s = JoiningCommands then 1 else 0) +
     (if rp_cmd_done s then 0 else Suc (before_pause (rx (cmd_stream (rp_cmd s))) div 5))"

lemma rp_step_decreases:
  assumes "rp_step env ev s s'" and "client_quit s" and "rp_inv s"
  shows "rp_remaining s' < rp_remaining s"
  using assms
proof (induction rule: rp_step.induct)
  case (rp_play s)
  then show ?case by (simp add: rp_inv_def)
next
  case (rp_command s)
  obtain fl c where r: "cmd_round (rp_hex env) True (rp_cmd s) = (fl, c)" by fastforce
  with rp_command cmd_round_quitting [of "rp_hex env" "rp_cmd s" c] show ?case
    by (cases fl) (simp_all add: rp_remaining_def on_command_def)
next
  case (rp_join s)
  then show ?case by (simp add: rp_remaining_def on_replay_join_def)
qed

lemma quit_stays: "rp_step env ev s s' \<Longrightarrow> client_quit s \<Longrightarrow> client_quit s'"
  by (induction rule: rp_step.induct)
    (auto simp: on_play_def on_command_def on_replay_join_def split: option.splits prod.splits flow.splits)

lemma rp_progress: "rp_running s \<Longrightarrow> \<exists>ev s'. rp_step env ev s s'"
  using rp_step.rp_play rp_step.rp_command rp_step.rp_join unfolding rp_running_def by blast

interpretation rp_shutdown: stopping_system "rp_step env" rp_inv "\<lambda>_. True" client_quit rp_running rp_remaining
  for env
  by unfold_locales (auto intro: quit_stays rp_step_decreases rp_progress)

text \<open>A capture of one chunk, and a client that sends a command.\<close>

definition demo_replay_env :: replay_env where
  "demo_replay_env =
     \<lparr>rp_args = \<lparr>speed_positive = False, scale_delay = (\<lambda>d. d), loop_mode = False, overflow_checks = True\<rparr>,
      rp_hex = (\<lambda>_. ''00''), rp_offset = 14\<rparr>"

definition demo_capture :: fs_file where
  "demo_capture =
     file_of (write_header_to_vec \<lparr>magic_payload = [82, 84]\<rparr> @
       encode_chunk \<lparr>timestamp_ns = 3, chunk_data = [1, 2]\<rparr>)"

definition demo_replay_client :: tcp where
  "demo_replay_client = (fresh_tcp [Data [1, 0, 0, 0, 9]])\<lparr>tx := [82, 84]\<rparr>"

lemma demo_replay_run:
  "rp_run demo_replay_env [CommandRound, PlayRound] (rp_begin f client)
     (on_play demo_replay_env (on_command demo_replay_env (rp_begin f client)))"
proof -
  have "rp_main (on_command demo_replay_env (rp_begin f client)) = Playing"
    by (simp add: on_command_def rp_begin_def split: prod.splits flow.splits)
  moreover have "rp_running (rp_begin f client)" "\<not> rp_cmd_done (rp_begin f client)"
    by (simp_all add: rp_running_def rp_begin_def)
  ultimately show ?thesis by (blast intro: runs_Cons runs_none rp_step.intros)
qed

section \<open>Properties\<close>

text \<open>
  C25. The two threads do not interfere: under every interleaving, the main thread has done
  what its loop does by itself, never finding \<open>client_quit\<close> raised, and the command thread
  what its loop does by itself when it finds the flag down for a while and then up, so the
  program's behaviour is the one of \<open>replay_main\<close> for some number of rounds and some values
  of the flag; and the flag is up exactly when the main thread has left its loop.
\<close>

theorem replay_threads_sequential:
  assumes "read_header file_read f0 = Some (Inr header, f)"
    and "file_stream_position f = Some (Inr (rp_offset env), f)"
    and "tcp_write_all (magic_payload header) client = (Inr (), client')"
    and "rp_run env evs (rp_begin f client') s"
  shows "(\<exists>n m k. replay_main (rp_args env) (rp_hex env) (Inr f0) (Inr ()) (Inr client) (Inr ()) n
        (replicate m False @ replicate k True) =
      Some (Inr ((if rp_main s = Playing then Continue else Break, rp_play s),
        (if rp_cmd_done s then Break else Continue, rp_cmd s)))) \<and>
    (client_quit s \<longleftrightarrow> rp_main s = JoiningCommands \<or> rp_main s = ReplayComplete)"
proof -
  let ?st = "\<lparr>rep_file = f, rep_client = client', prev_timestamp = None, sleeps = [], panicked = False\<rparr>"
  let ?c = "\<lparr>cmd_stream = snd (set_read_timeout 200 client'), cmd_log = []\<rparr>"
  have inv: "rp_inv (rp_begin f client')" by (simp add: rp_inv_def rp_begin_def)
  have "rp_sequential env ?st ?c (rp_begin f client')"
    unfolding rp_sequential_def cmd_sequential_def
    by (intro conjI exI [of _ 0]) (simp_all add: rp_begin_def)
  from rp_run_sequential [OF assms(4) inv this] obtain n m k where
    "replay_loop (rp_args env) (rp_offset env) (replicate n False) ?st =
        Some (if rp_main s = Playing then Continue else Break, rp_play s)"
    "cmd_loop (rp_hex env) (replicate m False @ replicate k True) ?c =
        (if rp_cmd_done s then Break else Continue, rp_cmd s)"
    unfolding rp_sequential_def cmd_sequential_def by blast
  with assms(1-3) have "replay_main (rp_args env) (rp_hex env) (Inr f0) (Inr ()) (Inr client) (Inr ()) n
        (replicate m False @ replicate k True) =
      Some (Inr ((if rp_main s = Playing then Continue else Break, rp_play s),
        (if rp_cmd_done s then Break else Continue, rp_cmd s)))"
    by (simp add: replay_main_def Let_def)
  moreover have "client_quit s \<longleftrightarrow> rp_main s = JoiningCommands \<or> rp_main s = ReplayComplete"
    using rp.run_inv [OF assms(4) inv] by (simp add: rp_inv_def)
  ultimately show ?thesis by blast
qed

theorem replay_threads_sequential_witness:
  "let s = on_play demo_replay_env (on_command demo_replay_env
         (rp_begin (demo_capture\<lparr>f_pos := 14\<rparr>) demo_replay_client))
   in \<exists>n m k. replay_main (rp_args demo_replay_env) (rp_hex demo_replay_env) (Inr demo_capture) (Inr ())
        (Inr (fresh_tcp [Data [1, 0, 0, 0, 9]])) (Inr ()) n (replicate m False @ replicate k True) =
      Some (Inr ((if rp_main s = Playing then Continue else Break, rp_play s),
        (if rp_cmd_done s then Break else Continue, rp_cmd s)))"
proof -
  let ?h = "\<lparr>magic_payload = [82, 84]\<rparr>"
  have len: "length (write_header_to_vec ?h) = 14" by (simp add: write_header_to_vec_def)
  have hdr: "read_header file_read demo_capture = Some (Inr ?h, demo_capture\<lparr>f_pos := 14\<rparr>)"
    using read_header_file [of demo_capture ?h] len by (simp add: demo_capture_def header_fits_def file_of_def unread_def)
  have pos: "file_stream_position (demo_capture\<lparr>f_pos := 14\<rparr>) =
      Some (Inr (rp_offset demo_replay_env), demo_capture\<lparr>f_pos := 14\<rparr>)"
    by (simp add: file_stream_position_def demo_replay_env_def io_simps)
  have "tcp_write_all (magic_payload ?h) (fresh_tcp [Data [1, 0, 0, 0, 9]]) = (Inr (), demo_replay_client)"
    by (simp add: demo_replay_client_def tcp_write_all_def fresh_tcp_def)
  from replay_threads_sequential [OF hdr pos this demo_replay_run] show ?thesis by (simp add: Let_def)
qed

text \<open>
  C24. The replay program comes to its end. Without \<open>--loop\<close> the main loop goes round at most
  once more than there are bytes left of the capture, whatever the client does. Once it has
  left its loop, for whatever reason, and raised the flag, the command thread reads at most
  the whole commands the client sends before it is silent for the first time, and ends with
  that time-out however long the client stays connected; then the main thread ends. Neither
  thread ever waits for ever, and at the end both have finished and the flag is up, or the
  main thread has panicked.
\<close>

theorem replay_threads_end:
  assumes "rp_run env evs0 (rp_begin f client) s" and "rp_run env evs s s'"
  shows "(\<not> loop_mode (rp_args env) \<longrightarrow>
      length (filter (\<lambda>ev. ev = PlayRound) evs) \<le> Suc (length (unread (rep_file (rp_play s))))) \<and>
    (client_quit s \<longrightarrow> length evs \<le> before_pause (rx (cmd_stream (rp_cmd s))) div 5 + 2) \<and>
    (rp_running s' \<longrightarrow> (\<exists>ev s''. rp_step env ev s' s'')) \<and>
    (\<not> rp_running s' \<longrightarrow> rp_main s' = ReplayPanicked \<or> rp_cmd_done s' \<and> client_quit s')"
proof -
  have "rp_inv (rp_begin f client)" by (simp add: rp_inv_def rp_begin_def)
  with assms(1) have inv: "rp_inv s" by (rule rp.run_inv)
  have "list_all (\<lambda>_. True) evs" by (simp add: list_all_iff)
  note ends = rp_shutdown.shutdown_terminates [OF assms(2) this _ inv]
  have "rp_remaining s \<le> before_pause (rx (cmd_stream (rp_cmd s))) div 5 + 2"
    by (simp add: rp_remaining_def)
  moreover have "rounds_left s \<le> Suc (length (unread (rep_file (rp_play s))))"
    by (simp add: rounds_left_def)
  moreover have "rp_main s' = ReplayPanicked \<or> rp_cmd_done s' \<and> client_quit s'" if "\<not> rp_running s'"
    using rp.run_inv [OF assms(2) inv] that by (cases "rp_main s'") (auto simp: rp_inv_def rp_running_def)
  ultimately show ?thesis
    using ends rp_run_rounds [OF assms(2)] rp_progress [of s' env] by fastforce
qed

text \<open>A client that stays connected and silent while the capture is played to its end.\<close>

definition demo_idle_client :: tcp where
  "demo_idle_client = fresh_tcp (replicate 4 (Fault \<lparr>err_kind = WouldBlock, err_msg = ''timed out''\<rparr>))"

theorem replay_threads_end_witness:
  "let s = on_play demo_replay_env (rp_begin (file_of []) demo_idle_client)
   in client_quit s \<and> rp_run demo_replay_env [CommandRound, JoinCommands] s
        (on_replay_join (on_command demo_replay_env s)) \<and>
      (\<forall>evs s'. rp_run demo_replay_env evs s s' \<longrightarrow> length evs \<le> 2)"
proof -
  let ?b = "rp_begin (file_of []) demo_idle_client"
  let ?p = "on_play demo_replay_env ?b"
  obtain f where "read_chunk file_read (file_of []) = Some (Inr None, f)"
    using read_chunk_file_end [of "file_of []"] by (simp add: unread_def file_of_def)
  then have play: "rp_main ?p = JoiningCommands" "client_quit ?p" "\<not> rp_cmd_done ?p"
    "rx (cmd_stream (rp_cmd ?p)) = rx demo_idle_client"
    by (simp_all add: on_play_def rp_begin_def replay_round_def demo_replay_env_def set_read_timeout_def)
  have "\<exists>c. cmd_round (rp_hex demo_replay_env) True (rp_cmd ?p) = (Break, c)"
    using play(4)
    by (simp add: cmd_round_def tcp_read_exact_def COMMAND_HEADER_SIZE_def demo_idle_client_def fresh_tcp_def
        numeral_eq_Suc Let_def split: prod.split)
  then have ended: "rp_cmd_done (on_command demo_replay_env ?p)"
    "rp_main (on_command demo_replay_env ?p) = JoiningCommands"
    using play(1,2) by (auto simp: on_command_def)
  have "rp_running ?p" using play(1) by (simp add: rp_running_def)
  then have run: "rp_run demo_replay_env [CommandRound, JoinCommands] ?p
      (on_replay_join (on_command demo_replay_env ?p))"
    using play(3) ended by (blast intro: runs_Cons runs_none rp_step.rp_command rp_step.rp_join)
  have "rp_step demo_replay_env PlayRound ?b ?p" by (rule rp_step.rp_play) (simp add: rp_begin_def)
  note start = runs_one [where step = "rp_step demo_replay_env", OF this]
  have "before_pause (rx (cmd_stream (rp_cmd ?p))) = 0"
    unfolding play(4) by (simp add: demo_idle_client_def fresh_tcp_def numeral_eq_Suc)
  then have "length evs \<le> 2" if "rp_run demo_replay_env evs ?p s'" for evs s'
    using replay_threads_end [OF start that] play(2) by simp
  with play(2) run show ?thesis unfolding Let_def by blast
qed

end
