(* ===== verification/Device_Control.thy ===== *)
theory Device_Control
  imports Control Tcp_Stream Loops
begin

text \<open>
  What the control threads of \<open>src/main.rs\<close> share: the state they work on, the calls
  they make on the device controller, what they log, and the handling of each command. The
  controller is the \<open>rtlsdr_mt\<close> crate's: the model records the calls made on it, in
  order, and whether a call succeeds is an argument \<open>dev_ok\<close> (a function of the calls
  before it), which only the log depends on.
\<close>

section \<open>Device, log and state\<close>

datatype dev_call =
    SetCenterFreq u32
  | SetSampleRate u32
  | DisableAgc
  | EnableAgc
  | SetTunerGain i32
  | SetPpm i32
  | CancelAsyncRead

datatype log_event =
    ClientDisconnected io_error
  | ReadError io_error
  | ExitFlagSet
  | RateLimited
  | InvalidFrequency string
  | InvalidSampleRate string
  | InvalidTunerGain string
  | InvalidPpm string
  | SettingFrequency u32
  | SettingSampleRate u32
  | SettingTunerGain i32
  | SettingPpm i32
  | GainModeManual
  | GainModeAutomatic
  | AgcOn
  | AgcOff
  | DeviceCallFailed dev_call
  | MutexPoisoned
  | ChainProbe
  | ChainAckFailed io_error
  | PerformingHandshake
  | ChainEstablished
  | HandshakeFailed io_error
  | UnsupportedCommand bytes u64
  | ControlThreadExiting

record ctl_state =
  stream :: tcp
  ctl :: "dev_call list mutex"
  agc_st :: agc_state
  unknown_command_count :: u64
  limiter :: rate_limiter
  log_lines :: "log_event list"

text \<open>
  What one round of a control loop reads from outside: the exit flag and the clock; a round
  of a master's control thread may also draw a nonce from the random generator.
\<close>

record round =
  should_exit :: bool
  now :: instant

record master_input = round +
  draw :: "nat \<Rightarrow> bytes"

definition add_log :: "log_event \<Rightarrow> 'a ctl_state_scheme \<Rightarrow> 'a ctl_state_scheme" where
  "add_log e s = s\<lparr>log_lines := log_lines s @ [e]\<rparr>"

text \<open>
  \<open>with_control(&ctl, |guard| if let Err(e) = guard.call() { warn!(..) })\<close>
\<close>

definition call_device ::
  "(dev_call list \<Rightarrow> dev_call \<Rightarrow> bool) \<Rightarrow> dev_call \<Rightarrow> 'a ctl_state_scheme \<Rightarrow> 'a ctl_state_scheme" where
  "call_device dev_ok c s =
     (case with_control (ctl s) (\<lambda>calls. calls @ [c]) of
        (ctl', poisoned) \<Rightarrow>
          let s' = s\<lparr>ctl := ctl'\<rparr>
          in if poisoned then add_log MutexPoisoned s'
             else if \<not> dev_ok (m_data (ctl s)) c then add_log (DeviceCallFailed c) s'
             else s')"

section \<open>Errors of a read\<close>

definition is_disconnect_err :: "io_error \<Rightarrow> bool" where
  "is_disconnect_err e \<longleftrightarrow>
     err_kind e \<in> {UnexpectedEof, ConnectionReset, BrokenPipe, ConnectionAborted, NotConnected}"

definition is_timeout_err :: "io_error \<Rightarrow> bool" where
  "is_timeout_err e \<longleftrightarrow> err_kind e = WouldBlock \<or> err_kind e = TimedOut"

section \<open>The commands\<close>

definition set_frequency ::
  "(dev_call list \<Rightarrow> dev_call \<Rightarrow> bool) \<Rightarrow> bytes \<Rightarrow> 'a ctl_state_scheme \<Rightarrow> 'a ctl_state_scheme" where
  "set_frequency dev_ok payload s =
     (let freq = (from_be payload :: u32)
      in case validate_frequency freq of
           Inl e \<Rightarrow> add_log (InvalidFrequency e) s
         | Inr _ \<Rightarrow> call_device dev_ok (SetCenterFreq freq) (add_log (SettingFrequency freq) s))"

definition set_sample_rate ::
  "(dev_call list \<Rightarrow> dev_call \<Rightarrow> bool) \<Rightarrow> bytes \<Rightarrow> 'a ctl_state_scheme \<Rightarrow> 'a ctl_state_scheme" where
  "set_sample_rate dev_ok payload s =
     (let rate = (from_be payload :: u32)
      in case validate_sample_rate rate of
           Inl e \<Rightarrow> add_log (InvalidSampleRate e) s
         | Inr _ \<Rightarrow> call_device dev_ok (SetSampleRate rate) (add_log (SettingSampleRate rate) s))"

text \<open>Switching AGC, with the log line written only when the state changed.\<close>

definition switch_agc_off ::
  "(dev_call list \<Rightarrow> dev_call \<Rightarrow> bool) \<Rightarrow> log_event \<Rightarrow> 'a ctl_state_scheme \<Rightarrow> 'a ctl_state_scheme" where
  "switch_agc_off dev_ok line s =
     (case agc_disable (agc_st s) of
        (changed, st) \<Rightarrow>
          let s' = s\<lparr>agc_st := st\<rparr>
          in call_device dev_ok DisableAgc (if changed then add_log line s' else s'))"

definition switch_agc_on ::
  "(dev_call list \<Rightarrow> dev_call \<Rightarrow> bool) \<Rightarrow> log_event \<Rightarrow> 'a ctl_state_scheme \<Rightarrow> 'a ctl_state_scheme" where
  "switch_agc_on dev_ok line s =
     (case agc_enable (agc_st s) of
        (changed, st) \<Rightarrow>
          let s' = s\<lparr>agc_st := st\<rparr>
          in call_device dev_ok EnableAgc (if changed then add_log line s' else s'))"

definition set_gain_mode ::
  "(dev_call list \<Rightarrow> dev_call \<Rightarrow> bool) \<Rightarrow> bytes \<Rightarrow> 'a ctl_state_scheme \<Rightarrow> 'a ctl_state_scheme" where
  "set_gain_mode dev_ok payload s =
     (let gain_mode = sint (from_be payload :: i32)
      in if 0 < gain_mode then switch_agc_off dev_ok GainModeManual s
         else switch_agc_on dev_ok GainModeAutomatic s)"

definition set_tuner_gain ::
  "(dev_call list \<Rightarrow> dev_call \<Rightarrow> bool) \<Rightarrow> bytes \<Rightarrow> 'a ctl_state_scheme \<Rightarrow> 'a ctl_state_scheme" where
  "set_tuner_gain dev_ok payload s =
     (let gain = (from_be payload :: i32)
      in case validate_tuner_gain gain of
           Inl e \<Rightarrow> add_log (InvalidTunerGain e) s
         | Inr _ \<Rightarrow> call_device dev_ok (SetTunerGain gain) (add_log (SettingTunerGain gain) s))"

definition set_ppm ::
  "(dev_call list \<Rightarrow> dev_call \<Rightarrow> bool) \<Rightarrow> bytes \<Rightarrow> 'a ctl_state_scheme \<Rightarrow> 'a ctl_state_scheme" where
  "set_ppm dev_ok payload s =
     (let ppm = (from_be payload :: i32)
      in case validate_ppm ppm of
           Inl e \<Rightarrow> add_log (InvalidPpm e) s
         | Inr _ \<Rightarrow> call_device dev_ok (SetPpm ppm) (add_log (SettingPpm ppm) s))"

definition set_agc ::
  "(dev_call list \<Rightarrow> dev_call \<Rightarrow> bool) \<Rightarrow> bytes \<Rightarrow> 'a ctl_state_scheme \<Rightarrow> 'a ctl_state_scheme" where
  "set_agc dev_ok payload s =
     (if (from_be payload :: u32) = 1 then switch_agc_on dev_ok AgcOn s
      else switch_agc_off dev_ok AgcOff s)"

definition chain_ack :: "'a ctl_state_scheme \<Rightarrow> 'a ctl_state_scheme" where
  "chain_ack s0 =
     (let s = add_log ChainProbe s0
      in case tcp_write_all [CMD_CHAIN_DETECT, 0x00, 0x00, 0x00, 0x00] (stream s) of
           (Inl e, st) \<Rightarrow> add_log (ChainAckFailed e) (s\<lparr>stream := st\<rparr>)
         | (Inr _, st) \<Rightarrow> s\<lparr>stream := st\<rparr>)"

definition unsupported_command :: "bytes \<Rightarrow> 'a ctl_state_scheme \<Rightarrow> 'a ctl_state_scheme" where
  "unsupported_command buf s =
     (let count = unknown_command_count s + 1
      in add_log (UnsupportedCommand buf count) (s\<lparr>unknown_command_count := count\<rparr>))"

section \<open>What the device may be asked\<close>

fun call_in_range :: "dev_call \<Rightarrow> bool" where
  "call_in_range (SetCenterFreq f) = (unat f \<le> 2200000000)"
| "call_in_range (SetSampleRate r) = (unat r \<le> 3200000)"
| "call_in_range (SetTunerGain g) = (0 \<le> sint g \<and> sint g \<le> 500)"
| "call_in_range (SetPpm p) = (- 200 \<le> sint p \<and> sint p \<le> 200)"
| "call_in_range DisableAgc = True"
| "call_in_range EnableAgc = True"
| "call_in_range CancelAsyncRead = True"

definition device_safe :: "'a ctl_state_scheme \<Rightarrow> bool" where
  "device_safe s \<longleftrightarrow> list_all call_in_range (m_data (ctl s))"

text \<open>
  The setting of AGC the last call on the device asked for, if any did; the control state
  agrees with it unless the controller's mutex was poisoned on the way.
\<close>

fun last_agc :: "dev_call list \<Rightarrow> bool option" where
  "last_agc [] = None"
| "last_agc (c # cs) =
     (case last_agc cs of
        Some b \<Rightarrow> Some b
      | None \<Rightarrow> (case c of EnableAgc \<Rightarrow> Some True | DisableAgc \<Rightarrow> Some False | _ \<Rightarrow> None))"

definition agc_tracks :: "'a ctl_state_scheme \<Rightarrow> bool" where
  "agc_tracks s \<longleftrightarrow>
     m_poisoned (ctl s) \<or>
     enabled (agc_st s) = (case last_agc (m_data (ctl s)) of Some b \<Rightarrow> b | None \<Rightarrow> True)"

lemma device_safe_cong: "ctl s = ctl t \<Longrightarrow> device_safe s = device_safe t"
  by (simp add: device_safe_def)

lemma agc_tracks_cong:
  "ctl s = ctl t \<Longrightarrow> agc_st s = agc_st t \<Longrightarrow> agc_tracks s = agc_tracks t"
  by (simp add: agc_tracks_def)

lemma last_agc_append:
  "last_agc (cs @ ds) = (case last_agc ds of Some b \<Rightarrow> Some b | None \<Rightarrow> last_agc cs)"
  by (induction cs) (auto split: option.splits)

section \<open>Calls on the device\<close>

named_theorems command_defs \<open>the command handlers\<close>

declare set_frequency_def [command_defs] set_sample_rate_def [command_defs]
  set_gain_mode_def [command_defs] set_tuner_gain_def [command_defs] set_ppm_def [command_defs]
  set_agc_def [command_defs] switch_agc_on_def [command_defs] switch_agc_off_def [command_defs]
  chain_ack_def [command_defs] unsupported_command_def [command_defs]
  agc_enable_def [command_defs] agc_disable_def [command_defs]

lemma add_log_simps [simp]:
  "stream (add_log e s) = stream s" "ctl (add_log e s) = ctl s" "agc_st (add_log e s) = agc_st s"
  "unknown_command_count (add_log e s) = unknown_command_count s"
  "limiter (add_log e s) = limiter s" "ctl_state.more (add_log e s) = ctl_state.more s"
  "log_lines (add_log e s) = log_lines s @ [e]"
  by (simp_all add: add_log_def)

lemma call_device_simps [simp]:
  "stream (call_device d c s) = stream s" "agc_st (call_device d c s) = agc_st s"
  "unknown_command_count (call_device d c s) = unknown_command_count s"
  "limiter (call_device d c s) = limiter s" "ctl_state.more (call_device d c s) = ctl_state.more s"
  by (simp_all add: call_device_def with_control_def Let_def)

lemma ctl_call_device [simp]:
  "ctl (call_device d c s) =
     (if m_poisoned (ctl s) then ctl s else (ctl s)\<lparr>m_data := m_data (ctl s) @ [c]\<rparr>)"
  by (simp add: call_device_def with_control_def Let_def)

lemma call_device_safe: "device_safe s \<Longrightarrow> call_in_range c \<Longrightarrow> device_safe (call_device d c s)"
  by (simp add: device_safe_def)

text \<open>Every handler keeps the device safe and the AGC state in step with the device.\<close>

lemma commands_safe:
  assumes "device_safe s"
  shows "device_safe (set_frequency d p s)" "device_safe (set_sample_rate d p s)"
    "device_safe (set_gain_mode d p s)" "device_safe (set_tuner_gain d p s)"
    "device_safe (set_ppm d p s)" "device_safe (set_agc d p s)" "device_safe (chain_ack s)"
    "device_safe (unsupported_command b s)"
  using assms validate_ok_iff
  by (auto simp: command_defs device_safe_def Let_def split: sum.splits prod.splits)

lemma commands_agc:
  assumes "agc_tracks s"
  shows "agc_tracks (set_frequency d p s)" "agc_tracks (set_sample_rate d p s)"
    "agc_tracks (set_gain_mode d p s)" "agc_tracks (set_tuner_gain d p s)"
    "agc_tracks (set_ppm d p s)" "agc_tracks (set_agc d p s)" "agc_tracks (chain_ack s)"
    "agc_tracks (unsupported_command b s)"
  using assms
  by (auto simp: command_defs agc_tracks_def Let_def last_agc_append
      split: sum.splits prod.splits)

text \<open>A handler makes at most one call.\<close>

definition calls_made :: "'a ctl_state_scheme \<Rightarrow> nat" where
  "calls_made s = length (m_data (ctl s))"

lemma commands_one_call:
  "calls_made (set_frequency d p s) \<le> Suc (calls_made s)"
  "calls_made (set_sample_rate d p s) \<le> Suc (calls_made s)"
  "calls_made (set_gain_mode d p s) \<le> Suc (calls_made s)"
  "calls_made (set_tuner_gain d p s) \<le> Suc (calls_made s)"
  "calls_made (set_ppm d p s) \<le> Suc (calls_made s)"
  "calls_made (set_agc d p s) \<le> Suc (calls_made s)"
  "calls_made (chain_ack s) = calls_made s"
  "calls_made (unsupported_command b s) = calls_made s"
  by (auto simp: command_defs calls_made_def Let_def split: sum.splits prod.splits)

text \<open>What the handlers leave alone.\<close>

lemma commands_frame [simp]:
  "limiter (set_frequency d p s) = limiter s" "limiter (set_sample_rate d p s) = limiter s"
  "limiter (set_gain_mode d p s) = limiter s" "limiter (set_tuner_gain d p s) = limiter s"
  "limiter (set_ppm d p s) = limiter s" "limiter (set_agc d p s) = limiter s"
  "limiter (chain_ack s) = limiter s" "limiter (unsupported_command b s) = limiter s"
  "stream (set_frequency d p s) = stream s" "stream (set_sample_rate d p s) = stream s"
  "stream (set_gain_mode d p s) = stream s" "stream (set_tuner_gain d p s) = stream s"
  "stream (set_ppm d p s) = stream s" "stream (set_agc d p s) = stream s"
  "stream (unsupported_command b s) = stream s" "rx (stream (chain_ack s)) = rx (stream s)"
  by (auto simp: command_defs Let_def tcp_write_all_def split: sum.splits prod.splits)

end
