(* ===== verification/Encryption.thy ===== *)
theory Encryption
  imports Tcp_Stream
begin

text \<open>
  The encryption module (\<open>src/encryption.rs\<close>). The cipher is the \<open>chacha20\<close> crate's:
  its constructor \<open>cipher_new\<close> and \<open>apply_keystream\<close> are arguments, and the locale
  \<open>stream_cipher\<close> names what the crate documents of the latter. The source of randomness
  of the nonces is an argument as well. The wrappers are functions of the wrapped reader or
  writer, as the generic structs of the source are.
\<close>

section \<open>The wrappers\<close>

record ('w, 'c) encrypted_writer =
  ew_inner :: 'w
  ew_cipher :: 'c

definition encrypted_writer_new ::
  "(bytes \<Rightarrow> bytes \<Rightarrow> 'c) \<Rightarrow> 'w \<Rightarrow> bytes \<Rightarrow> bytes \<Rightarrow> ('w, 'c) encrypted_writer" where
  "encrypted_writer_new cipher_new inner key nonce =
     \<lparr>ew_inner = inner, ew_cipher = cipher_new key nonce\<rparr>"

definition encrypted_write ::
  "('c \<Rightarrow> bytes \<Rightarrow> bytes \<times> 'c) \<Rightarrow> 'w write_fn \<Rightarrow> ('w, 'c) encrypted_writer write_fn" where
  "encrypted_write apply_keystream wr buf w =
     (case apply_keystream (ew_cipher w) buf of
        (encrypted, cipher') \<Rightarrow>
          (case wr encrypted (ew_inner w) of
             (r, inner') \<Rightarrow> (r, w\<lparr>ew_inner := inner', ew_cipher := cipher'\<rparr>)))"

definition encrypted_flush ::
  "('w \<Rightarrow> (io_error + unit) \<times> 'w) \<Rightarrow> ('w, 'c) encrypted_writer \<Rightarrow>
   (io_error + unit) \<times> ('w, 'c) encrypted_writer" where
  "encrypted_flush fl w =
     (case fl (ew_inner w) of (r, inner') \<Rightarrow> (r, w\<lparr>ew_inner := inner'\<rparr>))"

record ('r, 'c) encrypted_reader =
  er_inner :: 'r
  er_cipher :: 'c

definition encrypted_reader_new ::
  "(bytes \<Rightarrow> bytes \<Rightarrow> 'c) \<Rightarrow> 'r \<Rightarrow> bytes \<Rightarrow> bytes \<Rightarrow> ('r, 'c) encrypted_reader" where
  "encrypted_reader_new cipher_new inner key nonce =
     \<lparr>er_inner = inner, er_cipher = cipher_new key nonce\<rparr>"

definition encrypted_read ::
  "('c \<Rightarrow> bytes \<Rightarrow> bytes \<times> 'c) \<Rightarrow> 'r read_fn \<Rightarrow> ('r, 'c) encrypted_reader read_fn" where
  "encrypted_read apply_keystream rd n r =
     (case rd n (er_inner r) of
        (Inl e, inner') \<Rightarrow> (Inl e, r\<lparr>er_inner := inner'\<rparr>)
      | (Inr bs, inner') \<Rightarrow>
          (case apply_keystream (er_cipher r) bs of
             (plain, cipher') \<Rightarrow> (Inr plain, r\<lparr>er_inner := inner', er_cipher := cipher'\<rparr>)))"

section \<open>Nonces\<close>

text \<open>\<open>fill n\<close> is the random generator filling a buffer of \<open>n\<close> bytes.\<close>

definition generate_nonce :: "(nat \<Rightarrow> bytes) \<Rightarrow> bytes" where
  "generate_nonce fill = fill 12"

definition nonce_exchange ::
  "'s read_fn \<Rightarrow> 's write_fn \<Rightarrow> (nat \<Rightarrow> bytes) \<Rightarrow> bytes \<Rightarrow> ('s, bytes \<times> bytes) io" where
  "nonce_exchange rd wr fill key =
     (let my_nonce = generate_nonce fill
      in io_bind (write_all wr my_nonce)
           (\<lambda>_. io_bind (read_exact rd 12)
             (\<lambda>peer_nonce. io_return (my_nonce, peer_nonce))))"

definition server_nonce_exchange ::
  "'s read_fn \<Rightarrow> 's write_fn \<Rightarrow> (nat \<Rightarrow> bytes) \<Rightarrow> bytes \<Rightarrow> ('s, bytes \<times> bytes) io" where
  "server_nonce_exchange rd wr fill key =
     io_bind (read_exact rd 12)
       (\<lambda>peer_nonce.
          let my_nonce = generate_nonce fill
          in io_bind (write_all wr my_nonce) (\<lambda>_. io_return (my_nonce, peer_nonce)))"

section \<open>Keystream ciphers\<close>

text \<open>
  The general form of a synchronous stream cipher: a keystream and a position in it. The
  keystream itself (a function of key and nonce) stays an argument.
\<close>

definition ks_new :: "(bytes \<Rightarrow> bytes \<Rightarrow> nat \<Rightarrow> u8) \<Rightarrow> bytes \<Rightarrow> bytes \<Rightarrow> (nat \<Rightarrow> u8) \<times> nat" where
  "ks_new keystream key nonce = (keystream key nonce, 0)"

fun ks_xor :: "(nat \<Rightarrow> u8) \<Rightarrow> nat \<Rightarrow> bytes \<Rightarrow> bytes" where
  "ks_xor f p [] = []"
| "ks_xor f p (b # bs) = (b XOR f p) # ks_xor f (Suc p) bs"

definition ks_apply :: "(nat \<Rightarrow> u8) \<times> nat \<Rightarrow> bytes \<Rightarrow> bytes \<times> ((nat \<Rightarrow> u8) \<times> nat)" where
  "ks_apply c bs = (ks_xor (fst c) (snd c) bs, (fst c, snd c + length bs))"

section \<open>What the program relies on\<close>

text \<open>
  \<open>StreamCipher::apply_keystream\<close> combines the buffer with the next bytes of the
  keystream by exclusive or: it keeps the length, it may be applied piecewise, the state it
  leaves depends on the number of bytes only and is the old one for no bytes, and applying the same keystream twice gives
  the buffer back.
\<close>

locale stream_cipher =
  fixes apply_keystream :: "'c \<Rightarrow> bytes \<Rightarrow> bytes \<times> 'c"
  assumes apply_length: "length (fst (apply_keystream c xs)) = length xs"
    and apply_append: "apply_keystream c (xs @ ys) =
      (fst (apply_keystream c xs) @ fst (apply_keystream (snd (apply_keystream c xs)) ys),
       snd (apply_keystream (snd (apply_keystream c xs)) ys))"
    and apply_twice: "fst (apply_keystream c (fst (apply_keystream c xs))) = xs"
    and apply_position: "length xs = length ys \<Longrightarrow>
      snd (apply_keystream c xs) = snd (apply_keystream c ys)"
    and apply_nothing: "snd (apply_keystream c []) = c"
begin

text \<open>The coded form of a byte sequence, and the cipher state so many bytes later.\<close>

definition crypt :: "'c \<Rightarrow> bytes \<Rightarrow> bytes" where
  "crypt c xs = fst (apply_keystream c xs)"

definition after :: "'c \<Rightarrow> nat \<Rightarrow> 'c" where
  "after c n = snd (apply_keystream c (replicate n 0))"

lemma apply_eq: "apply_keystream c xs = (crypt c xs, after c (length xs))"
  using apply_position [of xs "replicate (length xs) 0" c]
  by (simp add: crypt_def after_def prod_eq_iff)

lemma length_crypt [simp]: "length (crypt c xs) = length xs"
  by (simp add: crypt_def apply_length)

lemma crypt_crypt [simp]: "crypt c (crypt c xs) = xs"
  by (simp add: crypt_def apply_twice)

lemma crypt_append: "crypt c (xs @ ys) = crypt c xs @ crypt (after c (length xs)) ys"
  using apply_append [of c xs ys] by (simp add: apply_eq)

lemma after_add [simp]: "after (after c m) n = after c (m + n)"
  using apply_append [of c "replicate m 0" "replicate n 0"]
  by (simp add: apply_eq)

lemma crypt_Nil [simp]: "crypt c [] = []"
  by (metis length_0_conv length_crypt)

lemma after_0 [simp]: "after c 0 = c"
  by (simp add: after_def apply_nothing)

lemma crypt_Nil_iff [simp]: "crypt c xs = [] \<longleftrightarrow> xs = []"
  by (metis length_0_conv length_crypt)

lemma crypt_take: "n \<le> length xs \<Longrightarrow> take n (crypt c xs) = crypt c (take n xs)"
  using crypt_append [of c "take n xs" "drop n xs"] by simp

text \<open>A byte sequence under an optional cipher, and the cipher after so many bytes.\<close>

definition coded :: "'c option \<Rightarrow> bytes \<Rightarrow> bytes" where
  "coded oc xs = (case oc of None \<Rightarrow> xs | Some c \<Rightarrow> crypt c xs)"

definition advance :: "nat \<Rightarrow> 'c option \<Rightarrow> 'c option" where
  "advance n oc = map_option (\<lambda>c. after c n) oc"

lemma coded_append: "coded oc (xs @ ys) = coded oc xs @ coded (advance (length xs) oc) ys"
  by (simp add: coded_def advance_def crypt_append split: option.splits)

lemma length_coded [simp]: "length (coded oc xs) = length xs"
  by (simp add: coded_def split: option.splits)

lemma coded_coded [simp]: "coded oc (coded oc xs) = xs"
  by (simp add: coded_def split: option.splits)

lemma coded_Nil [simp]: "coded oc [] = []"
  by (simp add: coded_def split: option.splits)

lemma advance_add: "advance n (advance m c) = advance (m + n) c"
  by (simp add: advance_def option.map_comp comp_def)

lemma advance_0 [simp]: "advance 0 c = c"
  by (cases c) (simp_all add: advance_def)

end

interpretation ks: stream_cipher ks_apply
proof unfold_locales
  have len: "length (ks_xor f p xs) = length xs" for f p and xs :: bytes
    by (induction xs arbitrary: p) auto
  have app: "ks_xor f p (xs @ ys) = ks_xor f p xs @ ks_xor f (p + length xs) ys"
    for f p and xs ys :: bytes
    by (induction xs arbitrary: p) auto
  have inv: "ks_xor f p (ks_xor f p xs) = xs" for f p and xs :: bytes
    by (induction xs arbitrary: p) (auto simp: xor.assoc)
  fix c :: "(nat \<Rightarrow> u8) \<times> nat" and xs ys
  show "length (fst (ks_apply c xs)) = length xs" by (simp add: ks_apply_def len)
  show "ks_apply c (xs @ ys) =
      (fst (ks_apply c xs) @ fst (ks_apply (snd (ks_apply c xs)) ys),
       snd (ks_apply (snd (ks_apply c xs)) ys))"
    by (simp add: ks_apply_def app)
  show "fst (ks_apply c (fst (ks_apply c xs))) = xs" by (simp add: ks_apply_def inv)
  show "length xs = length ys \<Longrightarrow> snd (ks_apply c xs) = snd (ks_apply c ys)"
    by (simp add: ks_apply_def)
  show "snd (ks_apply c []) = c" by (simp add: ks_apply_def)
qed

section \<open>The wrappers are readers and writers\<close>

text \<open>
  A cipher together with any well-behaved reader and writer: the wrappers then satisfy the
  same interfaces, so \<open>read_exact\<close> and \<open>write_all\<close> over them return.
\<close>

locale encrypted_link =
  stream_cipher apply_keystream + io_writer wr slack + io_reader rd left
  for apply_keystream :: "'c \<Rightarrow> bytes \<Rightarrow> bytes \<times> 'c"
    and wr :: "'s write_fn" and slack :: "'s \<Rightarrow> nat"
    and rd :: "'s read_fn" and left :: "'s \<Rightarrow> nat"

sublocale encrypted_link \<subseteq> ew: io_writer "encrypted_write apply_keystream wr" "\<lambda>w. slack (ew_inner w)"
  by unfold_locales
    (fastforce simp: encrypted_write_def apply_eq
      dest: write_fits write_error_progress write_keeps_slack split: prod.splits)+

sublocale encrypted_link \<subseteq> er: io_reader "encrypted_read apply_keystream rd" "\<lambda>r. left (er_inner r)"
  by unfold_locales
    (fastforce simp: encrypted_read_def apply_eq
      dest: read_fits read_error_progress read_bytes_progress split: prod.splits sum.splits)+

interpretation ks_tcp: encrypted_link ks_apply
  tcp_write "\<lambda>s. length (tx_script s)" tcp_read "\<lambda>s. script_size (rx s)"
  by unfold_locales

section \<open>Encrypted TCP\<close>

context stream_cipher
begin

text \<open>
  As long as the socket takes every buffer whole, writing through the wrapper puts the
  coded bytes on the wire and the cipher advances with them.
\<close>

lemma encrypted_write_all_whole:
  assumes "tx_script (ew_inner w) = []"
  shows "write_all (encrypted_write apply_keystream tcp_write) buf w =
    Some (Inr (), w\<lparr>ew_inner := (ew_inner w)\<lparr>tx := tx (ew_inner w) @ crypt (ew_cipher w) buf\<rparr>,
                     ew_cipher := after (ew_cipher w) (length buf)\<rparr>)"
proof (cases "buf = []")
  case False
  with assms show ?thesis
    by (simp add: write_all_step encrypted_write_def apply_eq tcp_write_def)
qed simp

text \<open>
  When the socket takes only the first bytes of a buffer, the wrapper has already advanced
  the cipher over the whole of it: the rest is coded with a later part of the keystream.
\<close>

lemma encrypted_write_all_short:
  assumes "tx_script (ew_inner w) = [Accept k]" and "0 < k" and "k < length buf"
  shows "write_all (encrypted_write apply_keystream tcp_write) buf w =
    Some (Inr (), w\<lparr>ew_inner := (ew_inner w)\<lparr>tx := tx (ew_inner w) @
        crypt (ew_cipher w) (take k buf) @
        crypt (after (ew_cipher w) (length buf)) (drop k buf), tx_script := []\<rparr>,
      ew_cipher := after (ew_cipher w) (length buf + (length buf - k))\<rparr>)"
proof -
  have "buf \<noteq> []" using assms(3) by auto
  moreover have "min k (length buf) = k" using assms(3) by simp
  ultimately show ?thesis
    using assms
    by (simp add: write_all_step encrypted_write_def apply_eq tcp_write_def crypt_take
        encrypted_write_all_whole [unfolded encrypted_write_def [abs_def]])
qed

text \<open>
  Reading through the wrapper decodes the bytes of the wire, however the network batched
  them.
\<close>

lemma encrypted_read_exact_loop:
  assumes "fault_free (rx (er_inner r))" and "n \<le> length (stream_bytes (rx (er_inner r)))"
  shows "\<exists>es. read_exact_loop (encrypted_read apply_keystream tcp_read) n acc r =
      Some (Inr (acc @ crypt (er_cipher r) (take n (stream_bytes (rx (er_inner r))))),
        r\<lparr>er_inner := (er_inner r)\<lparr>rx := es\<rparr>, er_cipher := after (er_cipher r) n\<rparr>) \<and>
    fault_free es \<and> stream_bytes es = drop n (stream_bytes (rx (er_inner r)))"
  using assms
proof (induction "rx (er_inner r)" arbitrary: n acc r)
  case Nil
  then show ?case by (auto intro!: exI [of _ "[]"])
next
  case (Cons ev es)
  note rx = Cons.hyps(2) [symmetric]
  then obtain bs where ev: "ev = Data bs" using Cons.prems(1) by (cases ev) auto
  show ?case
  proof (cases "n = 0")
    case True
    then show ?thesis using Cons.prems by (auto intro!: exI [of _ "rx (er_inner r)"])
  next
    case n: False
    show ?thesis
    proof (cases "bs = []")
      case True
      let ?r = "r\<lparr>er_inner := (er_inner r)\<lparr>rx := es\<rparr>\<rparr>"
      have "tcp_read n (er_inner r) = tcp_read n (er_inner ?r)"
        using rx ev True by (simp add: tcp_read_def)
      then have "encrypted_read apply_keystream tcp_read n r =
          encrypted_read apply_keystream tcp_read n ?r"
        by (simp add: encrypted_read_def split: prod.splits sum.splits)
      then have "read_exact_loop (encrypted_read apply_keystream tcp_read) n acc r =
          read_exact_loop (encrypted_read apply_keystream tcp_read) n acc ?r"
        using n by (subst (1 2) read_exact_loop.simps) simp
      with Cons.hyps(1) [of ?r n acc] Cons.prems rx ev True show ?thesis by auto
    next
      case ne: False
      show ?thesis
      proof (cases "length bs \<le> n")
        case True
        let ?r = "r\<lparr>er_inner := (er_inner r)\<lparr>rx := es\<rparr>, er_cipher := after (er_cipher r) (length bs)\<rparr>"
        have "read_exact_loop (encrypted_read apply_keystream tcp_read) n acc r =
            read_exact_loop (encrypted_read apply_keystream tcp_read) (n - length bs)
              (acc @ crypt (er_cipher r) bs) ?r"
          using rx ev n ne True
          by (subst read_exact_loop.simps) (simp add: encrypted_read_def tcp_read_def apply_eq)
        with Cons.hyps(1) [of ?r "n - length bs" "acc @ crypt (er_cipher r) bs"]
          Cons.prems rx ev True show ?thesis
          by (auto simp: crypt_append)
      next
        case False
        then show ?thesis
          using rx ev n ne Cons.prems
          by (subst read_exact_loop.simps)
            (auto simp: encrypted_read_def tcp_read_def apply_eq
              intro!: exI [of _ "Data (drop n bs) # es"])
      qed
    qed
  qed
qed

lemma encrypted_read_to_end_loop:
  assumes "fault_free (rx (er_inner r))" and "\<And>k. 0 < room k"
  shows "\<exists>r'. read_to_end_loop (encrypted_read apply_keystream tcp_read) room k acc r =
      Some (Inr (acc @ crypt (er_cipher r) (stream_bytes (rx (er_inner r)))), r')"
  using assms(1)
proof (induction "script_size (rx (er_inner r))" arbitrary: k acc r rule: less_induct)
  case less
  from read_events_fault_free [OF less.prems assms(2), of k] obtain bs es where
    ev: "read_events (room k) (rx (er_inner r)) = (Inr bs, es)" "fault_free es"
      "stream_bytes (rx (er_inner r)) = bs @ stream_bytes es" "bs = [] \<longrightarrow> stream_bytes (rx (er_inner r)) = []" by blast
  let ?r = "r\<lparr>er_inner := (er_inner r)\<lparr>rx := es\<rparr>, er_cipher := after (er_cipher r) (length bs)\<rparr>"
  have step: "encrypted_read apply_keystream tcp_read (room k) r = (Inr (crypt (er_cipher r) bs), ?r)"
    using ev(1) by (simp add: encrypted_read_def tcp_read_def apply_eq)
  show ?case
  proof (cases "bs = []")
    case True
    with ev(3,4) step show ?thesis by (subst read_to_end_loop.simps) simp
  next
    case False
    with read_events_bytes [OF ev(1)] have "script_size (rx (er_inner ?r)) < script_size (rx (er_inner r))"
      by (cases bs) auto
    from less.hyps [OF this, of "Suc k" "acc @ crypt (er_cipher r) bs"] ev(2,3) step False show ?thesis
      by (subst read_to_end_loop.simps) (simp add: crypt_append)
  qed
qed

end

section \<open>The nonce exchange\<close>

lemma nonce_exchange_ok:
  assumes "tx_script s = []" and "fault_free (rx s)"
    and "stream_bytes (rx s) = peer @ rest" and "length peer = 12"
  shows "\<exists>es. nonce_exchange tcp_read tcp_write fill key s =
      Some (Inr (fill 12, peer), s\<lparr>tx := tx s @ fill 12, rx := es\<rparr>) \<and>
    fault_free es \<and> stream_bytes es = rest"
  using tcp_read_exact_fault_free [of "s\<lparr>tx := tx s @ fill 12\<rparr>" 12] assms
  by (auto simp: nonce_exchange_def generate_nonce_def Let_def io_simps)

lemma server_nonce_exchange_ok:
  assumes "tx_script s = []" and "fault_free (rx s)"
    and "stream_bytes (rx s) = peer @ rest" and "length peer = 12"
  shows "\<exists>es. server_nonce_exchange tcp_read tcp_write fill key s =
      Some (Inr (fill 12, peer), s\<lparr>rx := es, tx := tx s @ fill 12\<rparr>) \<and>
    fault_free es \<and> stream_bytes es = rest"
  using tcp_read_exact_fault_free [of s 12] assms
  by (auto simp: server_nonce_exchange_def generate_nonce_def Let_def io_simps io_bind_def)

lemma server_nonce_exchange_total:
  "server_nonce_exchange tcp_read tcp_write fill key s \<noteq> None"
  unfolding server_nonce_exchange_def Let_def
  by (intro io_total tcp_rd.read_exact_total tcp_wr.write_all_total)

lemma nonce_exchange_total: "nonce_exchange tcp_read tcp_write fill key s \<noteq> None"
  unfolding nonce_exchange_def Let_def
  by (intro io_total tcp_rd.read_exact_total tcp_wr.write_all_total)

lemma server_nonce_exchange_size:
  assumes "server_nonce_exchange tcp_read tcp_write fill key s = Some (r, s')"
  shows "script_size (rx s') \<le> script_size (rx s)"
proof -
  obtain res s1 where s1: "tcp_read_exact 12 s = (res, s1)" by (cases "tcp_read_exact 12 s")
  have "rx s' = rx s1"
  proof (cases res)
    case (Inl e)
    with s1 assms show ?thesis
      by (simp add: server_nonce_exchange_def io_bind_def read_exact_tcp)
  next
    case (Inr peer)
    obtain res2 s2 where s2: "tcp_write_all (generate_nonce fill) s1 = (res2, s2)"
      by (cases "tcp_write_all (generate_nonce fill) s1")
    have "s' = s2"
      using s1 s2 Inr assms
      by (cases res2)
        (auto simp: server_nonce_exchange_def io_bind_def io_simps Let_def)
    with s2 tcp_write_all_rx [of "generate_nonce fill" s1] show ?thesis by simp
  qed
  with tcp_read_exact_frame [OF s1] show ?thesis by simp
qed

section \<open>Properties\<close>

text \<open>
  C21. What an \<open>EncryptedWriter\<close> sends over a socket that takes every buffer whole, an
  \<open>EncryptedReader\<close> with the same key and nonce reads back unchanged, for any number
  of writes and however the network batches the bytes. The cipher is any one that behaves
  as the crate documents.
\<close>

theorem encrypted_round_trip:
  assumes "stream_cipher apply_keystream"
    and "tx_script s = []" and "tx s = []"
    and "fault_free (rx r)" and "stream_bytes (rx r) = tx (ew_inner w2)"
    and "write_all (encrypted_write apply_keystream tcp_write) xs
           (encrypted_writer_new cipher_new s key nonce) = Some (Inr (), w1)"
    and "write_all (encrypted_write apply_keystream tcp_write) ys w1 = Some (Inr (), w2)"
  shows "\<exists>r'. read_exact (encrypted_read apply_keystream tcp_read) (length (xs @ ys))
      (encrypted_reader_new cipher_new r key nonce) = Some (Inr (xs @ ys), r')"
proof -
  note c = assms(1)
  let ?c = "cipher_new key nonce"
  note whole = stream_cipher.encrypted_write_all_whole [OF c]
  have w1: "w1 = \<lparr>ew_inner = s\<lparr>tx := stream_cipher.crypt apply_keystream ?c xs\<rparr>,
      ew_cipher = stream_cipher.after apply_keystream ?c (length xs)\<rparr>"
    using assms(2,3,6) by (simp add: whole encrypted_writer_new_def)
  have tx: "tx (ew_inner w2) = stream_cipher.crypt apply_keystream ?c (xs @ ys)"
    using assms(2,3,7) whole [of w1 ys] w1
    by (auto simp: stream_cipher.crypt_append [OF c])
  from stream_cipher.encrypted_read_exact_loop [OF c,
      of "encrypted_reader_new cipher_new r key nonce" "length (xs @ ys)" "[]"]
  show ?thesis
    using assms(4,5) tx
    by (auto simp: read_exact_def encrypted_reader_new_def stream_cipher.crypt_crypt [OF c]
        stream_cipher.length_crypt [OF c])
qed

text \<open>The witnesses use the keystream that counts: its byte at a position is the position.\<close>

theorem encrypted_round_trip_witness:
  "\<exists>w1 w2 r'.
     write_all (encrypted_write ks_apply tcp_write) [1, 2, 3]
       (encrypted_writer_new (ks_new (\<lambda>_ _ p. of_nat p)) (fresh_tcp []) [9] [7]) = Some (Inr (), w1) \<and>
     write_all (encrypted_write ks_apply tcp_write) [4, 5] w1 = Some (Inr (), w2) \<and>
     read_exact (encrypted_read ks_apply tcp_read) 5
       (encrypted_reader_new (ks_new (\<lambda>_ _ p. of_nat p)) (fresh_tcp [Data (tx (ew_inner w2))]) [9] [7]) =
       Some (Inr [1, 2, 3, 4, 5], r')"
proof -
  let ?cn = "ks_new (\<lambda>_ _ p. of_nat p)"
  let ?w = "encrypted_writer_new ?cn (fresh_tcp []) [9] [7]"
  have "tx_script (ew_inner ?w) = []" by (simp add: encrypted_writer_new_def)
  from ks.encrypted_write_all_whole [OF this, of "[1, 2, 3]"] obtain w1 where
    w1: "write_all (encrypted_write ks_apply tcp_write) [1, 2, 3] ?w = Some (Inr (), w1)"
      "tx_script (ew_inner w1) = []"
    by (simp add: encrypted_writer_new_def)
  from ks.encrypted_write_all_whole [OF w1(2), of "[4, 5]"] obtain w2 where
    w2: "write_all (encrypted_write ks_apply tcp_write) [4, 5] w1 = Some (Inr (), w2)" by blast
  from encrypted_round_trip [OF ks.stream_cipher_axioms, where s = "fresh_tcp []" and xs = "[1, 2, 3]"
      and ys = "[4, 5]" and r = "fresh_tcp [Data (tx (ew_inner w2))]", OF _ _ _ _ w1(1) w2] w1(1) w2
  show ?thesis by (auto simp: numeral_eq_Suc)
qed

text \<open>
  C32. When the socket takes only part of a buffer, the link is garbled: \<open>EncryptedWriter\<close>
  has already run the cipher over the whole buffer when the rest is written again, so the
  rest is encrypted with a later part of the keystream than the one the reader decrypts it
  with. The reader gets the first part right and the rest combined with two different parts
  of the keystream.
\<close>

theorem short_write_garbles:
  assumes "stream_cipher apply_keystream"
    and "tx_script s = [Accept k]" and "tx s = []" and "0 < k" and "k < length buf"
    and "write_all (encrypted_write apply_keystream tcp_write) buf
           (encrypted_writer_new cipher_new s key nonce) = Some (Inr (), w)"
    and "fault_free (rx r)" and "stream_bytes (rx r) = tx (ew_inner w)"
  shows "\<exists>r'. read_exact (encrypted_read apply_keystream tcp_read) (length buf)
      (encrypted_reader_new cipher_new r key nonce) =
    Some (Inr (take k buf @
      fst (apply_keystream (snd (apply_keystream (cipher_new key nonce) (take k buf)))
        (fst (apply_keystream (snd (apply_keystream (cipher_new key nonce) buf)) (drop k buf))))), r')"
proof -
  note c = assms(1)
  let ?c = "cipher_new key nonce"
  have tx: "tx (ew_inner w) = stream_cipher.crypt apply_keystream ?c (take k buf) @
      stream_cipher.crypt apply_keystream (stream_cipher.after apply_keystream ?c (length buf)) (drop k buf)"
    using stream_cipher.encrypted_write_all_short [OF c, of "encrypted_writer_new cipher_new s key nonce" k buf]
      assms(2-6)
    by (auto simp: encrypted_writer_new_def)
  have len: "length (tx (ew_inner w)) = length buf"
    using assms(5) by (simp add: tx stream_cipher.length_crypt [OF c])
  from stream_cipher.encrypted_read_exact_loop [OF c,
      of "encrypted_reader_new cipher_new r key nonce" "length buf" "[]"]
  show ?thesis
    using assms(5,7,8) tx len
    by (auto simp: read_exact_def encrypted_reader_new_def stream_cipher.crypt_append [OF c]
        stream_cipher.length_crypt [OF c] stream_cipher.crypt_crypt [OF c] stream_cipher.apply_eq [OF c])
qed

theorem short_write_garbles_witness:
  "\<exists>w r'. write_all (encrypted_write ks_apply tcp_write) [1, 2, 3, 4]
       (encrypted_writer_new (ks_new (\<lambda>_ _ p. of_nat p)) ((fresh_tcp [])\<lparr>tx_script := [Accept 3]\<rparr>) [9] [7]) =
       Some (Inr (), w) \<and>
     read_exact (encrypted_read ks_apply tcp_read) 4
       (encrypted_reader_new (ks_new (\<lambda>_ _ p. of_nat p)) (fresh_tcp [Data (tx (ew_inner w))]) [9] [7]) =
       Some (Inr [1, 2, 3, 3], r')"
proof -
  let ?cn = "ks_new (\<lambda>_ _ p. of_nat p)"
  let ?s = "(fresh_tcp [])\<lparr>tx_script := [Accept 3]\<rparr>"
  obtain w where w: "write_all (encrypted_write ks_apply tcp_write) [1, 2, 3, 4]
      (encrypted_writer_new ?cn ?s [9] [7]) = Some (Inr (), w)"
    using ks.encrypted_write_all_short [of "encrypted_writer_new ?cn ?s [9] [7]" 3 "[1, 2, 3, 4]"]
    by (simp add: encrypted_writer_new_def)
  have dec: "take 3 [1, 2, 3, 4] @
      fst (ks_apply (snd (ks_apply (?cn [9] [7]) (take 3 [1, 2, 3, 4])))
        (fst (ks_apply (snd (ks_apply (?cn [9] [7]) [1, 2, 3, 4])) (drop 3 [1, 2, 3, 4])))) =
      [1, 2, 3, 3 :: u8]"
    by (simp add: ks_apply_def ks_new_def)
  from short_write_garbles [OF ks.stream_cipher_axioms, where s = ?s and k = 3 and buf = "[1, 2, 3, 4]"
      and r = "fresh_tcp [Data (tx (ew_inner w))]" and cipher_new = ?cn and key = "[9]" and nonce = "[7]",
      OF _ _ _ _ w] w
  show ?thesis unfolding dec by (auto simp: numeral_eq_Suc)
qed

text \<open>
  The two sides of a nonce exchange agree: when each reads what the other sends, the
  client's own nonce is the server's peer nonce and the other way round, so the cipher each
  side writes with is the one the other side reads with, and nothing that follows the nonces
  is lost.
\<close>

lemma nonce_exchange_agrees:
  assumes "tx_script c = []" and "fault_free (rx c)" and "stream_bytes (rx c) = fill_s 12 @ rest_c"
    and "tx_script s = []" and "fault_free (rx s)" and "stream_bytes (rx s) = fill_c 12 @ rest_s"
    and "length (fill_c 12) = 12" and "length (fill_s 12) = 12"
  shows "\<exists>c' s'. nonce_exchange tcp_read tcp_write fill_c key c = Some (Inr (fill_c 12, fill_s 12), c') \<and>
    server_nonce_exchange tcp_read tcp_write fill_s key s = Some (Inr (fill_s 12, fill_c 12), s') \<and>
    tx c' = tx c @ fill_c 12 \<and> tx s' = tx s @ fill_s 12 \<and>
    stream_bytes (rx c') = rest_c \<and> stream_bytes (rx s') = rest_s"
proof -
  from nonce_exchange_ok [OF assms(1,2,3,8), of fill_c key] obtain es where
    "nonce_exchange tcp_read tcp_write fill_c key c =
      Some (Inr (fill_c 12, fill_s 12), c\<lparr>tx := tx c @ fill_c 12, rx := es\<rparr>)" "stream_bytes es = rest_c"
    by blast
  moreover from server_nonce_exchange_ok [OF assms(4,5,6,7), of fill_s key] obtain es' where
    "server_nonce_exchange tcp_read tcp_write fill_s key s =
      Some (Inr (fill_s 12, fill_c 12), s\<lparr>rx := es', tx := tx s @ fill_s 12\<rparr>)" "stream_bytes es' = rest_s"
    by blast
  ultimately show ?thesis by auto
qed

lemma nonce_exchange_agrees_witness:
  "\<exists>c' s'. nonce_exchange tcp_read tcp_write (\<lambda>n. replicate n 1) [9] (fresh_tcp [Data (replicate 12 2), Data [5]]) =
      Some (Inr (replicate 12 1, replicate 12 2), c') \<and>
    server_nonce_exchange tcp_read tcp_write (\<lambda>n. replicate n 2) [9] (fresh_tcp [Data (replicate 12 1)]) =
      Some (Inr (replicate 12 2, replicate 12 1), s') \<and>
    tx c' = replicate 12 1 \<and> tx s' = replicate 12 2 \<and>
    stream_bytes (rx c') = [5] \<and> stream_bytes (rx s') = []"
  using nonce_exchange_agrees [of "fresh_tcp [Data (replicate 12 2), Data [5]]" "\<lambda>n. replicate n 2" "[5]"
      "fresh_tcp [Data (replicate 12 1)]" "\<lambda>n. replicate n 1" "[]" "[9]"]
  by simp

end
