(* ===== verification/Control_Threads.thy ===== *)
theory Control_Threads
  imports Device_Control Encryption
begin

text \<open>
  The two control threads of the serve modes (\<open>src/main.rs\<close>): the closure of
  \<open>run_serve_single\<close> and \<open>spawn_master_control_thread\<close>, which adds the encrypted
  chain. A round of the loop reads one command, checks the exit flag and the rate limiter
  and dispatches; the loop runs over a list of what its rounds read from outside, and is
  still running when the list is exhausted.
\<close>

section \<open>Single-client serve mode\<close>

definition single_dispatch ::
  "(dev_call list \<Rightarrow> dev_call \<Rightarrow> bool) \<Rightarrow> bytes \<Rightarrow> 'a ctl_state_scheme \<Rightarrow> 'a ctl_state_scheme" where
  "single_dispatch dev_ok buf s =
     (let cmd = buf ! 0;
          payload = [buf ! 1, buf ! 2, buf ! 3, buf ! 4]
      in if cmd = CMD_SET_FREQUENCY then set_frequency dev_ok payload s
         else if cmd = CMD_SET_SAMPLE_RATE then set_sample_rate dev_ok payload s
         else if cmd = CMD_SET_GAIN_MODE then set_gain_mode dev_ok payload s
         else if cmd = CMD_SET_TUNER_GAIN then set_tuner_gain dev_ok payload s
         else if cmd = CMD_SET_PPM then set_ppm dev_ok payload s
         else if cmd = CMD_SET_AGC then set_agc dev_ok payload s
         else if cmd = CMD_CHAIN_DETECT then chain_ack s
         else unsupported_command buf s)"

definition single_round ::
  "(dev_call list \<Rightarrow> dev_call \<Rightarrow> bool) \<Rightarrow> 'r round_scheme \<Rightarrow> ctl_state \<Rightarrow> flow \<times> ctl_state" where
  "single_round dev_ok r s0 =
     (case tcp_read_exact COMMAND_HEADER_SIZE (stream s0) of
        (res, st) \<Rightarrow>
          let s = s0\<lparr>stream := st\<rparr>
          in case res of
               Inl e \<Rightarrow>
                 if err_kind e = WouldBlock \<or> err_kind e = TimedOut then (Continue, s)
                 else if is_disconnect_err e then (Break, add_log (ClientDisconnected e) s)
                 else (Break, add_log (ReadError e) s)
             | Inr buf \<Rightarrow>
                 if should_exit r then (Break, add_log ExitFlagSet s)
                 else (case rate_limiter_check (now r) (limiter s) of
                         (ok, rl) \<Rightarrow>
                           let s' = s\<lparr>limiter := rl\<rparr>
                           in if \<not> ok then (Continue, add_log RateLimited s')
                              else (Continue, single_dispatch dev_ok buf s')))"

fun single_loop ::
  "(dev_call list \<Rightarrow> dev_call \<Rightarrow> bool) \<Rightarrow> 'r round_scheme list \<Rightarrow> ctl_state \<Rightarrow> flow \<times> ctl_state" where
  "single_loop dev_ok [] s = (Continue, s)"
| "single_loop dev_ok (r # rs) s =
     (case single_round dev_ok r s of
        (Break, s') \<Rightarrow> (Break, add_log ControlThreadExiting s')
      | (Continue, s') \<Rightarrow> single_loop dev_ok rs s')"

section \<open>The master of a multi-client server\<close>

record 'c master_state = ctl_state +
  read_cipher :: "'c option"
  write_cipher :: "'c option"
  encryption_nonces :: "(bytes \<times> bytes) option"

text \<open>
  What the thread is given beyond its state: the device, the cipher and the key.
\<close>

record 'c master_env =
  env_dev_ok :: "dev_call list \<Rightarrow> dev_call \<Rightarrow> bool"
  env_cipher_new :: "bytes \<Rightarrow> bytes \<Rightarrow> 'c"
  env_apply_keystream :: "'c \<Rightarrow> bytes \<Rightarrow> bytes \<times> 'c"
  env_key :: "bytes option"

text \<open>
  \<open>spawn_master_control_thread\<close> has its own copy of the command handlers; that the two
  copies agree is \<open>master_handlers\<close> below.
\<close>

definition master_set_frequency ::
  "(dev_call list \<Rightarrow> dev_call \<Rightarrow> bool) \<Rightarrow> bytes \<Rightarrow> 'c master_state \<Rightarrow> 'c master_state" where
  "master_set_frequency dev_ok payload s =
     (let freq = (from_be payload :: u32)
      in case validate_frequency freq of
           Inl e \<Rightarrow> add_log (InvalidFrequency e) s
         | Inr _ \<Rightarrow> call_device dev_ok (SetCenterFreq freq) (add_log (SettingFrequency freq) s))"

definition master_set_sample_rate ::
  "(dev_call list \<Rightarrow> dev_call \<Rightarrow> bool) \<Rightarrow> bytes \<Rightarrow> 'c master_state \<Rightarrow> 'c master_state" where
  "master_set_sample_rate dev_ok payload s =
     (let sample_rate = (from_be payload :: u32)
      in case validate_sample_rate sample_rate of
           Inl e \<Rightarrow> add_log (InvalidSampleRate e) s
         | Inr _ \<Rightarrow>
             call_device dev_ok (SetSampleRate sample_rate) (add_log (SettingSampleRate sample_rate) s))"

definition master_set_gain_mode ::
  "(dev_call list \<Rightarrow> dev_call \<Rightarrow> bool) \<Rightarrow> bytes \<Rightarrow> 'c master_state \<Rightarrow> 'c master_state" where
  "master_set_gain_mode dev_ok payload s =
     (let gain_mode = sint (from_be payload :: i32)
      in if 0 < gain_mode
         then (case agc_disable (agc_st s) of
                 (changed, st) \<Rightarrow>
                   let s' = s\<lparr>agc_st := st\<rparr>
                   in call_device dev_ok DisableAgc (if changed then add_log GainModeManual s' else s'))
         else (case agc_enable (agc_st s) of
                 (changed, st) \<Rightarrow>
                   let s' = s\<lparr>agc_st := st\<rparr>
                   in call_device dev_ok EnableAgc (if changed then add_log GainModeAutomatic s' else s')))"

definition master_set_tuner_gain ::
  "(dev_call list \<Rightarrow> dev_call \<Rightarrow> bool) \<Rightarrow> bytes \<Rightarrow> 'c master_state \<Rightarrow> 'c master_state" where
  "master_set_tuner_gain dev_ok payload s =
     (let gain = (from_be payload :: i32)
      in case validate_tuner_gain gain of
           Inl e \<Rightarrow> add_log (InvalidTunerGain e) s
         | Inr _ \<Rightarrow> call_device dev_ok (SetTunerGain gain) (add_log (SettingTunerGain gain) s))"

definition master_set_ppm ::
  "(dev_call list \<Rightarrow> dev_call \<Rightarrow> bool) \<Rightarrow> bytes \<Rightarrow> 'c master_state \<Rightarrow> 'c master_state" where
  "master_set_ppm dev_ok payload s =
     (let ppm = (from_be payload :: i32)
      in case validate_ppm ppm of
           Inl e \<Rightarrow> add_log (InvalidPpm e) s
         | Inr _ \<Rightarrow> call_device dev_ok (SetPpm ppm) (add_log (SettingPpm ppm) s))"

definition master_set_agc ::
  "(dev_call list \<Rightarrow> dev_call \<Rightarrow> bool) \<Rightarrow> bytes \<Rightarrow> 'c master_state \<Rightarrow> 'c master_state" where
  "master_set_agc dev_ok payload s =
     (let agc = ((from_be payload :: u32) = 1)
      in if agc
         then (case agc_enable (agc_st s) of
                 (changed, st) \<Rightarrow>
                   let s' = s\<lparr>agc_st := st\<rparr>
                   in call_device dev_ok EnableAgc (if changed then add_log AgcOn s' else s'))
         else (case agc_disable (agc_st s) of
                 (changed, st) \<Rightarrow>
                   let s' = s\<lparr>agc_st := st\<rparr>
                   in call_device dev_ok DisableAgc (if changed then add_log AgcOff s' else s')))"

definition master_chain_ack :: "'c master_state \<Rightarrow> 'c master_state" where
  "master_chain_ack s0 =
     (let s = add_log ChainProbe s0
      in case tcp_write_all [CMD_CHAIN_DETECT, 0x00, 0x00, 0x00, 0x00] (stream s) of
           (Inl e, st) \<Rightarrow> add_log (ChainAckFailed e) (s\<lparr>stream := st\<rparr>)
         | (Inr _, st) \<Rightarrow> s\<lparr>stream := st\<rparr>)"

definition master_unsupported :: "bytes \<Rightarrow> 'c master_state \<Rightarrow> 'c master_state" where
  "master_unsupported buf s =
     (let count = unknown_command_count s + 1
      in add_log (UnsupportedCommand buf count) (s\<lparr>unknown_command_count := count\<rparr>))"

lemma master_handlers [simp]:
  "master_set_frequency d p s = set_frequency d p s"
  "master_set_sample_rate d p s = set_sample_rate d p s"
  "master_set_gain_mode d p s = set_gain_mode d p s"
  "master_set_tuner_gain d p s = set_tuner_gain d p s"
  "master_set_ppm d p s = set_ppm d p s"
  "master_set_agc d p s = set_agc d p s"
  "master_chain_ack s = chain_ack s"
  "master_unsupported b s = unsupported_command b s"
  by (simp_all add: master_set_frequency_def master_set_sample_rate_def master_set_gain_mode_def
      master_set_tuner_gain_def master_set_ppm_def master_set_agc_def master_chain_ack_def
      master_unsupported_def set_frequency_def set_sample_rate_def set_gain_mode_def set_tuner_gain_def
      set_ppm_def set_agc_def switch_agc_on_def switch_agc_off_def chain_ack_def unsupported_command_def
      Let_def)

definition master_chain_detect ::
  "'c master_env \<Rightarrow> (nat \<Rightarrow> bytes) \<Rightarrow> 'c master_state \<Rightarrow> 'c master_state option" where
  "master_chain_detect env fill s0 =
     (let s = master_chain_ack s0
      in case env_key env of
           None \<Rightarrow> Some s
         | Some key \<Rightarrow>
             (let s = add_log PerformingHandshake s
              in case server_nonce_exchange tcp_read tcp_write fill key (stream s) of
                   None \<Rightarrow> None
                 | Some (Inr (my_nonce, peer_nonce), st) \<Rightarrow>
                     Some (add_log ChainEstablished
                       (s\<lparr>stream := st,
                          encryption_nonces := Some (my_nonce, peer_nonce),
                          read_cipher := Some (env_cipher_new env key peer_nonce),
                          write_cipher := Some (env_cipher_new env key my_nonce)\<rparr>))
                 | Some (Inl e, st) \<Rightarrow> Some (add_log (HandshakeFailed e) (s\<lparr>stream := st\<rparr>))))"

text \<open>The commands other than the probe, whose handling another thread can see half done.\<close>

definition master_command ::
  "(dev_call list \<Rightarrow> dev_call \<Rightarrow> bool) \<Rightarrow> bytes \<Rightarrow> 'c master_state \<Rightarrow> 'c master_state" where
  "master_command dev_ok buf s =
     (let cmd = buf ! 0;
          payload = [buf ! 1, buf ! 2, buf ! 3, buf ! 4]
      in if cmd = CMD_SET_FREQUENCY then master_set_frequency dev_ok payload s
         else if cmd = CMD_SET_SAMPLE_RATE then master_set_sample_rate dev_ok payload s
         else if cmd = CMD_SET_GAIN_MODE then master_set_gain_mode dev_ok payload s
         else if cmd = CMD_SET_TUNER_GAIN then master_set_tuner_gain dev_ok payload s
         else if cmd = CMD_SET_PPM then master_set_ppm dev_ok payload s
         else if cmd = CMD_SET_AGC then master_set_agc dev_ok payload s
         else master_unsupported buf s)"

definition master_dispatch ::
  "'c master_env \<Rightarrow> (nat \<Rightarrow> bytes) \<Rightarrow> bytes \<Rightarrow> 'c master_state \<Rightarrow> 'c master_state option" where
  "master_dispatch env fill buf s =
     (if buf ! 0 = CMD_CHAIN_DETECT then master_chain_detect env fill s
      else Some (master_command (env_dev_ok env) buf s))"

text \<open>A command is decrypted as soon as it is read, before any check.\<close>

definition decrypt_command ::
  "'c master_env \<Rightarrow> bytes \<Rightarrow> 'c master_state \<Rightarrow> bytes \<times> 'c master_state" where
  "decrypt_command env buf s =
     (case read_cipher s of
        None \<Rightarrow> (buf, s)
      | Some cipher \<Rightarrow>
          (case env_apply_keystream env cipher buf of
             (plain, cipher') \<Rightarrow> (plain, s\<lparr>read_cipher := Some cipher'\<rparr>)))"

definition master_round ::
  "'c master_env \<Rightarrow> master_input \<Rightarrow> 'c master_state \<Rightarrow> (flow \<times> 'c master_state) option" where
  "master_round env r s0 =
     (case tcp_read_exact COMMAND_HEADER_SIZE (stream s0) of
        (res, st) \<Rightarrow>
          let s1 = s0\<lparr>stream := st\<rparr>
          in case res of
               Inl e \<Rightarrow>
                 if err_kind e = WouldBlock \<or> err_kind e = TimedOut then Some (Continue, s1)
                 else if is_disconnect_err e then Some (Break, add_log (ClientDisconnected e) s1)
                 else Some (Break, add_log (ReadError e) s1)
             | Inr raw \<Rightarrow>
                 (case decrypt_command env raw s1 of
                    (buf, s) \<Rightarrow>
                      if should_exit r then Some (Break, add_log ExitFlagSet s)
                      else (case rate_limiter_check (now r) (limiter s) of
                              (ok, rl) \<Rightarrow>
                                let s' = s\<lparr>limiter := rl\<rparr>
                                in if \<not> ok then Some (Continue, add_log RateLimited s')
                                   else map_option (Pair Continue) (master_dispatch env (draw r) buf s'))))"

fun master_loop ::
  "'c master_env \<Rightarrow> master_input list \<Rightarrow> 'c master_state \<Rightarrow> (flow \<times> 'c master_state) option" where
  "master_loop env [] s = Some (Continue, s)"
| "master_loop env (r # rs) s =
     (case master_round env r s of
        None \<Rightarrow> None
      | Some (Break, s') \<Rightarrow> Some (Break, add_log ControlThreadExiting s')
      | Some (Continue, s') \<Rightarrow> master_loop env rs s')"

text \<open>The state and the round the thread starts with, given the clock readings it makes.\<close>

definition master_start ::
  "tcp \<Rightarrow> dev_call list mutex \<Rightarrow> agc_state \<Rightarrow> (bytes \<times> bytes) option \<Rightarrow> nat \<Rightarrow> instant \<Rightarrow> instant \<Rightarrow>
   'c master_state" where
  "master_start st dev agc nonces timeout t t' =
     \<lparr>stream = snd (set_read_timeout timeout st), ctl = dev, agc_st = agc,
      unknown_command_count = 0,
      limiter = rate_limiter_new t t' COMMAND_RATE_LIMIT_INTERVAL,
      log_lines = [], read_cipher = None, write_cipher = None, encryption_nonces = nonces\<rparr>"

section \<open>Dispatch\<close>

lemma single_dispatch_safe: "device_safe s \<Longrightarrow> device_safe (single_dispatch d buf s)"
  by (simp add: single_dispatch_def Let_def commands_safe)

lemma single_dispatch_agc: "agc_tracks s \<Longrightarrow> agc_tracks (single_dispatch d buf s)"
  by (simp add: single_dispatch_def Let_def commands_agc)

lemma single_dispatch_frame [simp]:
  "limiter (single_dispatch d buf s) = limiter s"
  "rx (stream (single_dispatch d buf s)) = rx (stream s)"
  by (simp_all add: single_dispatch_def Let_def)

lemma single_dispatch_calls: "calls_made (single_dispatch d buf s) \<le> Suc (calls_made s)"
  by (simp add: single_dispatch_def Let_def commands_one_call le_SucI)

text \<open>The commands other than the probe are handled as in single-client mode.\<close>

lemma master_command_single:
  "buf ! 0 \<noteq> CMD_CHAIN_DETECT \<Longrightarrow> master_command d buf s = single_dispatch d buf s"
  by (simp add: master_command_def single_dispatch_def Let_def)

lemma master_dispatch_other:
  assumes "buf ! 0 \<noteq> CMD_CHAIN_DETECT"
  shows "master_dispatch env fill buf s = Some (single_dispatch (env_dev_ok env) buf s)"
  using assms by (simp add: master_dispatch_def master_command_single)

text \<open>Without a key so is the probe, on the extended state.\<close>

lemma master_dispatch_plain:
  assumes "env_key env = None"
  shows "master_dispatch env fill buf s = Some (single_dispatch (env_dev_ok env) buf s)"
  using assms
  by (simp add: master_dispatch_def master_command_single single_dispatch_def master_chain_detect_def
      cmd_defs Let_def)

lemma master_chain_detect_total: "master_chain_detect env fill s \<noteq> None"
proof (cases "env_key env")
  case (Some key)
  obtain res st where "server_nonce_exchange tcp_read tcp_write fill key
      (stream (add_log PerformingHandshake (chain_ack s))) = Some (res, st)"
    using server_nonce_exchange_total by fastforce
  with Some show ?thesis
    by (auto simp: master_chain_detect_def Let_def split: sum.splits prod.splits)
qed (simp add: master_chain_detect_def)

lemma master_dispatch_total: "master_dispatch env fill buf s \<noteq> None"
  using master_chain_detect_total [of env fill s] by (auto simp: master_dispatch_def Let_def)

text \<open>What the chain probe changes: the stream, the ciphers and nonces, and the log.\<close>

lemma master_chain_detect_frame:
  assumes "master_chain_detect env fill s = Some s'"
  shows "ctl s' = ctl s" "agc_st s' = agc_st s" "limiter s' = limiter s"
    "script_size (rx (stream s')) \<le> script_size (rx (stream s))"
proof -
  have ack: "ctl (chain_ack s) = ctl s" "agc_st (chain_ack s) = agc_st s"
    by (auto simp: chain_ack_def Let_def split: prod.splits sum.splits)
  from assms ack show "ctl s' = ctl s" "agc_st s' = agc_st s" "limiter s' = limiter s"
    by (auto simp: master_chain_detect_def Let_def
        split: option.splits sum.splits prod.splits)
  from assms show "script_size (rx (stream s')) \<le> script_size (rx (stream s))"
    using commands_frame(16) [of s]
    by (auto simp: master_chain_detect_def Let_def dest!: server_nonce_exchange_size
        split: option.splits sum.splits prod.splits)
qed

lemma master_dispatch_cases:
  assumes "master_dispatch env fill buf s = Some s'"
  obtains "s' = single_dispatch (env_dev_ok env) buf s" | "master_chain_detect env fill s = Some s'"
  using assms
  by (cases "buf ! 0 = CMD_CHAIN_DETECT")
    (auto simp: master_dispatch_other, simp add: master_dispatch_def)

lemma master_dispatch_safe:
  assumes "master_dispatch env fill buf s = Some s'" and "device_safe s"
  shows "device_safe s'"
  using assms(1)
proof (rule master_dispatch_cases)
  assume "master_chain_detect env fill s = Some s'"
  then have "device_safe s' = device_safe s"
    by (intro device_safe_cong) (rule master_chain_detect_frame)
  with assms(2) show ?thesis by simp
qed (simp add: assms(2) single_dispatch_safe)

lemma master_dispatch_agc:
  assumes "master_dispatch env fill buf s = Some s'" and "agc_tracks s"
  shows "agc_tracks s'"
  using assms(1)
proof (rule master_dispatch_cases)
  assume "master_chain_detect env fill s = Some s'"
  then have "agc_tracks s' = agc_tracks s"
    by (intro agc_tracks_cong) (rule master_chain_detect_frame, assumption)+
  with assms(2) show ?thesis by simp
qed (simp add: assms(2) single_dispatch_agc)

lemma master_dispatch_size:
  assumes "master_dispatch env fill buf s = Some s'"
  shows "script_size (rx (stream s')) \<le> script_size (rx (stream s))"
  using assms by (rule master_dispatch_cases) (auto dest: master_chain_detect_frame(4))

section \<open>The loops end\<close>

text \<open>A round that goes on has used up part of the input.\<close>

lemma header_size_pos [simp]: "0 < COMMAND_HEADER_SIZE"
  by (simp add: COMMAND_HEADER_SIZE_def)

lemma read_progress:
  assumes "tcp_read_exact COMMAND_HEADER_SIZE s = (r, s')"
    and "\<And>e. r = Inl e \<Longrightarrow> err_kind e = WouldBlock \<or> err_kind e = TimedOut"
  shows "script_size (rx s') < script_size (rx s)"
proof -
  have "r \<noteq> Inl READ_EXACT_EOF"
    using assms(2) [of READ_EXACT_EOF] by (auto simp: READ_EXACT_EOF_def)
  with tcp_read_exact_progress [OF assms(1)] show ?thesis by simp
qed

lemma single_round_progress:
  assumes "single_round d r s = (Continue, s')"
  shows "script_size (rx (stream s')) < script_size (rx (stream s))"
proof -
  obtain res st where st: "tcp_read_exact COMMAND_HEADER_SIZE (stream s) = (res, st)"
    by (cases "tcp_read_exact COMMAND_HEADER_SIZE (stream s)")
  have "script_size (rx st) < script_size (rx (stream s))"
    using assms st
    by (intro read_progress [OF st]) (auto simp: single_round_def Let_def split: if_splits)
  moreover have "rx (stream s') = rx st"
    using assms st
    by (auto simp: single_round_def Let_def split: if_splits sum.splits prod.splits)
  ultimately show ?thesis by simp
qed

lemma decrypt_command_frame [simp]:
  "stream (snd (decrypt_command env buf s)) = stream s"
  "limiter (snd (decrypt_command env buf s)) = limiter s"
  "ctl (snd (decrypt_command env buf s)) = ctl s"
  "agc_st (snd (decrypt_command env buf s)) = agc_st s"
  by (auto simp: decrypt_command_def split: option.splits prod.splits)

lemma master_round_total: "master_round env r s \<noteq> None"
  using master_dispatch_total
  by (auto simp: master_round_def Let_def split: prod.splits sum.splits)

lemma master_round_progress:
  assumes "master_round env r s = Some (Continue, s')"
  shows "script_size (rx (stream s')) < script_size (rx (stream s))"
proof -
  obtain res st where st: "tcp_read_exact COMMAND_HEADER_SIZE (stream s) = (res, st)"
    by (cases "tcp_read_exact COMMAND_HEADER_SIZE (stream s)")
  have lt: "script_size (rx st) < script_size (rx (stream s))"
    using assms st
    by (intro read_progress [OF st]) (auto simp: master_round_def Let_def split: if_splits)
  have "script_size (rx (stream s')) \<le> script_size (rx st)"
  proof (cases res)
    case (Inl e)
    with assms st show ?thesis by (auto simp: master_round_def Let_def split: if_splits)
  next
    case (Inr raw)
    obtain buf s1 where dc: "decrypt_command env raw (s\<lparr>stream := st\<rparr>) = (buf, s1)"
      by (cases "decrypt_command env raw (s\<lparr>stream := st\<rparr>)")
    with decrypt_command_frame(1) [of env raw "s\<lparr>stream := st\<rparr>"] have "stream s1 = st" by simp
    with assms st Inr dc show ?thesis
      by (auto simp: master_round_def Let_def dest!: master_dispatch_size
          split: if_splits prod.splits)
  qed
  with lt show ?thesis by simp
qed

interpretation single_thread: thread_loop
  "\<lambda>r s. Some (single_round d r s)" "add_log ControlThreadExiting"
  "\<lambda>rs s. Some (single_loop d rs s)" "\<lambda>s. script_size (rx (stream s))" for d
  by unfold_locales (auto simp: single_round_progress split: flow.splits prod.splits)

interpretation master_thread: thread_loop
  "master_round env" "add_log ControlThreadExiting" "master_loop env"
  "\<lambda>s. script_size (rx (stream s))" for env
  by unfold_locales
    (auto simp: master_round_progress master_round_total simp del: not_None_eq
      split: option.splits flow.splits prod.splits)

section \<open>What a round keeps\<close>

definition cancel_calls :: "'a ctl_state_scheme \<Rightarrow> nat" where
  "cancel_calls s = length (filter (\<lambda>c. c = CancelAsyncRead) (m_data (ctl s)))"

lemma commands_ctl:
  "m_poisoned (ctl (set_frequency d p s)) = m_poisoned (ctl s)"
  "m_poisoned (ctl (set_sample_rate d p s)) = m_poisoned (ctl s)"
  "m_poisoned (ctl (set_gain_mode d p s)) = m_poisoned (ctl s)"
  "m_poisoned (ctl (set_tuner_gain d p s)) = m_poisoned (ctl s)"
  "m_poisoned (ctl (set_ppm d p s)) = m_poisoned (ctl s)"
  "m_poisoned (ctl (set_agc d p s)) = m_poisoned (ctl s)"
  "ctl (chain_ack s) = ctl s" "ctl (unsupported_command b s) = ctl s"
  "cancel_calls (set_frequency d p s) = cancel_calls s"
  "cancel_calls (set_sample_rate d p s) = cancel_calls s"
  "cancel_calls (set_gain_mode d p s) = cancel_calls s"
  "cancel_calls (set_tuner_gain d p s) = cancel_calls s"
  "cancel_calls (set_ppm d p s) = cancel_calls s"
  "cancel_calls (set_agc d p s) = cancel_calls s"
  by (auto simp: command_defs cancel_calls_def Let_def split: sum.splits prod.splits)

lemma single_dispatch_ctl:
  "m_poisoned (ctl (single_dispatch d buf s)) = m_poisoned (ctl s)"
  "cancel_calls (single_dispatch d buf s) = cancel_calls s"
  by (simp_all add: single_dispatch_def Let_def commands_ctl)
    (simp add: cancel_calls_def commands_ctl)

lemma single_round_keeps:
  assumes "single_round d r s = (fl, s')"
  shows "device_safe s \<Longrightarrow> device_safe s'" "m_poisoned (ctl s') = m_poisoned (ctl s)"
    "cancel_calls s' = cancel_calls s"
proof -
  have frame: "device_safe (s\<lparr>stream := st, limiter := rl\<rparr>) = device_safe s"
    "device_safe (s\<lparr>stream := st\<rparr>) = device_safe s"
    "cancel_calls (s\<lparr>stream := st, limiter := rl\<rparr>) = cancel_calls s"
    "cancel_calls (s\<lparr>stream := st\<rparr>) = cancel_calls s" for st rl
    by (simp_all add: device_safe_def cancel_calls_def)
  have logs: "device_safe (add_log e t) = device_safe t" "cancel_calls (add_log e t) = cancel_calls t"
    for e and t :: ctl_state
    by (simp_all add: device_safe_def cancel_calls_def)
  show "device_safe s \<Longrightarrow> device_safe s'"
    using assms
    by (auto simp: single_round_def Let_def frame logs intro!: single_dispatch_safe
        split: prod.splits sum.splits if_splits)
  show "m_poisoned (ctl s') = m_poisoned (ctl s)"
    using assms
    by (auto simp: single_round_def Let_def single_dispatch_ctl split: prod.splits sum.splits if_splits)
  show "cancel_calls s' = cancel_calls s"
    using assms
    by (auto simp: single_round_def Let_def frame logs single_dispatch_ctl
        split: prod.splits sum.splits if_splits)
qed

lemma single_round_agc:
  assumes "single_round d r s = (fl, s')" and "agc_tracks s"
  shows "agc_tracks s'"
proof -
  have frame: "agc_tracks (s\<lparr>stream := st, limiter := rl\<rparr>) = agc_tracks s"
    "agc_tracks (s\<lparr>stream := st\<rparr>) = agc_tracks s" "agc_tracks (add_log e t) = agc_tracks t"
    for st rl e and t :: ctl_state
    by (simp_all add: agc_tracks_def)
  show ?thesis
    using assms
    by (auto simp: single_round_def Let_def frame intro!: single_dispatch_agc
        split: prod.splits sum.splits if_splits)
qed

text \<open>
  A round of the master's loop either leaves the device, the AGC state and the limiter as
  they are, or takes one command the limiter let through.
\<close>

lemma master_round_cases:
  assumes "master_round env r s = Some (fl, s')"
  obtains (idle) "ctl s' = ctl s" "agc_st s' = agc_st s" "limiter s' = limiter s"
  | (refused) "ctl s' = ctl s" "agc_st s' = agc_st s"
      "rate_limiter_check (now r) (limiter s) = (False, limiter s')"
  | (command) buf s1 rl where "rate_limiter_check (now r) (limiter s) = (True, rl)"
      "ctl s1 = ctl s" "agc_st s1 = agc_st s" "limiter s1 = rl"
      "master_dispatch env (draw r) buf s1 = Some s'"
proof -
  obtain res st where st: "tcp_read_exact COMMAND_HEADER_SIZE (stream s) = (res, st)"
    by (cases "tcp_read_exact COMMAND_HEADER_SIZE (stream s)")
  show ?thesis
  proof (cases res)
    case (Inl e)
    with st assms idle show ?thesis by (auto simp: master_round_def Let_def split: if_splits)
  next
    case (Inr raw)
    obtain buf s1 where dc: "decrypt_command env raw (s\<lparr>stream := st\<rparr>) = (buf, s1)"
      by (cases "decrypt_command env raw (s\<lparr>stream := st\<rparr>)")
    with decrypt_command_frame [of env raw "s\<lparr>stream := st\<rparr>"]
    have s1: "limiter s1 = limiter s" "ctl s1 = ctl s" "agc_st s1 = agc_st s" by simp_all
    obtain ok rl where chk: "rate_limiter_check (now r) (limiter s) = (ok, rl)"
      by (cases "rate_limiter_check (now r) (limiter s)")
    show ?thesis
    proof (cases "\<not> should_exit r \<and> ok")
      case True
      with st assms Inr dc chk s1 have "master_dispatch env (draw r) buf (s1\<lparr>limiter := rl\<rparr>) = Some s'"
        by (auto simp: master_round_def Let_def)
      with True s1 chk show ?thesis by (intro command [of rl "s1\<lparr>limiter := rl\<rparr>" buf]) simp_all
    next
      case False
      with st assms Inr dc chk s1 idle refused show ?thesis
        by (auto simp: master_round_def Let_def split: if_splits)
    qed
  qed
qed

lemma master_round_keeps:
  assumes "master_round env r s = Some (fl, s')"
  shows "device_safe s \<Longrightarrow> device_safe s'" "agc_tracks s \<Longrightarrow> agc_tracks s'"
proof -
  show "device_safe s \<Longrightarrow> device_safe s'"
    using assms
  proof (cases rule: master_round_cases)
    case (command buf s1 rl)
    assume "device_safe s"
    with command(2) have "device_safe s1" by (simp add: device_safe_def)
    with command(5) show ?thesis by (rule master_dispatch_safe)
  qed (simp_all add: device_safe_def)
  show "agc_tracks s \<Longrightarrow> agc_tracks s'"
    using assms
  proof (cases rule: master_round_cases)
    case (command buf s1 rl)
    assume "agc_tracks s"
    with command(2,3) have "agc_tracks s1" by (simp add: agc_tracks_def)
    with command(5) show ?thesis by (rule master_dispatch_agc)
  qed (simp_all add: agc_tracks_def)
qed

lemma master_loop_keeps:
  assumes "master_loop env rs s = Some (fl, s')"
  shows "device_safe s \<Longrightarrow> device_safe s'" "agc_tracks s \<Longrightarrow> agc_tracks s'"
proof -
  have log: "device_safe (add_log e t) = device_safe t" "agc_tracks (add_log e t) = agc_tracks t"
    for e and t :: "'a master_state"
    by (simp_all add: device_safe_def agc_tracks_def)
  show "device_safe s \<Longrightarrow> device_safe s'"
    by (rule master_thread.run_invariant [where I = device_safe, OF assms])
      (auto simp: log intro: master_round_keeps(1))
  show "agc_tracks s \<Longrightarrow> agc_tracks s'"
    by (rule master_thread.run_invariant [where I = agc_tracks, OF assms])
      (auto simp: log intro: master_round_keeps(2))
qed

section \<open>The call budget\<close>

text \<open>
  \<open>within_budget m k s\<close>: every call on the device has been paid for by the limiter's
  clock moving on by one interval.
\<close>

definition within_budget :: "nat \<Rightarrow> int \<Rightarrow> 'a ctl_state_scheme \<Rightarrow> bool" where
  "within_budget m k s \<longleftrightarrow>
     min_interval (limiter s) = m \<and>
     int (calls_made s) * int m - last_command (limiter s) \<le> k"

lemma limiter_allows:
  assumes "rate_limiter_check t rl = (True, rl')" and "0 < min_interval rl"
  shows "min_interval rl' = min_interval rl" "last_command rl + int (min_interval rl) \<le> last_command rl'"
  using assms by (auto simp: rate_limiter_check_def saturating_duration_since_def Let_def split: if_splits)

lemma budget_step:
  assumes "rate_limiter_check t (limiter s) = (True, limiter s')" and "0 < m"
    and "calls_made s' \<le> Suc (calls_made s)" and "within_budget m k s"
  shows "within_budget m k s'"
proof -
  have m: "min_interval (limiter s) = m" using assms(4) by (simp add: within_budget_def)
  from limiter_allows [OF assms(1)] assms(2) m have
    l: "min_interval (limiter s') = m" "last_command (limiter s) + int m \<le> last_command (limiter s')"
    by simp_all
  have "int (calls_made s') * int m \<le> int (Suc (calls_made s)) * int m"
    using assms(3) by (intro mult_right_mono) simp_all
  with l assms(4) show ?thesis by (simp add: within_budget_def algebra_simps)
qed

lemma master_dispatch_calls:
  assumes "master_dispatch env fill buf s = Some s'"
  shows "calls_made s' \<le> Suc (calls_made s)" "limiter s' = limiter s"
proof -
  from assms have "calls_made s' \<le> Suc (calls_made s) \<and> limiter s' = limiter s"
  proof (rule master_dispatch_cases)
    assume "master_chain_detect env fill s = Some s'"
    from master_chain_detect_frame [OF this] show ?thesis by (simp add: calls_made_def)
  qed (simp add: single_dispatch_calls)
  then show "calls_made s' \<le> Suc (calls_made s)" "limiter s' = limiter s" by simp_all
qed

lemma master_round_budget:
  assumes "master_round env r s = Some (fl, s')" and "0 < m" and "within_budget m k s"
  shows "within_budget m k s'"
  using assms(1)
proof (cases rule: master_round_cases)
  case refused
  with assms(3) show ?thesis
    by (auto simp: within_budget_def calls_made_def rate_limiter_check_def Let_def split: if_splits)
next
  case (command buf s1 rl)
  from master_dispatch_calls [OF command(5)] command(2,4)
  have "calls_made s' \<le> Suc (calls_made s)" "limiter s' = rl" by (simp_all add: calls_made_def)
  with budget_step [of "now r" s s' m k] command(1) assms(2,3) show ?thesis by simp
qed (use assms(3) in \<open>simp add: within_budget_def calls_made_def\<close>)

section \<open>Properties\<close>

text \<open>
  The environment and the start of the witnesses: an exclusive-or cipher, a key, a nonce,
  and a client that sets the frequency, switches AGC off and asks for a sample rate out of
  range.
\<close>

abbreviation demo_draw :: "nat \<Rightarrow> bytes" where
  "demo_draw \<equiv> \<lambda>n. replicate n 7"

definition demo_master_env :: "((nat \<Rightarrow> u8) \<times> nat) master_env" where
  "demo_master_env =
     \<lparr>env_dev_ok = (\<lambda>_ _. True), env_cipher_new = ks_new (\<lambda>_ _ _. 0x5A),
      env_apply_keystream = ks_apply, env_key = Some (replicate 32 1)\<rparr>"

definition demo_master_start :: "((nat \<Rightarrow> u8) \<times> nat) master_state" where
  "demo_master_start =
     master_start
       (fresh_tcp [Data [1, 0, 0, 0, 9, 8, 0], Data [0, 0, 0, 2, 255, 255, 255, 255]])
       \<lparr>m_data = [], m_poisoned = False\<rparr> agc_new None 30000 0 0"

text \<open>
  Whatever bytes a single client sends, in whatever pieces, and however the connection
  fails, the control thread runs to its end, and the device has only ever been asked for a
  frequency, sample rate, gain and correction in range; the AGC state the thread keeps is
  the one it last asked the device for.
\<close>

lemma single_thread_safe:
  assumes "device_safe s" and "agc_tracks s" and "script_size (rx (stream s)) < length rs"
  shows "\<exists>s'. single_loop dev_ok rs s = (Break, s') \<and> device_safe s' \<and> agc_tracks s'"
proof -
  from single_thread.run_ends [OF assms(3), of dev_ok] obtain s' where
    s': "single_loop dev_ok rs s = (Break, s')" by auto
  have "device_safe s'"
    using single_thread.run_invariant [where I = device_safe, of dev_ok rs s Break s'] s' assms(1)
    by (auto simp: device_safe_def [of "add_log _ _"] intro: single_round_keeps(1) simp flip: device_safe_def)
  moreover have "agc_tracks s'"
    using single_thread.run_invariant [where I = agc_tracks, of dev_ok rs s Break s'] s' assms(2)
    by (auto simp: agc_tracks_def [of "add_log _ _"] intro: single_round_agc simp flip: agc_tracks_def)
  ultimately show ?thesis using s' by blast
qed

lemma single_thread_safe_witness:
  "let s = \<lparr>stream = fresh_tcp [Data [1, 0, 0, 0, 9, 8, 0], Data [0, 0, 0]],
            ctl = \<lparr>m_data = [], m_poisoned = False\<rparr>, agc_st = agc_new,
            unknown_command_count = 0, limiter = rate_limiter_new 0 0 COMMAND_RATE_LIMIT_INTERVAL,
            log_lines = []\<rparr>
   in \<exists>s'. single_loop (\<lambda>_ _. True) (replicate 11 \<lparr>should_exit = False, now = 1\<rparr>) s = (Break, s') \<and>
        device_safe s' \<and> agc_tracks s'"
  unfolding Let_def
  by (rule single_thread_safe)
    (simp_all add: device_safe_def agc_tracks_def agc_new_def agc_default_def)

text \<open>
  C5. The same for the master of a multi-client server, with or without a key: also when the
  bytes are the result of decrypting garbage, or a handshake fails half way, the thread runs
  to its end and the device is only asked for values in range.
\<close>

theorem master_thread_safe:
  assumes "device_safe s" and "agc_tracks s" and "script_size (rx (stream s)) < length rs"
  shows "\<exists>s'. master_loop env rs s = Some (Break, s') \<and> device_safe s' \<and> agc_tracks s'"
proof -
  from master_thread.run_ends [OF assms(3), of env] obtain s' where
    s': "master_loop env rs s = Some (Break, s')" by auto
  with master_loop_keeps [OF s'] assms(1,2) show ?thesis by blast
qed

theorem master_thread_safe_witness:
  "\<exists>s'. master_loop demo_master_env (replicate 16 \<lparr>should_exit = False, now = 1, draw = demo_draw\<rparr>) demo_master_start =
      Some (Break, s') \<and> device_safe s' \<and> agc_tracks s'"
  by (rule master_thread_safe)
    (simp_all add: device_safe_def agc_tracks_def demo_master_start_def master_start_def agc_new_def
      agc_default_def set_read_timeout_def)

text \<open>
  C26. A flood of commands does not reach the device: however many commands arrive and
  whatever the clock shows, the calls a control thread makes on the device, times the rate
  limiter's interval, never exceed the time that passed between the limiter's first and last
  reading.
\<close>

theorem master_call_budget:
  assumes "master_loop env rs s = Some (fl, s')" and "0 < min_interval (limiter s)"
  shows "(int (calls_made s') - int (calls_made s)) * int (min_interval (limiter s)) \<le>
    last_command (limiter s') - last_command (limiter s)"
proof -
  let ?m = "min_interval (limiter s)"
  let ?k = "int (calls_made s) * int ?m - last_command (limiter s)"
  have start: "within_budget ?m ?k s" by (simp add: within_budget_def)
  have log: "within_budget ?m ?k (add_log e t) = within_budget ?m ?k t" for e t
    by (simp add: within_budget_def calls_made_def)
  have "within_budget ?m ?k s'"
    by (rule master_thread.run_invariant [where I = "within_budget ?m ?k", OF assms(1) start])
      (auto simp: log intro: master_round_budget [OF _ assms(2)])
  then show ?thesis by (simp add: within_budget_def algebra_simps)
qed

theorem master_call_budget_witness:
  "\<exists>fl s'. master_loop demo_master_env (replicate 16 \<lparr>should_exit = False, now = 1, draw = demo_draw\<rparr>) demo_master_start =
      Some (fl, s') \<and>
    (int (calls_made s') - int (calls_made demo_master_start)) *
        int (min_interval (limiter demo_master_start)) \<le>
      last_command (limiter s') - last_command (limiter demo_master_start)"
proof -
  obtain fl s' where s': "master_loop demo_master_env (replicate 16 \<lparr>should_exit = False, now = 1, draw = demo_draw\<rparr>)
      demo_master_start = Some (fl, s')"
    using master_thread.run_total by fastforce
  have "0 < min_interval (limiter demo_master_start)"
    by (simp add: demo_master_start_def master_start_def rate_limiter_new_def
        COMMAND_RATE_LIMIT_INTERVAL_def)
  from master_call_budget [OF s' this] s' show ?thesis by blast
qed

text \<open>
  C39. The exit flag is looked at only after a command has been read: while a master is
  connected and idle, every read times out and the control thread goes round again, however
  often and whether or not the flag is set. The main loop, which waits for this thread,
  does not notice a shutdown request until the master sends a command or leaves.
\<close>

theorem idle_master_ignores_exit:
  assumes "is_timeout_err e" and "rx (stream s) = replicate (length rs) (Fault e) @ rest"
  shows "master_loop env rs s = Some (Continue, s\<lparr>stream := (stream s)\<lparr>rx := rest\<rparr>\<rparr>)"
  using assms(2)
proof (induction rs arbitrary: s)
  case Nil
  then show ?case by simp
next
  case (Cons r rs)
  have k: "err_kind e = WouldBlock \<or> err_kind e = TimedOut" "err_kind e \<noteq> Interrupted"
    using assms(1) by (auto simp: is_timeout_err_def)
  let ?s = "s\<lparr>stream := (stream s)\<lparr>rx := replicate (length rs) (Fault e) @ rest\<rparr>\<rparr>"
  have "master_round env r s = Some (Continue, ?s)"
    using Cons.prems k
    by (auto simp: master_round_def tcp_read_exact_def COMMAND_HEADER_SIZE_def Let_def)
  with Cons.IH [of ?s] show ?case by simp
qed

theorem idle_master_ignores_exit_witness:
  "master_loop demo_master_env (replicate 3 \<lparr>should_exit = True, now = 1, draw = demo_draw\<rparr>)
     (demo_master_start\<lparr>stream := fresh_tcp (replicate 3 (Fault \<lparr>err_kind = TimedOut, err_msg = ''timed out''\<rparr>))\<rparr>) =
   Some (Continue, demo_master_start\<lparr>stream := fresh_tcp []\<rparr>)"
  using idle_master_ignores_exit
    [of "\<lparr>err_kind = TimedOut, err_msg = ''timed out''\<rparr>"
      "demo_master_start\<lparr>stream := fresh_tcp (replicate 3 (Fault \<lparr>err_kind = TimedOut, err_msg = ''timed out''\<rparr>))\<rparr>"
      "replicate 3 \<lparr>should_exit = True, now = 1, draw = demo_draw\<rparr>" "[]" demo_master_env]
  by (simp add: is_timeout_err_def fresh_tcp_def)

text \<open>
  C40. A read that times out in the middle of a command loses the bytes already received: the
  thread goes on with the rest of the command as if it were the beginning of the next one,
  so everything the client sends from then on is out of step.
\<close>

theorem partial_command_dropped:
  assumes "is_timeout_err e" and "rx (stream s) = Data part # Fault e # es" and "length part < 5"
  shows "single_round dev_ok r s = (Continue, s\<lparr>stream := (stream s)\<lparr>rx := es\<rparr>\<rparr>)"
  using assms
  by (auto simp: single_round_def tcp_read_exact_def COMMAND_HEADER_SIZE_def is_timeout_err_def Let_def)

theorem partial_command_dropped_witness:
  "let e = \<lparr>err_kind = WouldBlock, err_msg = ''try again''\<rparr>;
       s = \<lparr>stream = fresh_tcp [Data [1, 0], Fault e, Data [0, 0, 9]],
            ctl = \<lparr>m_data = [], m_poisoned = False\<rparr>, agc_st = agc_new,
            unknown_command_count = 0, limiter = rate_limiter_new 0 0 COMMAND_RATE_LIMIT_INTERVAL,
            log_lines = []\<rparr>
   in single_round (\<lambda>_ _. True) \<lparr>should_exit = False, now = 1\<rparr> s =
        (Continue, s\<lparr>stream := fresh_tcp [Data [0, 0, 9]]\<rparr>)"
proof -
  let ?e = "\<lparr>err_kind = WouldBlock, err_msg = ''try again''\<rparr>"
  let ?s = "\<lparr>stream = fresh_tcp [Data [1, 0], Fault ?e, Data [0, 0, 9]],
            ctl = \<lparr>m_data = [], m_poisoned = False\<rparr>, agc_st = agc_new,
            unknown_command_count = 0, limiter = rate_limiter_new 0 0 COMMAND_RATE_LIMIT_INTERVAL,
            log_lines = []\<rparr>"
  show ?thesis
    using partial_command_dropped [of ?e ?s "[1, 0]" "[Data [0, 0, 9]]" "\<lambda>_ _. True"
        "\<lparr>should_exit = False, now = 1\<rparr>"]
    by (simp add: is_timeout_err_def fresh_tcp_def)
qed

end
