(* ===== verification/Serve_Refinement.thy ===== *)
theory Serve_Refinement
  imports Control_Threads
begin

text \<open>
  An abstract specification of what a control thread does to the device, and the proof that
  the control threads implement it: a stream of five-byte commands is decoded command by
  command, those the rate limiter refuses are dropped, and each of the others has exactly
  the effect the protocol table gives it.
\<close>

section \<open>The protocol\<close>

datatype command =
    Frequency u32
  | SampleRate u32
  | GainMode i32
  | TunerGain i32
  | Ppm i32
  | Agc u32
  | ChainDetect
  | Unknown

fun decode_command :: "bytes \<Rightarrow> command" where
  "decode_command (c # payload) =
     (if c = 0x01 then Frequency (from_be payload)
      else if c = 0x02 then SampleRate (from_be payload)
      else if c = 0x03 then GainMode (from_be payload)
      else if c = 0x04 then TunerGain (from_be payload)
      else if c = 0x05 then Ppm (from_be payload)
      else if c = 0x08 then Agc (from_be payload)
      else if c = 0xF0 then ChainDetect
      else Unknown)"
| "decode_command [] = Unknown"

text \<open>The calls a command leads to: at most one, and none for a value out of range.\<close>

fun command_calls :: "command \<Rightarrow> dev_call list" where
  "command_calls (Frequency f) = (if unat f \<le> 2200000000 then [SetCenterFreq f] else [])"
| "command_calls (SampleRate r) = (if unat r \<le> 3200000 then [SetSampleRate r] else [])"
| "command_calls (GainMode m) = (if 0 < sint m then [DisableAgc] else [EnableAgc])"
| "command_calls (TunerGain g) = (if 0 \<le> sint g \<and> sint g \<le> 500 then [SetTunerGain g] else [])"
| "command_calls (Ppm p) = (if - 200 \<le> sint p \<and> sint p \<le> 200 then [SetPpm p] else [])"
| "command_calls (Agc a) = (if a = 1 then [EnableAgc] else [DisableAgc])"
| "command_calls ChainDetect = []"
| "command_calls Unknown = []"

record device_view =
  v_calls :: "dev_call list"
  v_agc :: bool
  v_unknown :: u64
  v_sent :: bytes

definition spec_command :: "command \<Rightarrow> device_view \<Rightarrow> device_view" where
  "spec_command c v =
     \<lparr>v_calls = v_calls v @ command_calls c,
      v_agc = (case last_agc (command_calls c) of Some b \<Rightarrow> b | None \<Rightarrow> v_agc v),
      v_unknown = v_unknown v + (if c = Unknown then 1 else 0),
      v_sent = v_sent v @ (if c = ChainDetect then [0xF0, 0, 0, 0, 0] else [])\<rparr>"

text \<open>The commands of a timed sequence that the rate limiter lets through.\<close>

fun admitted :: "rate_limiter \<Rightarrow> (instant \<times> bytes) list \<Rightarrow> bytes list" where
  "admitted rl [] = []"
| "admitted rl ((t, buf) # rest) =
     (case rate_limiter_check t rl of
        (True, rl') \<Rightarrow> buf # admitted rl' rest
      | (False, rl') \<Rightarrow> admitted rl' rest)"

section \<open>Abstraction\<close>

definition view :: "'a ctl_state_scheme \<Rightarrow> device_view" where
  "view s =
     \<lparr>v_calls = m_data (ctl s), v_agc = enabled (agc_st s),
      v_unknown = unknown_command_count s, v_sent = tx (stream s)\<rparr>"

text \<open>The controller's mutex is usable and the socket takes what is written.\<close>

definition healthy :: "'a ctl_state_scheme \<Rightarrow> bool" where
  "healthy s \<longleftrightarrow> \<not> m_poisoned (ctl s) \<and> tx_script (stream s) = []"

lemma view_simps [simp]:
  "view (add_log e s) = view s"
  "view (s\<lparr>limiter := rl\<rparr>) = view s"
  "view (s\<lparr>stream := (stream s)\<lparr>rx := es\<rparr>\<rparr>) = view s"
  "healthy (add_log e s) = healthy s"
  "healthy (s\<lparr>limiter := rl\<rparr>) = healthy s"
  "healthy (s\<lparr>stream := (stream s)\<lparr>rx := es\<rparr>\<rparr>) = healthy s"
  by (simp_all add: view_def healthy_def)

lemma view_call_device:
  assumes "healthy s"
  shows "view (call_device d c s) = (view s)\<lparr>v_calls := v_calls (view s) @ [c]\<rparr>"
    and "healthy (call_device d c s)"
  using assms by (simp_all add: view_def healthy_def)

lemma healthy_commands:
  assumes "healthy s"
  shows "healthy (set_frequency d p s)" "healthy (set_sample_rate d p s)"
    "healthy (set_gain_mode d p s)" "healthy (set_tuner_gain d p s)" "healthy (set_ppm d p s)"
    "healthy (set_agc d p s)" "healthy (chain_ack s)" "healthy (unsupported_command b s)"
  using assms
  by (auto simp: command_defs Let_def healthy_def split: sum.splits)

lemma view_commands:
  assumes "healthy s"
  shows "view (set_frequency d p s) = spec_command (Frequency (from_be p)) (view s)"
    "view (set_sample_rate d p s) = spec_command (SampleRate (from_be p)) (view s)"
    "view (set_gain_mode d p s) = spec_command (GainMode (from_be p)) (view s)"
    "view (set_tuner_gain d p s) = spec_command (TunerGain (from_be p)) (view s)"
    "view (set_ppm d p s) = spec_command (Ppm (from_be p)) (view s)"
    "view (set_agc d p s) = spec_command (Agc (from_be p)) (view s)"
    "view (chain_ack s) = spec_command ChainDetect (view s)"
    "view (unsupported_command b s) = spec_command Unknown (view s)"
  using assms validate_ok_iff
  by (auto simp: command_defs Let_def healthy_def view_def spec_command_def cmd_defs
      dest: validate_errD split: sum.splits)

text \<open>One command: the implementation refines the specification.\<close>

lemma dispatch_refines:
  assumes "healthy s" and "length buf = 5"
  shows "view (single_dispatch d buf s) = spec_command (decode_command buf) (view s)"
    and "healthy (single_dispatch d buf s)"
proof -
  obtain c p0 p1 p2 p3 where buf: "buf = [c, p0, p1, p2, p3]"
    using assms(2) by (auto simp: length_Suc_conv numeral_eq_Suc)
  show "healthy (single_dispatch d buf s)"
    by (simp add: single_dispatch_def Let_def healthy_commands [OF assms(1)])
  show "view (single_dispatch d buf s) = spec_command (decode_command buf) (view s)"
    by (simp add: buf single_dispatch_def Let_def cmd_defs view_commands [OF assms(1)])
qed

section \<open>A round\<close>

text \<open>
  On a connection without faults a round takes the next five bytes, however they were
  batched, and leaves the rest.
\<close>

lemma single_round_ok:
  assumes "fault_free (rx (stream s))" and "stream_bytes (rx (stream s)) = buf @ rest"
    and "length buf = 5" and "\<not> should_exit r"
    and "rate_limiter_check (now r) (limiter s) = (ok, rl)"
  shows "\<exists>es. fault_free es \<and> stream_bytes es = rest \<and>
    single_round d r s =
      (let s' = s\<lparr>stream := (stream s)\<lparr>rx := es\<rparr>, limiter := rl\<rparr>
       in (Continue, if ok then single_dispatch d buf s' else add_log RateLimited s'))"
proof -
  have "5 \<le> length (stream_bytes (rx (stream s)))" using assms(2,3) by simp
  from tcp_read_exact_fault_free [OF assms(1) this] obtain es where
    es: "tcp_read_exact 5 (stream s) = (Inr buf, (stream s)\<lparr>rx := es\<rparr>)"
      "fault_free es" "stream_bytes es = rest"
    using assms(2,3) by auto
  with assms(4,5) show ?thesis
    by (auto simp: single_round_def COMMAND_HEADER_SIZE_def Let_def)
qed

section \<open>The whole connection\<close>

lemma view_record_updates:
  "view (s\<lparr>stream := (stream s)\<lparr>rx := es\<rparr>, limiter := rl\<rparr>) = view s"
  "healthy (s\<lparr>stream := (stream s)\<lparr>rx := es\<rparr>, limiter := rl\<rparr>) = healthy s"
  by (simp_all add: view_def healthy_def)

text \<open>
  C3. The control thread implements the protocol: on a connection that does not fail, a
  stream of five-byte commands, however the network batches its bytes, is decoded command by
  command; those the rate limiter refuses are dropped; and each of the others has exactly
  the effect the protocol gives it on the device, on the AGC state, on the count of unknown
  commands and on what is sent back.
\<close>

theorem single_loop_refines:
  assumes "length rs = length cmds" and "fault_free (rx (stream s))"
    and "stream_bytes (rx (stream s)) = concat cmds" and "list_all (\<lambda>c. length c = 5) cmds"
    and "list_all (\<lambda>r. \<not> should_exit r) rs" and "healthy s"
  shows "\<exists>s'. single_loop d rs s = (Continue, s') \<and> healthy s' \<and>
    view s' = fold spec_command
      (map decode_command (admitted (limiter s) (zip (map now rs) cmds))) (view s)"
  using assms
proof (induction rs cmds arbitrary: s rule: list_induct2)
  case Nil
  then show ?case by simp
next
  case (Cons r rs buf cmds)
  obtain ok rl where chk: "rate_limiter_check (now r) (limiter s) = (ok, rl)"
    by (cases "rate_limiter_check (now r) (limiter s)")
  from single_round_ok [of s buf "concat cmds" r ok rl d] Cons.prems chk obtain es where
    es: "fault_free es" "stream_bytes es = concat cmds"
    and round: "single_round d r s =
      (let s' = s\<lparr>stream := (stream s)\<lparr>rx := es\<rparr>, limiter := rl\<rparr>
       in (Continue, if ok then single_dispatch d buf s' else add_log RateLimited s'))"
    by auto
  let ?s = "s\<lparr>stream := (stream s)\<lparr>rx := es\<rparr>, limiter := rl\<rparr>"
  let ?t = "if ok then single_dispatch d buf ?s else add_log RateLimited ?s"
  have h: "healthy ?s" using Cons.prems(5) by (simp add: view_record_updates)
  have t: "fault_free (rx (stream ?t))" "stream_bytes (rx (stream ?t)) = concat cmds"
      "limiter ?t = rl" "healthy ?t"
      "view ?t = (if ok then spec_command (decode_command buf) (view s) else view s)"
    using es h dispatch_refines [OF h, of buf d] Cons.prems(3)
    by (auto simp: view_record_updates)
  from Cons.IH [of ?t] t Cons.prems obtain s' where
    s': "single_loop d rs ?t = (Continue, s')" "healthy s'"
      "view s' = fold spec_command
        (map decode_command (admitted rl (zip (map now rs) cmds))) (view ?t)"
    by auto
  from round s'(1) have "single_loop d (r # rs) s = (Continue, s')"
    by (simp add: Let_def)
  with s' t chk show ?case by (cases ok) auto
qed

text \<open>The start of the witnesses: three commands, the second too early for the limiter.\<close>

definition demo_ctl :: ctl_state where
  "demo_ctl =
     \<lparr>stream = fresh_tcp [Data [1, 0, 0], Data [0, 9, 2, 0, 0, 0, 5, 240], Data [0, 0, 0, 0]],
      ctl = \<lparr>m_data = [], m_poisoned = False\<rparr>, agc_st = agc_new, unknown_command_count = 0,
      limiter = rate_limiter_new 0 0 COMMAND_RATE_LIMIT_INTERVAL, log_lines = []\<rparr>"

definition demo_rounds :: "master_input list" where
  "demo_rounds = map (\<lambda>t. \<lparr>should_exit = False, now = t, draw = demo_draw\<rparr>) [0, 1, 60000000]"

theorem single_loop_refines_witness:
  "\<exists>s'. single_loop (\<lambda>_ _. True) demo_rounds demo_ctl = (Continue, s') \<and> healthy s' \<and>
     view s' = \<lparr>v_calls = [SetCenterFreq 9], v_agc = True, v_unknown = 0, v_sent = [0xF0, 0, 0, 0, 0]\<rparr>"
proof -
  let ?cmds = "[[1, 0, 0, 0, 9], [2, 0, 0, 0, 5], [240, 0, 0, 0, 0]] :: bytes list"
  have adm: "admitted (limiter demo_ctl) (zip (map now demo_rounds) ?cmds) =
      [[1, 0, 0, 0, 9], [240, 0, 0, 0, 0]]"
    by (simp add: demo_ctl_def demo_rounds_def rate_limiter_new_def instant_checked_sub_def
        COMMAND_RATE_LIMIT_INTERVAL_def rate_limiter_check_def saturating_duration_since_def)
  have v: "fold spec_command (map decode_command [[1, 0, 0, 0, 9], [240, 0, 0, 0, 0]]) (view demo_ctl) =
      \<lparr>v_calls = [SetCenterFreq 9], v_agc = True, v_unknown = 0, v_sent = [0xF0, 0, 0, 0, 0]\<rparr>"
    by (simp add: spec_command_def view_def demo_ctl_def agc_new_def agc_default_def from_be_def
        from_le_def)
  show ?thesis
    using single_loop_refines [of demo_rounds ?cmds demo_ctl "\<lambda>_ _. True"]
    unfolding adm v
    by (simp add: demo_rounds_def demo_ctl_def healthy_def)
qed

section \<open>The master thread without a key\<close>

text \<open>
  The part of a master's state that the single-client thread has, and the equivalence: with
  no key and no cipher in place the two threads do the same.
\<close>

definition as_single :: "'c master_state \<Rightarrow> ctl_state" where
  "as_single s =
     \<lparr>stream = stream s, ctl = ctl s, agc_st = agc_st s,
      unknown_command_count = unknown_command_count s, limiter = limiter s,
      log_lines = log_lines s\<rparr>"

lemma as_single_commands:
  "as_single (set_frequency d p s) = set_frequency d p (as_single s)"
  "as_single (set_sample_rate d p s) = set_sample_rate d p (as_single s)"
  "as_single (set_gain_mode d p s) = set_gain_mode d p (as_single s)"
  "as_single (set_tuner_gain d p s) = set_tuner_gain d p (as_single s)"
  "as_single (set_ppm d p s) = set_ppm d p (as_single s)"
  "as_single (set_agc d p s) = set_agc d p (as_single s)"
  "as_single (chain_ack s) = chain_ack (as_single s)"
  "as_single (unsupported_command b s) = unsupported_command b (as_single s)"
  by (auto simp: as_single_def command_defs Let_def call_device_def with_control_def add_log_def
      split: sum.splits prod.splits)

lemma as_single_dispatch:
  "as_single (single_dispatch d buf s) = single_dispatch d buf (as_single s)"
  by (simp add: single_dispatch_def Let_def as_single_commands)

lemma as_single_simps [simp]:
  "stream (as_single s) = stream s" "limiter (as_single s) = limiter s"
  "as_single (add_log e s) = add_log e (as_single s)"
  "as_single (s\<lparr>stream := st\<rparr>) = (as_single s)\<lparr>stream := st\<rparr>"
  "as_single (s\<lparr>limiter := rl\<rparr>) = (as_single s)\<lparr>limiter := rl\<rparr>"
  by (simp_all add: as_single_def add_log_def)

lemma read_cipher_commands [simp]:
  "read_cipher (add_log e s) = read_cipher s"
  "read_cipher (call_device d c s) = read_cipher s"
  by (simp_all add: call_device_def with_control_def Let_def add_log_def)

lemma read_cipher_dispatch [simp]: "read_cipher (single_dispatch d buf s) = read_cipher s"
proof -
  have "read_cipher (set_frequency d p s) = read_cipher s"
    "read_cipher (set_sample_rate d p s) = read_cipher s"
    "read_cipher (set_gain_mode d p s) = read_cipher s"
    "read_cipher (set_tuner_gain d p s) = read_cipher s"
    "read_cipher (set_ppm d p s) = read_cipher s" "read_cipher (set_agc d p s) = read_cipher s"
    "read_cipher (chain_ack s) = read_cipher s"
    "read_cipher (unsupported_command b s) = read_cipher s" for p b
    by (auto simp: command_defs Let_def split: sum.splits prod.splits)
  then show ?thesis by (simp add: single_dispatch_def Let_def)
qed

lemma master_round_plain:
  assumes "env_key env = None" and "read_cipher s = None"
  shows "\<exists>fl s'. master_round env r s = Some (fl, s') \<and> read_cipher s' = None \<and>
    single_round (env_dev_ok env) r (as_single s) = (fl, as_single s')"
  using assms
  by (auto simp: master_round_def single_round_def decrypt_command_def Let_def
      master_dispatch_plain as_single_dispatch split: prod.splits sum.splits)

text \<open>
  C27. Without a key the master of a multi-client server is served exactly as the client of a
  single-client one: the two threads, written out separately in the source, have the same
  effect on the connection, the device, the AGC state, the counters and the log, on any
  input and under any schedule.
\<close>

theorem master_loop_plain:
  assumes "env_key env = None" and "read_cipher s = None"
  shows "\<exists>fl s'. master_loop env rs s = Some (fl, s') \<and>
    single_loop (env_dev_ok env) rs (as_single s) = (fl, as_single s')"
  using assms
proof (induction rs arbitrary: s)
  case Nil
  then show ?case by simp
next
  case (Cons r rs)
  from master_round_plain [OF Cons.prems, of r] obtain fl s1 where
    s1: "master_round env r s = Some (fl, s1)" "read_cipher s1 = None"
      "single_round (env_dev_ok env) r (as_single s) = (fl, as_single s1)"
    by blast
  with Cons.IH [OF Cons.prems(1) s1(2)] show ?case by (cases fl) auto
qed

theorem master_loop_plain_witness:
  "\<exists>fl s'. master_loop (demo_master_env\<lparr>env_key := None\<rparr>) demo_rounds demo_master_start = Some (fl, s') \<and>
    single_loop (env_dev_ok demo_master_env) demo_rounds (as_single demo_master_start) = (fl, as_single s')"
  using master_loop_plain [of "demo_master_env\<lparr>env_key := None\<rparr>" demo_master_start demo_rounds]
  by (simp add: demo_master_start_def master_start_def)

end
