(* ===== verification/Server_Spec.thy ===== *)
theory Server_Spec
  imports Serve_Refinement Runs
begin

text \<open>
  The abstract server: what both serve modes of \<open>src/main.rs\<close> promise the owner of the
  device, without sockets, threads, locks and ciphers. The state is what the device was told,
  the AGC setting on record, whether a stop was asked for and carried out, and how the
  program ended; the actions are the commands of the protocol, the stop request, the one call
  that stops the device, and the end.
\<close>

section \<open>The specification\<close>

datatype server_end = CleanEnd | ErrorEnd rtl_tcp_error | PanicEnd

record server_view =
  sv_calls :: "dev_call list"
  sv_agc :: bool
  sv_asked :: bool
  sv_stopped :: bool
  sv_outcome :: "server_end option"

datatype server_action = Perform command | AskStop | StopDevice | Conclude server_end | Stutter

definition server_start :: server_view where
  "server_start =
     \<lparr>sv_calls = [], sv_agc = True, sv_asked = False, sv_stopped = False, sv_outcome = None\<rparr>"

definition perform :: "command \<Rightarrow> server_view \<Rightarrow> server_view" where
  "perform c v =
     v\<lparr>sv_calls := sv_calls v @ command_calls c,
       sv_agc := (case last_agc (command_calls c) of Some b \<Rightarrow> b | None \<Rightarrow> sv_agc v)\<rparr>"

definition stop_device :: "server_view \<Rightarrow> server_view" where
  "stop_device v = v\<lparr>sv_calls := sv_calls v @ [CancelAsyncRead], sv_stopped := True\<rparr>"

text \<open>
  The device is stopped only when that was asked for, and once; a clean end comes after it,
  and nothing comes after the end.
\<close>

inductive server_step :: "server_action \<Rightarrow> server_view \<Rightarrow> server_view \<Rightarrow> bool" where
  server_perform: "sv_outcome v = None \<Longrightarrow> server_step (Perform c) v (perform c v)"
| server_ask: "sv_outcome v = None \<Longrightarrow> server_step AskStop v (v\<lparr>sv_asked := True\<rparr>)"
| server_stop: "sv_outcome v = None \<Longrightarrow> sv_asked v \<Longrightarrow> \<not> sv_stopped v \<Longrightarrow>
    server_step StopDevice v (stop_device v)"
| server_conclude: "sv_outcome v = None \<Longrightarrow> (r = CleanEnd \<longrightarrow> sv_stopped v) \<Longrightarrow>
    server_step (Conclude r) v (v\<lparr>sv_outcome := Some r\<rparr>)"
| server_stutter: "sv_outcome v = None \<Longrightarrow> server_step Stutter v v"

inductive_simps server_step_simps [simp]:
  "server_step (Perform c) v v'" "server_step AskStop v v'" "server_step StopDevice v v'"
  "server_step (Conclude r) v v'" "server_step Stutter v v'"

section \<open>What the specification guarantees\<close>

text \<open>The commands of a sequence of actions.\<close>

fun performed :: "server_action list \<Rightarrow> command list" where
  "performed [] = []"
| "performed (a # as) = (case a of Perform c \<Rightarrow> c # performed as | _ \<Rightarrow> performed as)"

lemma performed_append [simp]: "performed (as @ bs) = performed as @ performed bs"
  by (induction as) (auto split: server_action.splits)

lemma command_calls_range: "list_all call_in_range (command_calls c)"
  by (cases c) simp_all

lemma command_calls_no_cancel: "filter (\<lambda>d. d \<noteq> CancelAsyncRead) (command_calls c) = command_calls c"
  by (cases c) simp_all

text \<open>
  The device was asked for what is in range only, the setting on record is the last one asked
  for, the device is stopped at most once, after a request, and a clean end finds it stopped.
\<close>

definition server_ok :: "server_view \<Rightarrow> bool" where
  "server_ok v \<longleftrightarrow>
     list_all call_in_range (sv_calls v) \<and>
     sv_agc v = (case last_agc (sv_calls v) of Some b \<Rightarrow> b | None \<Rightarrow> True) \<and>
     length (filter (\<lambda>d. d = CancelAsyncRead) (sv_calls v)) = (if sv_stopped v then 1 else 0) \<and>
     (sv_stopped v \<longrightarrow> sv_asked v) \<and> (sv_outcome v = Some CleanEnd \<longrightarrow> sv_stopped v)"

lemma server_step_ok: "server_step a v v' \<Longrightarrow> server_ok v \<Longrightarrow> server_ok v'"
proof (induction rule: server_step.induct)
  case (server_perform v c)
  have "filter (\<lambda>d. d = CancelAsyncRead) (command_calls c) = []" by (cases c) simp_all
  with server_perform command_calls_range [of c] show ?case
    by (auto simp: server_ok_def perform_def last_agc_append split: option.splits)
qed (auto simp: server_ok_def stop_device_def last_agc_append)

interpretation spec: step_system server_step server_ok
  by unfold_locales (rule server_step_ok)

text \<open>What the device was told, apart from the stop, is what the commands come to, in order.\<close>

lemma server_run_calls:
  assumes "runs server_step as v v'"
  shows "filter (\<lambda>d. d \<noteq> CancelAsyncRead) (sv_calls v') =
    filter (\<lambda>d. d \<noteq> CancelAsyncRead) (sv_calls v) @ concat (map command_calls (performed as))"
  using assms
proof (induction rule: runs.induct)
  case (runs_more as v v' a v'')
  then show ?case
    by (cases a) (auto simp: perform_def stop_device_def command_calls_no_cancel)
qed simp

lemma server_reachable:
  assumes "runs server_step as server_start v"
  shows "server_ok v \<and>
    filter (\<lambda>d. d \<noteq> CancelAsyncRead) (sv_calls v) = concat (map command_calls (performed as))"
proof -
  have "server_ok server_start" by (simp add: server_ok_def server_start_def)
  with spec.run_inv [OF assms] server_run_calls [OF assms] show ?thesis by (simp add: server_start_def)
qed

section \<open>What a control thread does to the device\<close>

text \<open>The part of a control thread's state that the specification speaks of.\<close>

definition told :: "command \<Rightarrow> 'a ctl_state_scheme \<Rightarrow> 'b ctl_state_scheme \<Rightarrow> bool" where
  "told c s s' \<longleftrightarrow>
     m_data (ctl s') = m_data (ctl s) @ command_calls c \<and>
     enabled (agc_st s') = (case last_agc (command_calls c) of Some b \<Rightarrow> b | None \<Rightarrow> enabled (agc_st s))"

definition told_nothing :: "'a ctl_state_scheme \<Rightarrow> 'b ctl_state_scheme \<Rightarrow> bool" where
  "told_nothing s s' \<longleftrightarrow> m_data (ctl s') = m_data (ctl s) \<and> enabled (agc_st s') = enabled (agc_st s)"

lemma told_commands:
  assumes "\<not> m_poisoned (ctl s)"
  shows "told (Frequency (from_be p)) s (set_frequency d p s)"
    "told (SampleRate (from_be p)) s (set_sample_rate d p s)"
    "told (GainMode (from_be p)) s (set_gain_mode d p s)"
    "told (TunerGain (from_be p)) s (set_tuner_gain d p s)"
    "told (Ppm (from_be p)) s (set_ppm d p s)"
    "told (Agc (from_be p)) s (set_agc d p s)"
    "told ChainDetect s (chain_ack s)"
    "told Unknown s (unsupported_command b s)"
  using assms validate_ok_iff
  by (auto simp: command_defs Let_def told_def dest: validate_errD split: sum.splits prod.splits)

lemma dispatch_told:
  assumes "\<not> m_poisoned (ctl s)"
  shows "told (decode_command [buf ! 0, buf ! 1, buf ! 2, buf ! 3, buf ! 4]) s (single_dispatch d buf s)"
  by (simp add: single_dispatch_def Let_def cmd_defs told_commands [OF assms])

lemma told_cong:
  "ctl s1 = ctl s \<Longrightarrow> agc_st s1 = agc_st s \<Longrightarrow> told c s1 s' = told c s s'"
  "ctl s1 = ctl s \<Longrightarrow> agc_st s1 = agc_st s \<Longrightarrow> told_nothing s s1"
  by (simp_all add: told_def told_nothing_def cong: option.case_cong)

lemma single_round_told:
  assumes "single_round d r s = (fl, s')" and "\<not> m_poisoned (ctl s)"
  shows "told_nothing s s' \<or> (\<exists>c. told c s s')"
proof (cases "\<exists>buf st rl. s' = single_dispatch d buf (s\<lparr>stream := st, limiter := rl\<rparr>)")
  case True
  then obtain buf st rl where s': "s' = single_dispatch d buf (s\<lparr>stream := st, limiter := rl\<rparr>)" by blast
  from dispatch_told [of "s\<lparr>stream := st, limiter := rl\<rparr>"] assms(2) s' show ?thesis
    using told_cong(1) [of "s\<lparr>stream := st, limiter := rl\<rparr>" s] by fastforce
next
  case False
  with assms(1) have "ctl s' = ctl s \<and> agc_st s' = agc_st s"
    by (auto simp: single_round_def Let_def split: prod.splits sum.splits if_splits)
  then show ?thesis by (simp add: told_nothing_def)
qed

end
