(* ===== verification/Cli.thy ===== *)
theory Cli
  imports Control
begin

text \<open>
  The command line of \<open>src/main.rs\<close>: the arguments, their validation, the parsing of the
  encryption key and of the upstream address, the choice of the mode and the binding of the
  master port. What these functions obtain from outside (the \<open>hex\<close> crate's decoder, the
  file system, systemd, the sockets) is an argument.
\<close>

section \<open>Arguments\<close>

record args =
  mode :: string
  address :: string
  master_port :: u16
  slave_port :: "u16 option"
  max_slaves :: nat
  upstream :: "string option"
  key :: "string option"
  key_file :: "string option"
  device_index :: u32
  buffers :: u32
  tcp_buffers :: u64
  arg_read_timeout :: u64
  arg_write_timeout :: u64
  whitelist :: "string list"

definition validate_args :: "args \<Rightarrow> rtl_tcp_error + unit" where
  "validate_args args =
     (if buffers args = 0 \<or> 32 < buffers args then
        Inl (Config ''buffers must be between 1 and 32'')
      else if tcp_buffers args = 0 \<or> 10485760 < tcp_buffers args then
        Inl (Config ''tcp_buffers must be between 1 and 10485760 (10MB)'')
      else if arg_read_timeout args = 0 then
        Inl (Config ''read_timeout must be greater than 0'')
      else if arg_write_timeout args = 0 then
        Inl (Config ''write_timeout must be greater than 0'')
      else (case slave_port args of
              Some sp \<Rightarrow>
                if sp = master_port args then
                  Inl (Config ''slave-port must differ from master-port'')
                else Inr ()
            | None \<Rightarrow> Inr ()))"

section \<open>Keys and addresses\<close>

text \<open>\<open>hex_decode\<close> returns the decoder's error as its text.\<close>

definition parse_encryption_key ::
  "(string \<Rightarrow> string + bytes) \<Rightarrow> (string \<Rightarrow> io_error + bytes) \<Rightarrow> args \<Rightarrow>
   rtl_tcp_error + bytes option" where
  "parse_encryption_key hex_decode fs_read args =
     (case key args of
        Some hex_key \<Rightarrow>
          (case hex_decode hex_key of
             Inl e \<Rightarrow> Inl (Config (''invalid hex key: '' @ e))
           | Inr bs \<Rightarrow>
               if length bs \<noteq> 32 then Inl (Config ''key must be 32 bytes'') else Inr (Some bs))
      | None \<Rightarrow>
          (case key_file args of
             Some path \<Rightarrow>
               (case fs_read path of
                  Inl e \<Rightarrow> Inl (Config (''failed to read key file '' @ path @ '': '' @ err_msg e))
                | Inr bs \<Rightarrow>
                    if length bs \<noteq> 32 then Inl (Config ''key must be 32 bytes'')
                    else Inr (Some bs))
           | None \<Rightarrow> Inr None))"

text \<open>The upstream address of proxy mode: everything before the last colon is the host.\<close>

definition required_upstream :: "args \<Rightarrow> rtl_tcp_error + string" where
  "required_upstream args =
     (case upstream args of
        None \<Rightarrow> Inl (Config ''--upstream required in proxy mode'')
      | Some u \<Rightarrow> Inr u)"

definition parse_upstream :: "string \<Rightarrow> rtl_tcp_error + string \<times> u16" where
  "parse_upstream u =
     (case rsplit_once (CHR '':'') u of
        None \<Rightarrow> Inl (Config (''invalid upstream: '' @ u))
      | Some (host, port_str) \<Rightarrow>
          (case parse_u16 port_str of
             None \<Rightarrow> Inl (Config (''invalid upstream port: '' @ port_str))
           | Some port \<Rightarrow> Inr (host, port)))"

definition is_all_interfaces :: "args \<Rightarrow> bool" where
  "is_all_interfaces args \<longleftrightarrow>
     address args = ''0.0.0.0'' \<or> address args = ''::'' \<or> address args = ''[::]'' \<or> address args = []"

text \<open>Multi-client mode has the test a second time.\<close>

definition multi_is_all :: "args \<Rightarrow> bool" where
  "multi_is_all args \<longleftrightarrow>
     address args = ''0.0.0.0'' \<or> address args = ''::'' \<or> address args = ''[::]'' \<or> address args = []"

section \<open>The master port\<close>

text \<open>
  With socket activation built in, an inherited socket is used when there is one. A failed
  notification is converted from the \<open>systemd\<close> crate's error, an I/O error.
\<close>

definition bind_master_port ::
  "bool \<Rightarrow> (string + 'l option) \<Rightarrow> (io_error + unit) \<Rightarrow> (string \<Rightarrow> io_error + 'l) \<Rightarrow> args \<Rightarrow>
   rtl_tcp_error + 'l" where
  "bind_master_port systemd taken notified bind args =
     (let addr = address args @ '':'' @ show_nat (unat (master_port args));
          plain = lift_io (bind addr)
      in if systemd then
           (case taken of
              Inl e \<Rightarrow> Inl (Config (''could not get fd from env: '' @ e))
            | Inr (Some listener) \<Rightarrow>
                (case lift_io notified of Inl e \<Rightarrow> Inl e | Inr _ \<Rightarrow> Inr listener)
            | Inr None \<Rightarrow> plain)
         else plain)"

section \<open>The choice of the mode\<close>

datatype run_mode = ProxyMulti | ServeMulti | ServeSingle

definition select_mode :: "args \<Rightarrow> rtl_tcp_error + run_mode" where
  "select_mode args =
     (case validate_args args of
        Inl e \<Rightarrow> Inl e
      | Inr _ \<Rightarrow>
          if mode args = ''proxy'' then Inr ProxyMulti
          else if mode args = ''serve'' then
            (case slave_port args of Some _ \<Rightarrow> Inr ServeMulti | None \<Rightarrow> Inr ServeSingle)
          else Inl (Config (''unknown mode: '' @ mode args)))"

section \<open>What the checks guarantee\<close>

text \<open>The bounds the rest of the program relies on.\<close>

definition args_ok :: "args \<Rightarrow> bool" where
  "args_ok args \<longleftrightarrow>
     1 \<le> unat (buffers args) \<and> unat (buffers args) \<le> 32 \<and>
     1 \<le> unat (tcp_buffers args) \<and> unat (tcp_buffers args) \<le> 10485760 \<and>
     1 \<le> unat (arg_read_timeout args) \<and> 1 \<le> unat (arg_write_timeout args) \<and>
     slave_port args \<noteq> Some (master_port args)"

lemma word_bounds:
  fixes w v :: "'a::len word"
  shows "\<not> (w = 0 \<or> v < w) \<longleftrightarrow> 1 \<le> unat w \<and> unat w \<le> unat v"
proof -
  have "w = 0 \<longleftrightarrow> unat w = 0" by (simp add: unat_eq_zero)
  then show ?thesis unfolding word_less_nat_alt by linarith
qed

lemma validate_args_iff: "validate_args args = Inr () \<longleftrightarrow> args_ok args"
proof -
  have b: "\<not> (buffers args = 0 \<or> 32 < buffers args) \<longleftrightarrow> 1 \<le> unat (buffers args) \<and> unat (buffers args) \<le> 32"
    using word_bounds [of "buffers args" 32] by simp
  have t: "\<not> (tcp_buffers args = 0 \<or> 10485760 < tcp_buffers args) \<longleftrightarrow>
      1 \<le> unat (tcp_buffers args) \<and> unat (tcp_buffers args) \<le> 10485760"
    using word_bounds [of "tcp_buffers args" 10485760] by simp
  have z: "w \<noteq> 0 \<longleftrightarrow> 1 \<le> unat w" for w :: u64
    by (simp add: Suc_le_eq unat_gt_0)
  show ?thesis
    unfolding args_ok_def validate_args_def using b t z [of "arg_read_timeout args"] z [of "arg_write_timeout args"]
    by (auto split: option.splits)
qed

section \<open>Properties\<close>

text \<open>
  The program enters a mode exactly when every argument is in its range (1 to 32
  buffers, a send buffer of 1 to 10485760 bytes, positive timeouts, a slave port other than
  the master port) and the mode is known; serving is multi-client exactly when a slave port
  is given.
\<close>

lemma select_mode_iff:
  "select_mode args = Inr m \<longleftrightarrow>
     args_ok args \<and>
     (mode args = ''proxy'' \<and> m = ProxyMulti \<or>
      mode args = ''serve'' \<and> m = (if slave_port args = None then ServeSingle else ServeMulti))"
proof (cases "validate_args args")
  case (Inl e)
  with validate_args_iff [of args] show ?thesis by (simp add: select_mode_def)
next
  case (Inr u)
  with validate_args_iff [of args] show ?thesis
    by (auto simp: select_mode_def split: option.splits)
qed

text \<open>
  A key that was asked for is never dropped: the program runs without encryption exactly
  when neither \<open>--key\<close> nor \<open>--key-file\<close> is given, and a key it runs with has 32
  bytes, from the hexadecimal text when there is one and from the file otherwise.
\<close>

lemma parse_encryption_key_strict:
  "(parse_encryption_key hex_decode fs_read args = Inr None \<longleftrightarrow>
      key args = None \<and> key_file args = None) \<and>
   (parse_encryption_key hex_decode fs_read args = Inr (Some k) \<longleftrightarrow>
      length k = 32 \<and>
      ((\<exists>h. key args = Some h \<and> hex_decode h = Inr k) \<or>
       (\<exists>p. key args = None \<and> key_file args = Some p \<and> fs_read p = Inr k)))"
  by (auto simp: parse_encryption_key_def split: option.splits sum.splits)

text \<open>
  An upstream address in the usual form is split into exactly its host and port, also when
  the host itself contains colons, as an IPv6 literal does; and an address is accepted only in that
  form.
\<close>

lemma parse_upstream_round_trip:
  "parse_upstream (host @ '':'' @ show_nat (unat port)) = Inr (host, port) \<and>
   (parse_upstream u = Inr (h, p) \<longleftrightarrow>
      (\<exists>ps. u = h @ '':'' @ ps \<and> CHR '':'' \<notin> set ps \<and> parse_u16 ps = Some p))"
proof
  have "CHR '':'' \<notin> set (show_nat (unat port))" using show_nat_chars by blast
  then show "parse_upstream (host @ '':'' @ show_nat (unat port)) = Inr (host, port)"
    by (simp add: parse_upstream_def)
next
  show "parse_upstream u = Inr (h, p) \<longleftrightarrow>
      (\<exists>ps. u = h @ '':'' @ ps \<and> CHR '':'' \<notin> set ps \<and> parse_u16 ps = Some p)"
  proof
    assume "parse_upstream u = Inr (h, p)"
    then obtain ps where "rsplit_once CHR '':'' u = Some (h, ps)" "parse_u16 ps = Some p"
      by (auto simp: parse_upstream_def split: option.splits)
    with rsplit_once_SomeD show "\<exists>ps. u = h @ '':'' @ ps \<and> CHR '':'' \<notin> set ps \<and> parse_u16 ps = Some p"
      by fastforce
  qed (auto simp: parse_upstream_def)
qed

end
