(* ===== verification/Buf_Writer.thy ===== *)
theory Buf_Writer
  imports Tcp_Stream "HOL-Library.Sublist"
begin

text \<open>
  \<open>std::io::BufWriter\<close> over a TCP stream, as the program uses it to send the magic packet
  and, in single-client mode, the samples: the bytes pending in the buffer and the stream.
\<close>

definition BUF_WRITE_EOF :: io_error where
  "BUF_WRITE_EOF = \<lparr>err_kind = WriteZero, err_msg = ''failed to write the buffered data''\<rparr>"

text \<open>
  \<open>flush_buf\<close> is the loop of \<open>write_all\<close> with a text of its own, except that the
  bytes it could not write stay pending.
\<close>

definition flush_buf :: "bytes \<Rightarrow> tcp \<Rightarrow> (io_error + unit) \<times> bytes \<times> tcp" where
  "flush_buf pending s =
     (case send_script pending (tx_script s) of
        (r, sent, es) \<Rightarrow>
          (case r of Inl e \<Rightarrow> Inl (if e = WRITE_ALL_EOF then BUF_WRITE_EOF else e) | Inr u \<Rightarrow> Inr u,
           drop (length sent) pending, s\<lparr>tx := tx s @ sent, tx_script := es\<rparr>))"

definition buf_write_all ::
  "nat \<Rightarrow> bytes \<Rightarrow> bytes \<Rightarrow> tcp \<Rightarrow> (io_error + unit) \<times> bytes \<times> tcp" where
  "buf_write_all capacity buf pending s =
     (if length buf < capacity - length pending then (Inr (), pending @ buf, s)
      else (case (if capacity - length pending < length buf then flush_buf pending s
                  else (Inr (), pending, s)) of
              (Inl e, p, s') \<Rightarrow> (Inl e, p, s')
            | (Inr _, p, s') \<Rightarrow>
                if capacity \<le> length buf
                then (case tcp_write_all buf s' of (r, s'') \<Rightarrow> (r, p, s''))
                else (Inr (), p @ buf, s')))"

text \<open>Dropping the writer tries once more to send what is pending.\<close>

definition buf_drop :: "bytes \<Rightarrow> tcp \<Rightarrow> tcp" where
  "buf_drop pending s = snd (snd (flush_buf pending s))"

section \<open>Nothing is lost, doubled or reordered\<close>

lemma send_script_prefix:
  "send_script buf es = (r, sent, es') \<Longrightarrow>
     \<exists>rest. buf = sent @ rest \<and> (r = Inr () \<longrightarrow> rest = [])"
proof (induction buf es arbitrary: r sent es' rule: send_script.induct)
  case (3 buf k es)
  show ?case
  proof (cases "buf = [] \<or> k = 0")
    case True
    with "3.prems" show ?thesis by (auto split: if_splits)
  next
    case False
    with "3.prems" obtain sent1 where s1: "send_script (drop k buf) es = (r, sent1, es')"
      "sent = take k buf @ sent1" by (auto split: prod.splits)
    with "3.IH" False obtain rest where "drop k buf = sent1 @ rest" "r = Inr () \<longrightarrow> rest = []"
      by blast
    with s1 show ?thesis by (metis append.assoc append_take_drop_id)
  qed
qed (auto split: if_splits)

lemma flush_buf_conserves:
  assumes "flush_buf p s = (r, p', s')"
  shows "tx s' @ p' = tx s @ p" and "r = Inr () \<longrightarrow> p' = []" and "rx s' = rx s"
proof -
  obtain r0 sent es where ss: "send_script p (tx_script s) = (r0, sent, es)"
    by (cases "send_script p (tx_script s)")
  from send_script_prefix [OF ss] obtain rest where
    "p = sent @ rest" "r0 = Inr () \<longrightarrow> rest = []" by blast
  with assms ss show "tx s' @ p' = tx s @ p" "r = Inr () \<longrightarrow> p' = []" "rx s' = rx s"
    by (auto simp: flush_buf_def split: sum.splits)
qed

text \<open>
  What a buffered write comes to: the bytes are kept, or kept after a flush, or the flush
  fails, or they go to the stream directly once everything pending has been sent.
\<close>

lemma buf_write_all_cases:
  assumes "buf_write_all cap buf p s = (r, p', s')" and "0 < cap"
  obtains (kept) "r = Inr ()" "p' = p @ buf" "s' = s"
  | (flushed) "flush_buf p s = (Inr (), [], s')" "r = Inr ()" "p' = buf"
  | (failed) e where "flush_buf p s = (Inl e, p', s')" "r = Inl e"
  | (direct) s1 where "tx s1 = tx s @ p" "rx s1 = rx s" "tcp_write_all buf s1 = (r, s')" "p' = []"
proof -
  obtain r1 p1 s1 where fl: "flush_buf p s = (r1, p1, s1)" by (cases "flush_buf p s")
  note c = flush_buf_conserves [OF fl]
  show ?thesis
  proof (cases "cap - length p < length buf")
    case True
    with assms(1) fl c kept flushed failed direct show ?thesis
      by (cases r1) (auto simp: buf_write_all_def split: if_splits prod.splits)
  next
    case False
    show ?thesis
    proof (cases "cap \<le> length buf")
      case True
      with False assms(2) have "p = []" by (cases p) auto
      with True False assms(1) direct [of s] show ?thesis
        by (auto simp: buf_write_all_def split: if_splits prod.splits)
    next
      case False
      with \<open>\<not> cap - length p < length buf\<close> assms(1) kept show ?thesis
        by (auto simp: buf_write_all_def split: if_splits)
    qed
  qed
qed

lemma buf_write_all_conserves:
  assumes "buf_write_all cap buf p s = (r, p', s')" and "0 < cap"
  shows "prefix (tx s' @ p') (tx s @ p @ buf)" and "rx s' = rx s"
    and "r = Inr () \<Longrightarrow> tx s' @ p' = tx s @ p @ buf"
proof -
  from assms have "prefix (tx s' @ p') (tx s @ p @ buf) \<and> rx s' = rx s \<and>
      (r = Inr () \<longrightarrow> tx s' @ p' = tx s @ p @ buf)"
  proof (cases rule: buf_write_all_cases)
    case flushed
    with flush_buf_conserves [OF flushed(1)] show ?thesis by auto
  next
    case (failed e)
    from flush_buf_conserves [OF failed(1)] have "tx s @ p @ buf = (tx s' @ p') @ buf"
      by (metis append.assoc)
    with flush_buf_conserves(3) [OF failed(1)] failed(2) show ?thesis by (simp only: prefixI) simp
  next
    case (direct s1)
    from tcp_write_all_prefix [OF direct(3)] direct show ?thesis
      by (auto simp: take_is_prefix)
  qed auto
  then show "prefix (tx s' @ p') (tx s @ p @ buf)" "rx s' = rx s"
    "r = Inr () \<Longrightarrow> tx s' @ p' = tx s @ p @ buf" by simp_all
qed

text \<open>On a stream that takes what is written, a write followed by a flush delivers it.\<close>

lemma flush_buf_ok [simp]:
  "tx_script s = [] \<Longrightarrow> flush_buf p s = (Inr (), [], s\<lparr>tx := tx s @ p\<rparr>)"
  by (simp add: flush_buf_def)

lemma buf_write_all_ok:
  assumes "tx_script s = []"
  shows "\<exists>p s'. buf_write_all cap buf [] s = (Inr (), p, s') \<and> tx_script s' = [] \<and>
    s'\<lparr>tx := tx s' @ p\<rparr> = s\<lparr>tx := tx s @ buf\<rparr>"
  using assms by (auto simp: buf_write_all_def)

end
