(* ===== verification/Serve_Single.thy ===== *)
theory Serve_Single
  imports Control_Threads Cli Buf_Writer Runs
begin

text \<open>
  Single-client serve mode (\<open>run_serve_single\<close> of \<open>src/main.rs\<close>): the start-up, and
  then the four activities that share the connection, the device and the exit flag, as a
  step relation over their interleavings: the main thread (magic packet, sample callback,
  join), the control thread, the cancel thread and the signal handler.
\<close>

section \<open>Shared state\<close>

datatype phase = Starting | Reading | Joining | Returned "rtl_tcp_error + unit"

text \<open>
  \<open>serve_ctl\<close> is the control thread's state and holds the connection, which all the
  clones of the socket share; \<open>pending\<close> is what the buffered writer holds;
  \<open>slot\<close> says that the one-place channel holds a stop request; \<open>shut\<close> that the
  handler has shut the socket down.
\<close>

record serve_state =
  phase :: phase
  serve_ctl :: ctl_state
  pending :: bytes
  total_bytes_sent :: u64
  slot :: bool
  exit_flag :: bool
  cancelled :: bool
  control_done :: bool
  shut :: bool

record serve_env =
  serve_dev_ok :: "dev_call list \<Rightarrow> dev_call \<Rightarrow> bool"
  serve_capacity :: nat

definition broken_pipe :: io_error where
  "broken_pipe = \<lparr>err_kind = BrokenPipe, err_msg = ''Broken pipe''\<rparr>"

text \<open>
  A socket that was shut down reports the end of the stream to all blocked and future reads,
  as \<open>std::net::Shutdown\<close> documents it, and every write fails; each step below makes at
  most two attempts to write.
\<close>

definition shutdown_both :: "tcp \<Rightarrow> tcp" where
  "shutdown_both st = st\<lparr>rx := [], tx_script := replicate 2 (WFault broken_pipe)\<rparr>"

definition socket :: "serve_state \<Rightarrow> tcp" where
  "socket s = (if shut s then shutdown_both (stream (serve_ctl s)) else stream (serve_ctl s))"

definition set_socket :: "tcp \<Rightarrow> serve_state \<Rightarrow> serve_state" where
  "set_socket st s = s\<lparr>serve_ctl := (serve_ctl s)\<lparr>stream := st\<rparr>\<rparr>"

text \<open>
  \<open>try_send\<close> on the channel: it fails when a request is waiting, and when the receiver
  is gone because the cancel thread has ended.
\<close>

definition try_send :: "serve_state \<Rightarrow> bool \<times> serve_state" where
  "try_send s = (if slot s \<or> cancelled s then (False, s) else (True, s\<lparr>slot := True\<rparr>))"

section \<open>The activities\<close>

definition on_signal :: "serve_state \<Rightarrow> serve_state" where
  "on_signal s =
     (case try_send s of
        (ok, s1) \<Rightarrow>
          let s2 = (if ok then s1 else s1\<lparr>exit_flag := True\<rparr>)
          in set_socket (shutdown_both (stream (serve_ctl s2))) (s2\<lparr>shut := True\<rparr>))"

definition on_cancel :: "serve_state \<Rightarrow> serve_state" where
  "on_cancel s =
     (let c = serve_ctl s;
          c' = (if m_poisoned (ctl c) then c
                else c\<lparr>ctl := (ctl c)\<lparr>m_data := m_data (ctl c) @ [CancelAsyncRead]\<rparr>\<rparr>)
      in s\<lparr>slot := False, serve_ctl := c', exit_flag := True, cancelled := True\<rparr>)"

text \<open>
  The magic packet; a failure ends the program, and dropping the buffered writer on the way out
  tries once more to send what it holds.
\<close>

definition on_magic :: "serve_env \<Rightarrow> serve_state \<Rightarrow> serve_state" where
  "on_magic env s =
     (case buf_write_all (serve_capacity env) MAGIC_PACKET (pending s) (socket s) of
        (Inl e, p, st) \<Rightarrow> set_socket (buf_drop p st) (s\<lparr>pending := [], phase := Returned (Inl (Io e))\<rparr>)
      | (Inr _, p, st) \<Rightarrow>
          (case flush_buf p st of
             (Inl e, p', st') \<Rightarrow>
               set_socket (buf_drop p' st') (s\<lparr>pending := [], phase := Returned (Inl (Io e))\<rparr>)
           | (Inr _, p', st') \<Rightarrow> set_socket st' (s\<lparr>pending := p', phase := Reading\<rparr>)))"

text \<open>The callback for one batch of samples.\<close>

definition on_batch :: "serve_env \<Rightarrow> bytes \<Rightarrow> serve_state \<Rightarrow> serve_state" where
  "on_batch env bs s0 =
     (let s = s0\<lparr>total_bytes_sent := total_bytes_sent s0 + of_nat (length bs)\<rparr>
      in case buf_write_all (serve_capacity env) bs (pending s) (socket s) of
           (Inl e, p, st) \<Rightarrow> snd (try_send (set_socket st (s\<lparr>pending := p\<rparr>)))
         | (Inr _, p, st) \<Rightarrow>
             (case flush_buf p st of
                (Inl e, p', st') \<Rightarrow> snd (try_send (set_socket st' (s\<lparr>pending := p'\<rparr>)))
              | (Inr _, p', st') \<Rightarrow> set_socket st' (s\<lparr>pending := p'\<rparr>)))"

text \<open>\<open>read_async\<close> returns: the cancel thread is woken and the threads are joined.\<close>

definition on_read_end :: "serve_state \<Rightarrow> serve_state" where
  "on_read_end s = (snd (try_send s))\<lparr>phase := Joining\<rparr>"

definition on_control :: "serve_env \<Rightarrow> instant \<Rightarrow> serve_state \<Rightarrow> serve_state" where
  "on_control env t s =
     (case single_round (serve_dev_ok env) \<lparr>should_exit = exit_flag s, now = t\<rparr>
             ((serve_ctl s)\<lparr>stream := socket s\<rparr>) of
        (Continue, c) \<Rightarrow> s\<lparr>serve_ctl := c\<rparr>
      | (Break, c) \<Rightarrow> s\<lparr>serve_ctl := add_log ControlThreadExiting c, control_done := True\<rparr>)"

text \<open>At the end the buffered writer is dropped, with what a failed flush has left in it.\<close>

definition on_join :: "serve_state \<Rightarrow> serve_state" where
  "on_join s =
     set_socket (buf_drop (pending s) (socket s)) (s\<lparr>pending := [], phase := Returned (Inr ())\<rparr>)"

section \<open>Interleavings\<close>

definition running :: "serve_state \<Rightarrow> bool" where
  "running s \<longleftrightarrow> (case phase s of Returned r \<Rightarrow> False | _ \<Rightarrow> True)"

datatype serve_event = Signal | Cancel | Magic | Batch bytes | ReadEnd | ControlRound instant | Join

inductive serve_step :: "serve_env \<Rightarrow> serve_event \<Rightarrow> serve_state \<Rightarrow> serve_state \<Rightarrow> bool" for env where
  step_signal: "running s \<Longrightarrow> serve_step env Signal s (on_signal s)"
| step_cancel: "running s \<Longrightarrow> slot s \<Longrightarrow> \<not> cancelled s \<Longrightarrow> serve_step env Cancel s (on_cancel s)"
| step_magic: "phase s = Starting \<Longrightarrow> serve_step env Magic s (on_magic env s)"
| step_batch: "phase s = Reading \<Longrightarrow> serve_step env (Batch bs) s (on_batch env bs s)"
| step_read_end: "phase s = Reading \<Longrightarrow> serve_step env ReadEnd s (on_read_end s)"
| step_control:
    "running s \<Longrightarrow> \<not> control_done s \<Longrightarrow> serve_step env (ControlRound t) s (on_control env t s)"
| step_join:
    "phase s = Joining \<Longrightarrow> cancelled s \<Longrightarrow> control_done s \<Longrightarrow> serve_step env Join s (on_join s)"

inductive_cases serve_step_elims: "serve_step env ev s s'"

inductive_simps serve_step_simps [simp]:
  "serve_step env Signal s s'" "serve_step env Cancel s s'" "serve_step env Magic s s'"
  "serve_step env (Batch bs) s s'" "serve_step env ReadEnd s s'"
  "serve_step env (ControlRound t) s s'" "serve_step env Join s s'"

abbreviation serve_run :: "serve_env \<Rightarrow> serve_event list \<Rightarrow> serve_state \<Rightarrow> serve_state \<Rightarrow> bool" where
  "serve_run env \<equiv> runs (serve_step env)"

section \<open>Start-up\<close>

text \<open>
  Everything up to the first thread, given what binding, accepting, cloning, opening the
  device and installing the handler return, and the two clock readings of the control
  thread's rate limiter.
\<close>

definition serve_begin :: "tcp \<Rightarrow> instant \<Rightarrow> instant \<Rightarrow> serve_state" where
  "serve_begin st t t' =
     \<lparr>phase = Starting,
      serve_ctl =
        \<lparr>stream = st, ctl = \<lparr>m_data = [], m_poisoned = False\<rparr>, agc_st = agc_new,
         unknown_command_count = 0,
         limiter = rate_limiter_new t t' COMMAND_RATE_LIMIT_INTERVAL, log_lines = []\<rparr>,
      pending = [], total_bytes_sent = 0, slot = False, exit_flag = False, cancelled = False,
      control_done = False, shut = False\<rparr>"

definition serve_single_start ::
  "(string \<Rightarrow> 'e + 'n) \<Rightarrow> ('n \<Rightarrow> ip_addr \<Rightarrow> bool) \<Rightarrow> args \<Rightarrow> (rtl_tcp_error + unit) \<Rightarrow>
   (io_error + tcp \<times> ip_addr) \<Rightarrow> (io_error + unit) \<Rightarrow> (string + unit) \<Rightarrow> (string + unit) \<Rightarrow>
   (io_error + unit) \<Rightarrow> instant \<Rightarrow> instant \<Rightarrow> rtl_tcp_error + serve_state" where
  "serve_single_start parse_net net_contains args bound accepted clone1 opened handler clone2 t t' =
     (case bound of Inl e \<Rightarrow> Inl e | Inr _ \<Rightarrow>
      (case lift_io accepted of Inl e \<Rightarrow> Inl e | Inr (conn, addr) \<Rightarrow>
       (case check_whitelist parse_net net_contains (show_ip_addr (to_canonical addr)) (whitelist args) of
          Inl e \<Rightarrow> Inl e
        | Inr _ \<Rightarrow>
        (case set_read_timeout (1000 * unat (arg_read_timeout args)) conn of
           (Inl e, _) \<Rightarrow> Inl (Io e)
         | (Inr _, c1) \<Rightarrow>
         (case set_write_timeout (1000 * unat (arg_write_timeout args)) c1 of
            (Inl e, _) \<Rightarrow> Inl (Io e)
          | (Inr _, c2) \<Rightarrow>
          (case lift_io clone1 of Inl e \<Rightarrow> Inl e | Inr _ \<Rightarrow>
           (case map_err (\<lambda>e. Device (''could not open RTL-SDR device: '' @ e)) opened of
              Inl e \<Rightarrow> Inl e
            | Inr _ \<Rightarrow>
            (case map_err (\<lambda>e. Config (''could not set signal handler: '' @ e)) handler of
               Inl e \<Rightarrow> Inl e
             | Inr _ \<Rightarrow>
             (case lift_io clone2 of Inl e \<Rightarrow> Inl e | Inr _ \<Rightarrow> Inr (serve_begin c2 t t'))))))))))"

section \<open>What every step keeps\<close>

text \<open>
  The invariant: the device is only asked what is in range; a stop request is never lost
  (the exit flag, and the end of the samples, come with a request that is waiting or was
  carried out); and the device is told to stop exactly once, by the cancel thread.
\<close>

definition serve_inv :: "serve_state \<Rightarrow> bool" where
  "serve_inv s \<longleftrightarrow>
     device_safe (serve_ctl s) \<and> \<not> m_poisoned (ctl (serve_ctl s)) \<and>
     cancel_calls (serve_ctl s) = (if cancelled s then 1 else 0) \<and>
     (exit_flag s \<or> shut s \<longrightarrow> slot s \<or> cancelled s) \<and>
     (phase s = Joining \<or> phase s = Returned (Inr ()) \<longrightarrow> slot s \<or> cancelled s) \<and>
     (phase s = Returned (Inr ()) \<longrightarrow> cancelled s \<and> control_done s)"

lemma set_socket_inv [simp]: "serve_inv (set_socket st s) = serve_inv s"
  by (simp add: serve_inv_def set_socket_def device_safe_def cancel_calls_def)

lemma serve_inv_updates [simp]:
  "serve_inv (s\<lparr>pending := p\<rparr>) = serve_inv s"
  "serve_inv (s\<lparr>total_bytes_sent := n\<rparr>) = serve_inv s"
  by (simp_all add: serve_inv_def)

lemma serve_inv_phase:
  "serve_inv s \<Longrightarrow> ph \<noteq> Joining \<Longrightarrow> ph \<noteq> Returned (Inr ()) \<Longrightarrow> serve_inv (s\<lparr>phase := ph\<rparr>)"
  by (simp add: serve_inv_def)

lemma try_send_inv: "serve_inv s \<Longrightarrow> serve_inv (snd (try_send s))"
  by (auto simp: try_send_def serve_inv_def)

lemma try_send_requests: "slot (snd (try_send s)) \<or> cancelled (snd (try_send s))"
  by (auto simp: try_send_def)

lemma serve_step_inv:
  assumes "serve_step env ev s s'" and "serve_inv s"
  shows "serve_inv s'"
  using assms
proof (induction rule: serve_step.induct)
  case (step_signal s)
  then show ?case
    by (auto simp: on_signal_def try_send_def Let_def serve_inv_def set_socket_def device_safe_def
        cancel_calls_def running_def)
next
  case (step_cancel s)
  then show ?case
    by (auto simp: on_cancel_def serve_inv_def Let_def device_safe_def cancel_calls_def)
next
  case (step_magic s)
  then show ?case
    by (auto simp: on_magic_def serve_inv_phase split: prod.splits sum.splits)
next
  case (step_batch s bs)
  then show ?case
    by (auto simp: on_batch_def Let_def try_send_inv split: prod.splits sum.splits)
next
  case (step_read_end s)
  with try_send_requests [of s] try_send_inv [of s] show ?case
    by (auto simp: on_read_end_def serve_inv_def)
next
  case (step_control s t)
  obtain fl c where c: "single_round (serve_dev_ok env) \<lparr>should_exit = exit_flag s, now = t\<rparr>
      ((serve_ctl s)\<lparr>stream := socket s\<rparr>) = (fl, c)" by fastforce
  have pre: "device_safe ((serve_ctl s)\<lparr>stream := socket s\<rparr>) = device_safe (serve_ctl s)"
    "cancel_calls ((serve_ctl s)\<lparr>stream := socket s\<rparr>) = cancel_calls (serve_ctl s)"
    by (simp_all add: device_safe_def cancel_calls_def)
  from single_round_keeps [OF c] step_control pre c show ?case
    by (cases fl)
      (auto simp: on_control_def serve_inv_def running_def device_safe_def cancel_calls_def
        split: phase.splits)
next
  case (step_join s)
  then show ?case by (simp only: on_join_def set_socket_inv) (simp add: serve_inv_def)
qed

interpretation serve: step_system "serve_step env" serve_inv for env
  by unfold_locales (rule serve_step_inv)

lemma serve_begin_inv: "serve_inv (serve_begin st t t')"
  by (simp add: serve_begin_def serve_inv_def device_safe_def cancel_calls_def)

section \<open>Shutting down\<close>

text \<open>How many thread steps are left at most once the socket has been shut down.\<close>

definition remaining :: "serve_state \<Rightarrow> nat" where
  "remaining s =
     (if cancelled s then 0 else 1) + (if control_done s then 0 else 1) +
     (case phase s of Starting \<Rightarrow> 3 | Reading \<Rightarrow> 2 | Joining \<Rightarrow> 1 | Returned r \<Rightarrow> 0)"

lemma try_send_frame:
  "cancelled (snd (try_send s)) = cancelled s" "control_done (snd (try_send s)) = control_done s"
  "phase (snd (try_send s)) = phase s" "shut (snd (try_send s)) = shut s"
  "serve_ctl (snd (try_send s)) = serve_ctl s" "pending (snd (try_send s)) = pending s"
  "total_bytes_sent (snd (try_send s)) = total_bytes_sent s"
  by (auto simp: try_send_def)

lemma set_socket_frame [simp]:
  "cancelled (set_socket st s) = cancelled s" "control_done (set_socket st s) = control_done s"
  "phase (set_socket st s) = phase s" "shut (set_socket st s) = shut s"
  "slot (set_socket st s) = slot s" "pending (set_socket st s) = pending s"
  "total_bytes_sent (set_socket st s) = total_bytes_sent s"
  "stream (serve_ctl (set_socket st s)) = st"
  by (simp_all add: set_socket_def)

lemma control_ends_when_shut:
  assumes "shut s"
  shows "control_done (on_control env t s)"
  using assms
  by (simp add: on_control_def single_round_def socket_def shutdown_both_def tcp_read_exact_def
      COMMAND_HEADER_SIZE_def READ_EXACT_EOF_def is_disconnect_err_def Let_def)

lemma on_control_frame:
  "cancelled (on_control env t s) = cancelled s" "phase (on_control env t s) = phase s"
  "shut (on_control env t s) = shut s" "pending (on_control env t s) = pending s"
  "total_bytes_sent (on_control env t s) = total_bytes_sent s"
  by (auto simp: on_control_def split: prod.splits flow.splits)

text \<open>The steps of the program's own threads, as opposed to signals and samples.\<close>

definition serve_own :: "serve_event \<Rightarrow> bool" where
  "serve_own ev \<longleftrightarrow> (case ev of Signal \<Rightarrow> False | Batch bs \<Rightarrow> False | _ \<Rightarrow> True)"

lemma shut_stays: "serve_step env ev s s' \<Longrightarrow> shut s \<Longrightarrow> shut s'"
  by (induction rule: serve_step.induct)
    (auto simp: on_signal_def on_cancel_def on_magic_def on_batch_def on_read_end_def on_join_def
      on_control_frame try_send_frame Let_def split: prod.splits sum.splits)

lemma shut_step_decreases:
  assumes "serve_step env ev s s'" and "shut s" and "serve_own ev"
  shows "remaining s' < remaining s"
  using assms
proof (induction rule: serve_step.induct)
  case (step_control s t)
  then show ?case
    by (simp add: remaining_def control_ends_when_shut on_control_frame)
qed (auto simp: serve_own_def remaining_def on_cancel_def on_magic_def on_read_end_def on_join_def Let_def
    try_send_frame split: prod.splits sum.splits)

lemma running_step_enabled:
  assumes "serve_inv s" and "running s"
  shows "\<exists>ev s'. serve_own ev \<and> serve_step env ev s s'"
proof -
  have own: "serve_own Cancel" "serve_own Magic" "serve_own ReadEnd" "serve_own (ControlRound t)" "serve_own Join"
    for t by (simp_all add: serve_own_def)
  show ?thesis
  proof (cases "phase s")
    case Starting
    with own(2) step_magic show ?thesis by blast
  next
    case Reading
    with own(3) step_read_end show ?thesis by blast
  next
    case Joining
    with assms(1) have "slot s \<or> cancelled s" by (simp add: serve_inv_def)
    with Joining assms(2) own step_cancel step_control step_join show ?thesis by metis
  next
    case (Returned r)
    with assms(2) show ?thesis by (simp add: running_def)
  qed
qed

interpretation serve_shutdown: stopping_system "serve_step env" serve_inv serve_own shut running remaining for env
  by unfold_locales (blast intro: shut_stays shut_step_decreases running_step_enabled)+

section \<open>What the client receives\<close>

definition CHAIN_ACK :: bytes where
  "CHAIN_ACK = [CMD_CHAIN_DETECT, 0, 0, 0, 0]"

lemma single_dispatch_stream:
  assumes "tx_script (stream s) = []"
  shows "stream (single_dispatch d buf s) = stream s \<or>
    stream (single_dispatch d buf s) = (stream s)\<lparr>tx := tx (stream s) @ CHAIN_ACK\<rparr>"
proof -
  have "stream (chain_ack s) = (stream s)\<lparr>tx := tx (stream s) @ CHAIN_ACK\<rparr>"
    using assms by (simp add: chain_ack_def CHAIN_ACK_def Let_def)
  then show ?thesis by (simp add: single_dispatch_def Let_def)
qed

lemma single_round_stream:
  assumes "single_round d r c = (fl, c')" and "tx_script (stream c) = []"
  shows "tx_script (stream c') = [] \<and>
    (tx (stream c') = tx (stream c) \<or> tx (stream c') = tx (stream c) @ CHAIN_ACK)"
proof -
  obtain res st where st: "tcp_read_exact COMMAND_HEADER_SIZE (stream c) = (res, st)"
    by (cases "tcp_read_exact COMMAND_HEADER_SIZE (stream c)")
  then have fr: "tx st = tx (stream c)" "tx_script st = tx_script (stream c)"
    by (auto simp: tcp_read_exact_def split: prod.splits)
  show ?thesis
  proof (cases "\<exists>buf rl. res = Inr buf \<and> c' = single_dispatch d buf (c\<lparr>stream := st, limiter := rl\<rparr>)")
    case True
    then obtain buf rl where c': "c' = single_dispatch d buf (c\<lparr>stream := st, limiter := rl\<rparr>)"
      by blast
    with single_dispatch_stream [of "c\<lparr>stream := st, limiter := rl\<rparr>" d buf] fr assms(2)
    show ?thesis by auto
  next
    case False
    with assms st have "stream c' = st"
      by (auto simp: single_round_def Let_def split: sum.splits prod.splits if_splits)
    with fr assms(2) show ?thesis by simp
  qed
qed

text \<open>What an event contributes to the bytes sent, on a socket that takes what is written.\<close>

definition contributes :: "serve_event \<Rightarrow> bytes \<Rightarrow> bool" where
  "contributes ev out \<longleftrightarrow>
     (case ev of
        Magic \<Rightarrow> out = MAGIC_PACKET
      | Batch bs \<Rightarrow> out = bs
      | ControlRound t \<Rightarrow> out = [] \<or> out = CHAIN_ACK
      | _ \<Rightarrow> out = [])"

definition clear :: "serve_state \<Rightarrow> bool" where
  "clear s \<longleftrightarrow> \<not> shut s \<and> pending s = [] \<and> tx_script (stream (serve_ctl s)) = []"

fun batch_bytes :: "serve_event list \<Rightarrow> nat" where
  "batch_bytes [] = 0"
| "batch_bytes (ev # evs) = (case ev of Batch bs \<Rightarrow> length bs | _ \<Rightarrow> 0) + batch_bytes evs"

lemma batch_bytes_append [simp]: "batch_bytes (xs @ ys) = batch_bytes xs + batch_bytes ys"
  by (induction xs) auto

lemma buffered_send_ok:
  assumes "tx_script st = []"
  obtains p st1 where "buf_write_all cap buf [] st = (Inr (), p, st1)"
    "flush_buf p st1 = (Inr (), [], st\<lparr>tx := tx st @ buf\<rparr>)"
  using buf_write_all_ok [OF assms, of cap buf] by auto

lemma clear_step:
  assumes "serve_step env ev s s'" and "clear s" and "ev \<noteq> Signal"
  shows "\<exists>out. contributes ev out \<and> clear s' \<and>
    tx (stream (serve_ctl s')) = tx (stream (serve_ctl s)) @ out \<and>
    total_bytes_sent s' = total_bytes_sent s + of_nat (batch_bytes [ev])"
  using assms
proof (induction rule: serve_step.induct)
  case (step_magic s)
  then have "tx_script (socket s) = []" by (simp add: clear_def socket_def)
  then obtain p st1 where "buf_write_all (serve_capacity env) MAGIC_PACKET [] (socket s) = (Inr (), p, st1)"
    "flush_buf p st1 = (Inr (), [], (socket s)\<lparr>tx := tx (socket s) @ MAGIC_PACKET\<rparr>)"
    by (rule buffered_send_ok)
  with step_magic show ?case by (auto simp: on_magic_def clear_def contributes_def socket_def)
next
  case (step_batch s bs)
  then have "tx_script (socket s) = []" by (simp add: clear_def socket_def)
  then obtain p st1 where "buf_write_all (serve_capacity env) bs [] (socket s) = (Inr (), p, st1)"
    "flush_buf p st1 = (Inr (), [], (socket s)\<lparr>tx := tx (socket s) @ bs\<rparr>)"
    by (rule buffered_send_ok)
  with step_batch show ?case
    by (auto simp: on_batch_def clear_def contributes_def socket_def Let_def)
next
  case (step_control s t)
  obtain fl c where c: "single_round (serve_dev_ok env) \<lparr>should_exit = exit_flag s, now = t\<rparr>
      ((serve_ctl s)\<lparr>stream := socket s\<rparr>) = (fl, c)" by fastforce
  have s: "\<not> shut s" "pending s = []" "tx_script (socket s) = []" "tx (socket s) = tx (stream (serve_ctl s))"
    using step_control.prems(1) [unfolded clear_def] by (simp_all add: socket_def)
  from single_round_stream [OF c] s obtain out where
    out: "tx_script (stream c) = []" "tx (stream c) = tx (stream (serve_ctl s)) @ out" "out = [] \<or> out = CHAIN_ACK"
    by auto
  have "stream (serve_ctl (on_control env t s)) = stream c"
    using c by (cases fl) (simp_all add: on_control_def)
  with s(1,2) out(1,2) have "clear (on_control env t s)"
    "tx (stream (serve_ctl (on_control env t s))) = tx (stream (serve_ctl s)) @ out"
    by (simp_all only: clear_def on_control_frame simp_thms)
  moreover have "contributes (ControlRound t) out" using out(3) by (simp add: contributes_def)
  ultimately show ?case by (intro exI [of _ out]) (simp add: on_control_frame)
qed (auto simp: on_cancel_def on_read_end_def on_join_def buf_drop_def flush_buf_def socket_def clear_def
    contributes_def Let_def try_send_frame)

lemma clear_run:
  assumes "serve_run env evs s s'" and "clear s" and "Signal \<notin> set evs"
  shows "\<exists>outs. list_all2 contributes evs outs \<and> clear s' \<and>
    tx (stream (serve_ctl s')) = tx (stream (serve_ctl s)) @ concat outs \<and>
    total_bytes_sent s' = total_bytes_sent s + of_nat (batch_bytes evs)"
  using assms
proof (induction rule: runs.induct)
  case (runs_none s)
  then show ?case by simp
next
  case (runs_more evs s s1 ev s2)
  then obtain outs where outs: "list_all2 contributes evs outs" "clear s1"
    "tx (stream (serve_ctl s1)) = tx (stream (serve_ctl s)) @ concat outs"
    "total_bytes_sent s1 = total_bytes_sent s + of_nat (batch_bytes evs)" by auto
  from clear_step [OF runs_more.hyps(2) outs(2)] runs_more.prems obtain out where
    "contributes ev out" "clear s2" "tx (stream (serve_ctl s2)) = tx (stream (serve_ctl s1)) @ out"
    "total_bytes_sent s2 = total_bytes_sent s1 + of_nat (batch_bytes [ev])" by auto
  with outs show ?case
    by (intro exI [of _ "outs @ [out]"]) (auto intro: list_all2_appendI)
qed

section \<open>Properties\<close>

text \<open>
  C6. Under every interleaving of the threads, the signal handler and the sample callback of
  single-client mode: the device is only ever asked for values in range; it is told to stop exactly
  once, by the cancel thread; a stop request is never lost (whenever the exit flag is set
  or the socket was shut down, a request is waiting or was carried out); and the program
  reports success only after the device was told to stop and the control thread has ended.
\<close>

theorem serve_single_invariant:
  assumes "serve_run env evs (serve_begin st t t') s"
  shows "list_all call_in_range (m_data (ctl (serve_ctl s))) \<and>
    cancel_calls (serve_ctl s) = (if cancelled s then 1 else 0) \<and>
    (exit_flag s \<or> shut s \<longrightarrow> slot s \<or> cancelled s) \<and>
    (phase s = Returned (Inr ()) \<longrightarrow> cancelled s \<and> control_done s)"
  using serve.run_inv [OF assms serve_begin_inv] by (simp add: serve_inv_def device_safe_def)

text \<open>The run of the witnesses: the client sends two commands and the user interrupts.\<close>

definition demo_env :: serve_env where
  "demo_env = \<lparr>serve_dev_ok = (\<lambda>_ _. True), serve_capacity = 16\<rparr>"

definition demo_begin :: serve_state where
  "demo_begin = serve_begin (fresh_tcp [Data [1, 0, 0, 0, 9, 240, 0, 0, 0, 0]]) 0 0"

definition demo_stopped :: serve_state where
  "demo_stopped = on_signal (on_control demo_env 1 (on_magic demo_env demo_begin))"

lemma demo_run:
  "serve_run demo_env [Magic, ControlRound 1, Signal] demo_begin demo_stopped"
proof -
  have m: "phase (on_magic demo_env demo_begin) = Reading" "\<not> control_done (on_magic demo_env demo_begin)"
    by (simp_all add: on_magic_def demo_begin_def serve_begin_def socket_def demo_env_def
        buf_write_all_def MAGIC_PACKET_def)
  have "serve_step demo_env Magic demo_begin (on_magic demo_env demo_begin)"
    by (simp add: demo_begin_def serve_begin_def)
  moreover have "serve_step demo_env (ControlRound 1) (on_magic demo_env demo_begin)
      (on_control demo_env 1 (on_magic demo_env demo_begin))"
    using m by (simp add: running_def)
  moreover have "serve_step demo_env Signal (on_control demo_env 1 (on_magic demo_env demo_begin)) demo_stopped"
    using m by (simp add: running_def on_control_frame demo_stopped_def)
  ultimately show ?thesis by (blast intro: runs_Cons runs_none)
qed

theorem serve_single_invariant_witness:
  "serve_run demo_env [Magic, ControlRound 1, Signal] demo_begin demo_stopped \<and> shut demo_stopped \<and>
   list_all call_in_range (m_data (ctl (serve_ctl demo_stopped))) \<and>
   (slot demo_stopped \<or> cancelled demo_stopped)"
proof -
  have "shut demo_stopped" by (simp add: demo_stopped_def on_signal_def Let_def split: prod.splits)
  with demo_run serve_single_invariant [of demo_env "[Magic, ControlRound 1, Signal]"
      "fresh_tcp [Data [1, 0, 0, 0, 9, 240, 0, 0, 0, 0]]" 0 0 demo_stopped]
  show ?thesis by (simp add: demo_begin_def)
qed

text \<open>
  C7. An interrupt ends single-client mode: from every reachable state after the handler has
  shut the socket down, the threads take at most five more steps, in any order (further
  signals and batches of samples apart), and as long as the program has not returned some
  thread can take one. The device library is taken to return from \<open>read_async\<close> eventually.
\<close>

theorem serve_single_shutdown:
  assumes "serve_run env evs0 (serve_begin st t t') s" and "shut s"
    and "serve_run env evs s s'" and "list_all serve_own evs"
  shows "length evs \<le> 5 \<and> (running s' \<longrightarrow> (\<exists>ev s''. serve_own ev \<and> serve_step env ev s' s''))"
proof -
  have "remaining s \<le> 5" by (simp add: remaining_def split: phase.splits)
  with serve_shutdown.shutdown_terminates [OF assms(3,4,2) serve.run_inv [OF assms(1) serve_begin_inv]]
  show ?thesis by auto
qed

theorem serve_single_shutdown_witness:
  "serve_run demo_env [Cancel] demo_stopped (on_cancel demo_stopped) \<and> length [Cancel] \<le> 5 \<and>
   running (on_cancel demo_stopped) \<and>
   (\<exists>ev s''. serve_own ev \<and> serve_step demo_env ev (on_cancel demo_stopped) s'')"
proof -
  have sh: "shut demo_stopped" by (simp add: demo_stopped_def on_signal_def Let_def split: prod.splits)
  have "phase demo_stopped = phase (on_magic demo_env demo_begin)"
    by (auto simp: demo_stopped_def on_signal_def Let_def on_control_frame try_send_def)
  then have ru: "running demo_stopped" "running (on_cancel demo_stopped)"
    by (simp_all add: running_def on_cancel_def on_magic_def demo_begin_def serve_begin_def socket_def demo_env_def
        buf_write_all_def MAGIC_PACKET_def Let_def)
  have fresh: "\<not> cancelled demo_stopped" "slot demo_stopped"
    by (auto simp: demo_stopped_def on_signal_def Let_def on_control_frame try_send_def on_magic_def demo_begin_def
        serve_begin_def split: prod.splits sum.splits)
  from step_cancel [OF ru(1) fresh(2,1), of demo_env] have
    run: "serve_run demo_env [Cancel] demo_stopped (on_cancel demo_stopped)" by (rule runs_one)
  have "list_all serve_own [Cancel]" by (simp add: serve_own_def)
  from serve_single_shutdown [OF demo_run [unfolded demo_begin_def] sh run this] ru run show ?thesis by blast
qed

text \<open>
  C8. Without an interrupt, and on a connection that takes what is written, the client
  receives exactly this: the magic packet and every batch of samples whole, in the order the
  device delivered them, with nothing in between but the acknowledgements of its chain
  probes; and the byte counter is the number of sample bytes modulo its width.
\<close>

theorem serve_single_delivers:
  assumes "serve_run env evs (serve_begin st t t') s" and "tx st = []" and "tx_script st = []"
    and "Signal \<notin> set evs"
  shows "\<exists>outs. list_all2 contributes evs outs \<and> tx (stream (serve_ctl s)) = concat outs \<and>
    total_bytes_sent s = of_nat (batch_bytes evs)"
proof -
  have "clear (serve_begin st t t')" using assms(3) by (simp add: clear_def serve_begin_def)
  from clear_run [OF assms(1) this assms(4)] assms(2) show ?thesis
    by (auto simp: serve_begin_def)
qed

theorem serve_single_delivers_witness:
  "\<exists>s outs. serve_run demo_env [Magic, Batch [5, 6], Batch [7]] demo_begin s \<and>
     list_all2 contributes [Magic, Batch [5, 6], Batch [7]] outs \<and>
     tx (stream (serve_ctl s)) = concat outs \<and> total_bytes_sent s = 3"
proof -
  let ?s1 = "on_magic demo_env demo_begin"
  let ?s2 = "on_batch demo_env [5, 6] ?s1"
  let ?s3 = "on_batch demo_env [7] ?s2"
  have p1: "phase ?s1 = Reading" and p2: "phase ?s2 = Reading"
    by (simp_all add: on_magic_def on_batch_def demo_begin_def serve_begin_def socket_def demo_env_def
        buf_write_all_def MAGIC_PACKET_def set_socket_def Let_def)
  have "serve_step demo_env Magic demo_begin ?s1" by (simp add: demo_begin_def serve_begin_def)
  moreover have "serve_step demo_env (Batch [5, 6]) ?s1 ?s2" "serve_step demo_env (Batch [7]) ?s2 ?s3"
    using p1 p2 by simp_all
  ultimately have run: "serve_run demo_env [Magic, Batch [5, 6], Batch [7]] demo_begin ?s3"
    by (blast intro: runs_Cons runs_none)
  from serve_single_delivers [OF run [unfolded demo_begin_def]] run show ?thesis
    by (fastforce simp: demo_begin_def)
qed

text \<open>
  With validated arguments, and when the sockets, the device and the signal handler are
  available, the only thing that keeps the single-client server from starting is the
  whitelist; when it starts, both timeouts of the connection are set as asked.
\<close>

lemma serve_single_start_ok:
  assumes "args_ok args"
  shows "serve_single_start parse_net net_contains args (Inr ()) (Inr (conn, addr)) (Inr ()) (Inr ())
      (Inr ()) (Inr ()) t t' =
    (case check_whitelist parse_net net_contains (show_ip_addr (to_canonical addr)) (whitelist args) of
       Inl e \<Rightarrow> Inl e
     | Inr _ \<Rightarrow> Inr (serve_begin
         (conn\<lparr>read_timeout := Some (1000 * unat (arg_read_timeout args)),
               write_timeout := Some (1000 * unat (arg_write_timeout args))\<rparr>) t t'))"
proof -
  have "unat (arg_read_timeout args) \<noteq> 0" "unat (arg_write_timeout args) \<noteq> 0"
    using assms by (simp_all add: args_ok_def)
  then show ?thesis
    by (simp add: serve_single_start_def set_read_timeout_def set_write_timeout_def split: sum.splits)
qed

end
