(* ===== verification/Slave_Acceptor.thy ===== *)
theory Slave_Acceptor
  imports Control Buf_Writer Loops
begin

text \<open>
  The thread that accepts read-only clients (\<open>spawn_slave_acceptor\<close> of
  \<open>src/main.rs\<close>). \<open>parse_net\<close> and \<open>net_contains\<close> are the \<open>ipnet\<close>
  crate's parser and membership test.
\<close>

record acceptor_env =
  acc_magic :: bytes
  acc_whitelist :: "string list"
  acc_max_slaves :: nat
  acc_tcp_buffers :: nat

text \<open>
  What \<open>accept\<close> returns: a connection with its address, and whether the two
  \<open>try_clone\<close> calls on it succeed, or an error (\<open>WouldBlock\<close> when nobody waits).
\<close>

datatype accept_result = Accepted tcp ip_addr bool bool | AcceptError io_error

record acceptor_round_in =
  acc_should_exit :: bool
  acc_result :: accept_result

text \<open>
  \<open>all_streams\<close> is the shared list of connections to shut down at the end;
  \<open>slaves\<close> are the connections handed to a writer thread each.
\<close>

record acceptor_state =
  slave_count :: nat
  all_streams :: "tcp list mutex"
  slaves :: "(ip_addr \<times> tcp) list"
  acc_panicked :: bool

text \<open>Sending the magic packet through a buffered writer; both results are ignored.\<close>

definition send_magic_unchecked :: "nat \<Rightarrow> bytes \<Rightarrow> tcp \<Rightarrow> tcp" where
  "send_magic_unchecked capacity magic s =
     (case buf_write_all capacity magic [] s of
        (_, p, s1) \<Rightarrow> (case flush_buf p s1 of (_, p', s2) \<Rightarrow> buf_drop p' s2))"

definition admit_slave ::
  "acceptor_env \<Rightarrow> tcp \<Rightarrow> ip_addr \<Rightarrow> bool \<Rightarrow> bool \<Rightarrow> acceptor_state \<Rightarrow> flow \<times> acceptor_state" where
  "admit_slave env conn ip clone1 clone2 s =
     (let st = snd (set_write_timeout 30000 conn)
      in if m_poisoned (all_streams s) then (Break, s\<lparr>acc_panicked := True\<rparr>)
         else if \<not> clone1 then
           (Break, s\<lparr>acc_panicked := True, all_streams := (all_streams s)\<lparr>m_poisoned := True\<rparr>\<rparr>)
         else
           let s' = s\<lparr>all_streams := (all_streams s)\<lparr>m_data := m_data (all_streams s) @ [st]\<rparr>\<rparr>
           in if \<not> clone2 then (Break, s'\<lparr>acc_panicked := True\<rparr>)
              else (Continue,
                s'\<lparr>slaves := slaves s' @ [(ip, send_magic_unchecked (acc_tcp_buffers env) (acc_magic env) st)],
                   slave_count := slave_count s' + 1\<rparr>))"

definition acceptor_round ::
  "(string \<Rightarrow> 'e + 'n) \<Rightarrow> ('n \<Rightarrow> ip_addr \<Rightarrow> bool) \<Rightarrow> acceptor_env \<Rightarrow> acceptor_round_in \<Rightarrow>
   acceptor_state \<Rightarrow> flow \<times> acceptor_state" where
  "acceptor_round parse_net net_contains env r s =
     (if acc_should_exit r then (Break, s)
      else if acc_max_slaves env \<le> slave_count s then (Continue, s)
      else (case acc_result r of
              Accepted conn addr clone1 clone2 \<Rightarrow>
                (let ip = show_ip_addr (to_canonical addr)
                 in case check_whitelist parse_net net_contains ip (acc_whitelist env) of
                      Inl e \<Rightarrow> (Continue, s)
                    | Inr _ \<Rightarrow> admit_slave env conn addr clone1 clone2 s)
            | AcceptError e \<Rightarrow> (Continue, s)))"

fun acceptor_loop ::
  "(string \<Rightarrow> 'e + 'n) \<Rightarrow> ('n \<Rightarrow> ip_addr \<Rightarrow> bool) \<Rightarrow> acceptor_env \<Rightarrow> acceptor_round_in list \<Rightarrow>
   acceptor_state \<Rightarrow> flow \<times> acceptor_state" where
  "acceptor_loop parse_net net_contains env [] s = (Continue, s)"
| "acceptor_loop parse_net net_contains env (r # rs) s =
     (case acceptor_round parse_net net_contains env r s of
        (Break, s') \<Rightarrow> (Break, s')
      | (Continue, s') \<Rightarrow> acceptor_loop parse_net net_contains env rs s')"

definition acceptor_start :: "tcp list mutex \<Rightarrow> acceptor_state" where
  "acceptor_start streams =
     \<lparr>slave_count = 0, all_streams = streams, slaves = [], acc_panicked = False\<rparr>"

section \<open>The magic packet comes first\<close>

lemma flush_buf_more:
  assumes "flush_buf p s = (r, p', s')"
  shows "prefix (tx s) (tx s')"
proof -
  obtain r0 sent es where "send_script p (tx_script s) = (r0, sent, es)"
    by (cases "send_script p (tx_script s)")
  with assms show ?thesis by (auto simp: flush_buf_def)
qed

lemma buf_drop_prefix: "prefix (tx (buf_drop p s)) (tx s @ p)"
proof -
  obtain r p' s' where fl: "flush_buf p s = (r, p', s')" by (cases "flush_buf p s")
  from flush_buf_conserves(1) [OF fl] fl show ?thesis by (metis buf_drop_def prefixI snd_conv)
qed

lemma send_magic_unchecked_ok:
  assumes "tx_script s = []"
  shows "tx (send_magic_unchecked cap magic s) = tx s @ magic"
proof -
  from buf_write_all_ok [OF assms, of cap magic] obtain p s1 where
    w: "buf_write_all cap magic [] s = (Inr (), p, s1)" "tx_script s1 = []"
      "s1\<lparr>tx := tx s1 @ p\<rparr> = s\<lparr>tx := tx s @ magic\<rparr>" by blast
  then have "tx s1 @ p = tx s @ magic" by (metis tcp.select_convs(2) tcp.surjective tcp.update_convs(2))
  with w assms show ?thesis by (simp add: send_magic_unchecked_def buf_drop_def)
qed

lemma send_magic_unchecked_prefix:
  assumes "0 < cap"
  shows "prefix (tx (send_magic_unchecked cap magic s)) (tx s @ magic)"
proof -
  obtain r1 p1 s1 where w: "buf_write_all cap magic [] s = (r1, p1, s1)"
    by (cases "buf_write_all cap magic [] s")
  obtain r2 p2 s2 where fl: "flush_buf p1 s1 = (r2, p2, s2)" by (cases "flush_buf p1 s1")
  have "prefix (tx (buf_drop p2 s2)) (tx s2 @ p2)" by (rule buf_drop_prefix)
  also have "tx s2 @ p2 = tx s1 @ p1" by (rule flush_buf_conserves(1) [OF fl])
  also have "prefix (tx s1 @ p1) (tx s @ magic)"
    using buf_write_all_conserves(1) [OF w assms] by simp
  finally show ?thesis using w fl by (simp add: send_magic_unchecked_def)
qed

section \<open>The acceptor's invariant\<close>

text \<open>
  Every client counted has a connection, never more than the limit; each of them passed the
  whitelist.
\<close>

definition acceptor_inv ::
  "(string \<Rightarrow> 'e + 'n) \<Rightarrow> ('n \<Rightarrow> ip_addr \<Rightarrow> bool) \<Rightarrow> acceptor_env \<Rightarrow> acceptor_state \<Rightarrow> bool" where
  "acceptor_inv parse_net net_contains env s \<longleftrightarrow>
     slave_count s = length (slaves s) \<and> slave_count s \<le> acc_max_slaves env \<and>
     list_all (\<lambda>(ip, st). acc_whitelist env = [] \<or>
       is_ip_in_whitelist parse_net net_contains (show_ip_addr (to_canonical ip)) (acc_whitelist env))
       (slaves s)"

lemma admit_slave_cases:
  assumes "admit_slave env conn ip c1 c2 s = (fl, s')"
  obtains "fl = Continue" "slave_count s' = Suc (slave_count s)"
    "slaves s' = slaves s @ [(ip, send_magic_unchecked (acc_tcp_buffers env) (acc_magic env)
        (snd (set_write_timeout 30000 conn)))]"
  | "fl = Break" "slave_count s' = slave_count s" "slaves s' = slaves s" "acc_panicked s'"
  using assms by (auto simp: admit_slave_def Let_def split: if_splits)

lemma acceptor_round_inv:
  assumes "acceptor_round p c env r s = (fl, s')" and "acceptor_inv p c env s"
  shows "acceptor_inv p c env s'"
proof (cases "s' = s")
  case False
  with assms(1) obtain conn ip c1 c2 where
    lim: "slave_count s < acc_max_slaves env" and
    ok: "check_whitelist p c (show_ip_addr (to_canonical ip)) (acc_whitelist env) = Inr ()" and
    adm: "admit_slave env conn ip c1 c2 s = (fl, s')"
    by (auto simp: acceptor_round_def Let_def split: if_splits accept_result.splits sum.splits)
  from ok check_whitelist_cases [of p c "show_ip_addr (to_canonical ip)" "acc_whitelist env"]
  have "acc_whitelist env = [] \<or>
      is_ip_in_whitelist p c (show_ip_addr (to_canonical ip)) (acc_whitelist env)" by auto
  with adm lim assms(2) show ?thesis
    by (elim admit_slave_cases) (auto simp: acceptor_inv_def)
qed (use assms in simp)

lemma acceptor_loop_inv:
  "acceptor_loop p c env rs s = (fl, s') \<Longrightarrow> acceptor_inv p c env s \<Longrightarrow> acceptor_inv p c env s'"
proof (induction rs arbitrary: s)
  case (Cons r rs)
  obtain f1 s1 where "acceptor_round p c env r s = (f1, s1)"
    by (cases "acceptor_round p c env r s")
  with Cons acceptor_round_inv [of p c env r s f1 s1] show ?case by (cases f1) auto
qed simp


section \<open>Properties\<close>

text \<open>
  C28. The acceptor never hands out more connections than \<open>--max-slaves\<close>, whatever
  connects and however often, and every client it serves passed the whitelist check.
\<close>

theorem acceptor_limits:
  "length (slaves (snd (acceptor_loop parse_net net_contains env rs (acceptor_start streams))))
     \<le> acc_max_slaves env \<and>
   list_all (\<lambda>(ip, st). acc_whitelist env = [] \<or>
       is_ip_in_whitelist parse_net net_contains (show_ip_addr (to_canonical ip)) (acc_whitelist env))
     (slaves (snd (acceptor_loop parse_net net_contains env rs (acceptor_start streams))))"
proof -
  obtain fl s where s: "acceptor_loop parse_net net_contains env rs (acceptor_start streams) = (fl, s)"
    by (cases "acceptor_loop parse_net net_contains env rs (acceptor_start streams)")
  have "acceptor_inv parse_net net_contains env (acceptor_start streams)"
    by (simp add: acceptor_inv_def acceptor_start_def)
  from acceptor_loop_inv [OF s this] s show ?thesis by (simp add: acceptor_inv_def)
qed



text \<open>
  A client whose connection takes what is written has received exactly the magic packet
  when its writer starts, whatever the size of the send buffer; on a connection that fails,
  a prefix of it and nothing else.
\<close>

lemma slave_gets_magic:
  assumes "0 < acc_tcp_buffers env" and "admit_slave env conn ip True True s = (fl, s')"
    and "\<not> m_poisoned (all_streams s)" and "tx conn = []"
  shows "\<exists>st. fl = Continue \<and> slaves s' = slaves s @ [(ip, st)] \<and> prefix (tx st) (acc_magic env) \<and>
    (tx_script conn = [] \<longrightarrow> tx st = acc_magic env)"
proof -
  let ?conn = "snd (set_write_timeout 30000 conn)"
  have conn: "tx ?conn = []" "tx_script ?conn = tx_script conn"
    using assms(4) by (simp_all add: set_write_timeout_def)
  from assms(2,3) have "fl = Continue" "slaves s' = slaves s @
      [(ip, send_magic_unchecked (acc_tcp_buffers env) (acc_magic env) ?conn)]"
    by (auto simp: admit_slave_def Let_def)
  with conn send_magic_unchecked_prefix [OF assms(1), of "acc_magic env" ?conn]
    send_magic_unchecked_ok [of ?conn "acc_tcp_buffers env" "acc_magic env"]
  show ?thesis by auto
qed

lemma slave_gets_magic_witness:
  "\<exists>fl s' st. admit_slave
      \<lparr>acc_magic = [7, 8, 9], acc_whitelist = [], acc_max_slaves = 1, acc_tcp_buffers = 2\<rparr>
      (fresh_tcp []) (V4 10 0 0 1) True True (acceptor_start \<lparr>m_data = [], m_poisoned = False\<rparr>) =
        (fl, s') \<and> slaves s' = [(V4 10 0 0 1, st)] \<and> tx st = [7, 8, 9]"
proof -
  let ?env = "\<lparr>acc_magic = [7, 8, 9], acc_whitelist = [], acc_max_slaves = 1, acc_tcp_buffers = 2\<rparr>"
  let ?s = "acceptor_start \<lparr>m_data = [], m_poisoned = False\<rparr>"
  obtain fl s' where s': "admit_slave ?env (fresh_tcp []) (V4 10 0 0 1) True True ?s = (fl, s')"
    by (cases "admit_slave ?env (fresh_tcp []) (V4 10 0 0 1) True True ?s")
  have "slaves ?s = []" by (simp add: acceptor_start_def)
  with slave_gets_magic [OF _ s'] s' show ?thesis by (auto simp: acceptor_start_def)
qed

end
