(* ===== verification/Serve_Multi.thy ===== *)
theory Serve_Multi
  imports Control_Threads Slave_Acceptor Cli
begin

text \<open>
  Multi-client serve mode (\<open>run_serve_multi\<close> of \<open>src/main.rs\<close>): the start-up, the
  loop that accepts one master after the other and runs its control thread to the end, and
  the shutdown. The slaves are served by the acceptor's threads, the samples go through the
  broadcast channel; what the main thread shares with them are the device, the nonces and
  the list of connections.
\<close>

section \<open>State\<close>

text \<open>
  \<open>mu_masters\<close> are the masters served so far, each with its connection as the control
  thread left it.
\<close>

record 'c multi_state =
  mu_ctl :: "dev_call list mutex"
  mu_agc :: agc_state
  mu_nonces :: "(bytes \<times> bytes) option"
  mu_streams :: "tcp list mutex"
  mu_masters :: "(ip_addr \<times> tcp) list"

text \<open>
  Where the main thread is: in its loop, waiting for a control thread, returned, or
  panicked.
\<close>

datatype 'a outcome = Going 'a | Waiting 'a | Finished "rtl_tcp_error + unit" 'a | Panicked 'a

fun outcome_state :: "'a outcome \<Rightarrow> 'a" where
  "outcome_state (Going s) = s"
| "outcome_state (Waiting s) = s"
| "outcome_state (Finished r s) = s"
| "outcome_state (Panicked s) = s"

text \<open>
  What one turn of the loop meets outside: the exit flag at its two tests, what
  \<open>accept\<close> returns, the results of the four \<open>try_clone\<close> calls, the bytes the new
  writer thread puts on the connection before the magic packet is sent, the rounds of the
  control thread and the clock readings of its rate limiter.
\<close>

record turn =
  tu_exit :: bool
  tu_accept :: "io_error + tcp \<times> ip_addr"
  tu_clone_list :: "io_error + unit"
  tu_clone_writer :: "io_error + unit"
  tu_clone_magic :: "io_error + unit"
  tu_clone_control :: "io_error + unit"
  tu_early :: bytes
  tu_rounds :: "master_input list"
  tu_clock :: "instant \<times> instant"
  tu_exit_after :: bool

section \<open>The writer of a master\<close>

text \<open>
  How a master's writer thread starts: on the plain socket, waiting for a handshake, or
  encrypting at once with the nonce it finds.
\<close>

datatype 'c writer_start = PlainWriter | AwaitingNonces | EncryptingWriter 'c

definition master_writer ::
  "(bytes \<Rightarrow> bytes \<Rightarrow> 'c) \<Rightarrow> bytes option \<Rightarrow> (bytes \<times> bytes) option \<Rightarrow> 'c writer_start" where
  "master_writer cipher_new ekey nonces =
     (case ekey of
        None \<Rightarrow> PlainWriter
      | Some k \<Rightarrow>
          (case nonces of
             None \<Rightarrow> AwaitingNonces
           | Some (my_nonce, _) \<Rightarrow> EncryptingWriter (cipher_new k my_nonce)))"

section \<open>A master's session\<close>

definition send_magic :: "nat \<Rightarrow> bytes \<Rightarrow> tcp \<Rightarrow> (io_error + unit) \<times> tcp" where
  "send_magic capacity magic s =
     (case buf_write_all capacity magic [] s of
        (Inl e, p, s1) \<Rightarrow> (Inl e, buf_drop p s1)
      | (Inr _, p, s1) \<Rightarrow>
          (case flush_buf p s1 of (r, p', s2) \<Rightarrow> (r, buf_drop p' s2)))"

definition control_session ::
  "'c master_env \<Rightarrow> args \<Rightarrow> turn \<Rightarrow> tcp \<Rightarrow> ip_addr \<Rightarrow> 'c multi_state \<Rightarrow> 'c multi_state outcome option" where
  "control_session env args tu st addr s =
     (case master_loop env (tu_rounds tu)
             (master_start st (mu_ctl s) (mu_agc s) (mu_nonces s)
               (1000 * unat (arg_read_timeout args)) (fst (tu_clock tu)) (snd (tu_clock tu))) of
        None \<Rightarrow> None
      | Some (fl, m) \<Rightarrow>
          let s' = s\<lparr>mu_ctl := ctl m, mu_agc := agc_st m, mu_nonces := encryption_nonces m\<rparr>
          in Some (case fl of
                     Continue \<Rightarrow> Waiting s'
                   | Break \<Rightarrow> Going (s'\<lparr>mu_masters := mu_masters s' @ [(addr, stream m)]\<rparr>)))"

definition master_session ::
  "'c master_env \<Rightarrow> args \<Rightarrow> turn \<Rightarrow> tcp \<Rightarrow> ip_addr \<Rightarrow> 'c multi_state \<Rightarrow> 'c multi_state outcome option" where
  "master_session env args tu conn addr s =
     (case set_read_timeout (1000 * unat (arg_read_timeout args)) conn of
        (Inl e, _) \<Rightarrow> Some (Finished (Inl (Io e)) s)
      | (Inr _, c1) \<Rightarrow>
     (case set_write_timeout (1000 * unat (arg_write_timeout args)) c1 of
        (Inl e, _) \<Rightarrow> Some (Finished (Inl (Io e)) s)
      | (Inr _, c2) \<Rightarrow>
     (if m_poisoned (mu_streams s) then Some (Panicked s)
      else (case tu_clone_list tu of
        Inl e \<Rightarrow> Some (Finished (Inl (Io e)) s)
      | Inr _ \<Rightarrow>
     (let s1 = s\<lparr>mu_streams := (mu_streams s)\<lparr>m_data := m_data (mu_streams s) @ [c2]\<rparr>\<rparr>
      in case tu_clone_writer tu of
        Inl e \<Rightarrow> Some (Finished (Inl (Io e)) s1)
      | Inr _ \<Rightarrow>
     (case tu_clone_magic tu of
        Inl e \<Rightarrow> Some (Finished (Inl (Io e)) s1)
      | Inr _ \<Rightarrow>
     (case send_magic (unat (tcp_buffers args)) MAGIC_PACKET (c2\<lparr>tx := tx c2 @ tu_early tu\<rparr>) of
        (Inl e, _) \<Rightarrow> Some (Finished (Inl (Io e)) s1)
      | (Inr _, c3) \<Rightarrow>
     (case tu_clone_control tu of
        Inl e \<Rightarrow> Some (Finished (Inl (Io e)) s1)
      | Inr _ \<Rightarrow> control_session env args tu c3 addr s1))))))))"

section \<open>The loop and the end\<close>

text \<open>The cancel thread, once a stop request arrives (it also sets the exit flag).\<close>

definition cancel_device :: "dev_call list mutex \<Rightarrow> dev_call list mutex" where
  "cancel_device m =
     (if m_poisoned m then m else m\<lparr>m_data := m_data m @ [CancelAsyncRead]\<rparr>)"

text \<open>
  The shutdown after the loop: the cancel thread stops the device, then every connection on
  the list is shut down.
\<close>

definition multi_shutdown :: "'c multi_state \<Rightarrow> 'c multi_state outcome" where
  "multi_shutdown s =
     (let s' = s\<lparr>mu_ctl := cancel_device (mu_ctl s)\<rparr>
      in if m_poisoned (mu_streams s') then Panicked s'
         else Finished (Inr ()) (s'\<lparr>mu_streams := (mu_streams s')\<lparr>m_data :=
           map (\<lambda>st. st\<lparr>rx := []\<rparr>) (m_data (mu_streams s'))\<rparr>\<rparr>))"

definition multi_turn ::
  "(string \<Rightarrow> 'e + 'n) \<Rightarrow> ('n \<Rightarrow> ip_addr \<Rightarrow> bool) \<Rightarrow> 'c master_env \<Rightarrow> args \<Rightarrow> turn \<Rightarrow>
   'c multi_state \<Rightarrow> 'c multi_state outcome option" where
  "multi_turn parse_net net_contains env args tu s =
     (if tu_exit tu then Some (multi_shutdown s)
      else (case tu_accept tu of
              Inl e \<Rightarrow>
                if err_kind e = WouldBlock then Some (Going s)
                else Some (Finished (Inl (Network (''master accept error: '' @ err_msg e))) s)
            | Inr (conn, addr) \<Rightarrow>
                (case check_whitelist parse_net net_contains (show_ip_addr (to_canonical addr))
                        (whitelist args) of
                   Inl e \<Rightarrow> Some (Finished (Inl e) s)
                 | Inr _ \<Rightarrow>
                     (case master_session env args tu conn addr s of
                        None \<Rightarrow> None
                      | Some (Going s') \<Rightarrow>
                          Some (if tu_exit_after tu then multi_shutdown s' else Going s')
                      | Some r \<Rightarrow> Some r))))"

fun multi_loop ::
  "(string \<Rightarrow> 'e + 'n) \<Rightarrow> ('n \<Rightarrow> ip_addr \<Rightarrow> bool) \<Rightarrow> 'c master_env \<Rightarrow> args \<Rightarrow> turn list \<Rightarrow>
   'c multi_state \<Rightarrow> 'c multi_state outcome option" where
  "multi_loop parse_net net_contains env args [] s = Some (Going s)"
| "multi_loop parse_net net_contains env args (tu # tus) s =
     (case multi_turn parse_net net_contains env args tu s of
        None \<Rightarrow> None
      | Some (Going s') \<Rightarrow> multi_loop parse_net net_contains env args tus s'
      | Some r \<Rightarrow> Some r)"

text \<open>
  The start-up, given what opening the device, parsing the key, installing the handler,
  binding the two ports and switching the listener to non-blocking mode return. \<open>None\<close>
  stands for the panic of \<open>unwrap\<close> on a missing slave port.
\<close>

definition serve_multi_start ::
  "args \<Rightarrow> (string + unit) \<Rightarrow> (rtl_tcp_error + bytes option) \<Rightarrow> (string + unit) \<Rightarrow>
   (rtl_tcp_error + unit) \<Rightarrow> (string \<Rightarrow> io_error + unit) \<Rightarrow> (io_error + unit) \<Rightarrow>
   (rtl_tcp_error + bytes option \<times> 'c multi_state) option" where
  "serve_multi_start args opened enc_key handler bound bind_slave nonblocking =
     (case map_err (\<lambda>e. Device (''could not open RTL-SDR device: '' @ e)) opened of
        Inl e \<Rightarrow> Some (Inl e)
      | Inr _ \<Rightarrow>
     (case enc_key of
        Inl e \<Rightarrow> Some (Inl e)
      | Inr k \<Rightarrow>
     (case map_err (\<lambda>e. Config (''could not set signal handler: '' @ e)) handler of
        Inl e \<Rightarrow> Some (Inl e)
      | Inr _ \<Rightarrow>
     (case bound of
        Inl e \<Rightarrow> Some (Inl e)
      | Inr _ \<Rightarrow>
     (case slave_port args of
        None \<Rightarrow> None
      | Some sp \<Rightarrow>
     (case lift_io (bind_slave (address args @ '':'' @ show_nat (unat sp))) of
        Inl e \<Rightarrow> Some (Inl e)
      | Inr _ \<Rightarrow>
     (case lift_io nonblocking of
        Inl e \<Rightarrow> Some (Inl e)
      | Inr _ \<Rightarrow>
          Some (Inr (k,
            \<lparr>mu_ctl = \<lparr>m_data = [], m_poisoned = False\<rparr>, mu_agc = agc_new, mu_nonces = None,
             mu_streams = \<lparr>m_data = [], m_poisoned = False\<rparr>, mu_masters = []\<rparr>)))))))))"

section \<open>What every turn keeps\<close>

text \<open>
  The device has only been asked for what is in range, and the AGC state is the one last
  asked for, unless the controller's mutex is poisoned.
\<close>

definition multi_safe :: "'c multi_state \<Rightarrow> bool" where
  "multi_safe s \<longleftrightarrow>
     list_all call_in_range (m_data (mu_ctl s)) \<and>
     (m_poisoned (mu_ctl s) \<or>
      enabled (mu_agc s) = (case last_agc (m_data (mu_ctl s)) of Some b \<Rightarrow> b | None \<Rightarrow> True))"

lemma multi_safe_streams [simp]: "multi_safe (s\<lparr>mu_streams := x\<rparr>) = multi_safe s"
  "multi_safe (s\<lparr>mu_masters := y\<rparr>) = multi_safe s"
  by (simp_all add: multi_safe_def)

lemma control_session_keeps:
  assumes "control_session env args tu st addr s = Some r" and "multi_safe s"
  shows "multi_safe (outcome_state r)"
proof -
  let ?m = "master_start st (mu_ctl s) (mu_agc s) (mu_nonces s)
    (1000 * unat (arg_read_timeout args)) (fst (tu_clock tu)) (snd (tu_clock tu))"
  from assms(1) obtain fl m where m: "master_loop env (tu_rounds tu) ?m = Some (fl, m)"
    by (auto simp: control_session_def split: option.splits)
  have "device_safe ?m" "agc_tracks ?m"
    using assms(2) by (simp_all add: multi_safe_def device_safe_def agc_tracks_def master_start_def)
  then have "device_safe m" "agc_tracks m"
    using master_loop_keeps [OF m] by blast+
  with assms(1) m show ?thesis
    by (cases fl)
      (auto simp: control_session_def Let_def multi_safe_def device_safe_def agc_tracks_def)
qed

lemma control_session_total: "control_session env args tu st addr s \<noteq> None"
  using master_thread.run_total
  by (auto simp: control_session_def Let_def simp del: not_None_eq split: option.splits)

lemma master_session_keeps:
  assumes "master_session env args tu conn addr s = Some r" and "multi_safe s"
  shows "multi_safe (outcome_state r)"
  using assms control_session_keeps [of env args tu]
  by (auto simp: master_session_def Let_def split: sum.splits prod.splits if_splits)

lemma master_session_total: "master_session env args tu conn addr s \<noteq> None"
proof -
  have "\<exists>y. control_session env args tu st addr s' = Some y" for st s'
    using control_session_total by fastforce
  then show ?thesis
    by (auto simp: master_session_def Let_def split: sum.splits prod.splits)
qed

lemma multi_shutdown_keeps: "multi_safe s \<Longrightarrow> multi_safe (outcome_state (multi_shutdown s))"
  by (auto simp: multi_shutdown_def cancel_device_def multi_safe_def Let_def last_agc_append)

lemma multi_turn_keeps:
  assumes "multi_turn p c env args tu s = Some r" and "multi_safe s"
  shows "multi_safe (outcome_state r)"
proof (cases "tu_exit tu")
  case True
  with assms multi_shutdown_keeps [of s] show ?thesis by (simp add: multi_turn_def)
next
  case False
  show ?thesis
  proof (cases "\<exists>conn addr. tu_accept tu = Inr (conn, addr) \<and>
      check_whitelist p c (show_ip_addr (to_canonical addr)) (whitelist args) = Inr ()")
    case True
    then obtain conn addr where acc: "tu_accept tu = Inr (conn, addr)"
      "check_whitelist p c (show_ip_addr (to_canonical addr)) (whitelist args) = Inr ()" by blast
    obtain r1 where r1: "master_session env args tu conn addr s = Some r1"
      using master_session_total by fastforce
    from master_session_keeps [OF r1 assms(2)] have "multi_safe (outcome_state r1)" .
    with False acc r1 assms(1) multi_shutdown_keeps show ?thesis
      by (cases r1) (auto simp: multi_turn_def split: if_splits)
  next
    case no: False
    with False assms show ?thesis
      by (auto simp: multi_turn_def split: sum.splits if_splits prod.splits)
  qed
qed

lemma multi_turn_total: "multi_turn p c env args tu s \<noteq> None"
  by (auto simp: multi_turn_def master_session_total simp del: not_None_eq
      split: sum.splits prod.splits option.splits outcome.splits)

lemma multi_loop_total: "multi_loop p c env args tus s \<noteq> None"
proof (induction tus arbitrary: s)
  case (Cons tu tus)
  obtain r where "multi_turn p c env args tu s = Some r" using multi_turn_total by fastforce
  with Cons show ?case by (cases r) simp_all
qed simp

section \<open>Commands and the nonces\<close>

lemma nonces_commands [simp]:
  "encryption_nonces (add_log e s) = encryption_nonces s"
  "encryption_nonces (call_device d c s) = encryption_nonces s"
  by (simp_all add: call_device_def with_control_def Let_def add_log_def)

lemma nonces_chain_ack [simp]: "encryption_nonces (chain_ack s) = encryption_nonces s"
  by (auto simp: chain_ack_def Let_def split: sum.splits prod.splits)

lemma nonces_dispatch [simp]: "encryption_nonces (single_dispatch d buf s) = encryption_nonces s"
proof -
  have "encryption_nonces (set_frequency d p s) = encryption_nonces s"
    "encryption_nonces (set_sample_rate d p s) = encryption_nonces s"
    "encryption_nonces (set_gain_mode d p s) = encryption_nonces s"
    "encryption_nonces (set_tuner_gain d p s) = encryption_nonces s"
    "encryption_nonces (set_ppm d p s) = encryption_nonces s"
    "encryption_nonces (set_agc d p s) = encryption_nonces s"
    "encryption_nonces (unsupported_command b s) = encryption_nonces s" for p b
    by (auto simp: command_defs Let_def split: sum.splits prod.splits)
  then show ?thesis by (simp add: single_dispatch_def Let_def)
qed

lemma send_magic_ok:
  assumes "send_magic capacity magic st = (Inr (), st')" and "0 < capacity"
  shows "tx st' = tx st @ magic"
proof -
  obtain r1 p1 s1 where w: "buf_write_all capacity magic [] st = (r1, p1, s1)"
    by (cases "buf_write_all capacity magic [] st")
  obtain r2 p2 s2 where fl: "flush_buf p1 s1 = (r2, p2, s2)" by (cases "flush_buf p1 s1")
  from assms(1) w fl have ok: "r1 = Inr ()" "r2 = Inr ()" "st' = buf_drop p2 s2"
    by (auto simp: send_magic_def split: sum.splits)
  with flush_buf_conserves [OF fl] have "p2 = []" "tx s2 @ p2 = tx s1 @ p1" by auto
  moreover have "tx s1 @ p1 = tx st @ magic"
    using buf_write_all_conserves(3) [OF w assms(2)] ok by simp
  ultimately show ?thesis using ok by (simp add: buf_drop_def flush_buf_def)
qed

lemma send_magic_script:
  assumes "send_magic capacity magic st = (r, st')" and "tx_script st = []"
  shows "tx_script st' = []"
proof -
  from buf_write_all_ok [OF assms(2), of capacity magic] obtain p s1 where
    "buf_write_all capacity magic [] st = (Inr (), p, s1)" "tx_script s1 = []" by blast
  with assms(1) show ?thesis by (auto simp: send_magic_def flush_buf_def buf_drop_def split: prod.splits)
qed

section \<open>What a master has been sent\<close>

lemma chain_ack_more: "prefix (tx (stream s)) (tx (stream (chain_ack s)))"
  by (auto simp: chain_ack_def Let_def tcp_write_all_def split: sum.splits prod.splits)

lemma server_nonce_exchange_more:
  assumes "server_nonce_exchange tcp_read tcp_write fill k s = Some (r, s')"
  shows "prefix (tx s) (tx s')"
  using assms
  by (auto simp: server_nonce_exchange_def io_bind_def io_simps Let_def tcp_read_exact_def tcp_write_all_def
      split: sum.splits prod.splits)

lemma single_dispatch_more: "prefix (tx (stream s)) (tx (stream (single_dispatch d buf s)))"
  using chain_ack_more [of s] by (simp add: single_dispatch_def Let_def)

lemma master_dispatch_more:
  assumes "master_dispatch env fill buf s = Some s'"
  shows "prefix (tx (stream s)) (tx (stream s'))"
  using assms
proof (rule master_dispatch_cases)
  assume d: "master_chain_detect env fill s = Some s'"
  show ?thesis
  proof (cases "env_key env")
    case None
    with d chain_ack_more [of s] show ?thesis by (simp add: master_chain_detect_def)
  next
    case (Some k)
    with d obtain r st where
      "server_nonce_exchange tcp_read tcp_write fill k (stream (chain_ack s)) = Some (r, st)"
      "stream s' = st"
      by (auto simp: master_chain_detect_def Let_def split: option.splits sum.splits prod.splits)
    with server_nonce_exchange_more chain_ack_more [of s] show ?thesis
      by (metis prefix_order.trans)
  qed
qed (simp add: single_dispatch_more)

lemma master_round_more:
  assumes "master_round env r s = Some (fl, s')"
  shows "prefix (tx (stream s)) (tx (stream s'))"
proof -
  obtain res st where st: "tcp_read_exact COMMAND_HEADER_SIZE (stream s) = (res, st)"
    by (cases "tcp_read_exact COMMAND_HEADER_SIZE (stream s)")
  then have tx: "tx st = tx (stream s)" by (auto simp: tcp_read_exact_def split: prod.splits)
  show ?thesis
  proof (cases res)
    case (Inl e)
    with st tx assms show ?thesis by (auto simp: master_round_def Let_def split: if_splits)
  next
    case (Inr raw)
    obtain buf s1 where dc: "decrypt_command env raw (s\<lparr>stream := st\<rparr>) = (buf, s1)"
      by (cases "decrypt_command env raw (s\<lparr>stream := st\<rparr>)")
    with decrypt_command_frame(1) [of env raw "s\<lparr>stream := st\<rparr>"] have s1: "stream s1 = st" by simp
    obtain ok rl where chk: "rate_limiter_check (now r) (limiter s1) = (ok, rl)"
      by (cases "rate_limiter_check (now r) (limiter s1)")
    have "prefix (tx st) (tx (stream t))"
      if "master_dispatch env (draw r) buf (s1\<lparr>limiter := rl\<rparr>) = Some t" for t
      using master_dispatch_more [OF that] s1 by simp
    with st assms Inr dc chk s1 tx show ?thesis
      by (auto simp: master_round_def Let_def split: if_splits)
  qed
qed

lemma control_session_more:
  assumes "control_session env args tu st addr s = Some (Going s')"
  shows "\<exists>st'. mu_masters s' = mu_masters s @ [(addr, st')] \<and> prefix (tx st) (tx st')"
proof -
  let ?m = "master_start st (mu_ctl s) (mu_agc s) (mu_nonces s)
    (1000 * unat (arg_read_timeout args)) (fst (tu_clock tu)) (snd (tu_clock tu))"
  from assms obtain m where m: "master_loop env (tu_rounds tu) ?m = Some (Break, m)"
    "mu_masters s' = mu_masters s @ [(addr, stream m)]"
    by (auto simp: control_session_def Let_def split: option.splits flow.splits)
  have start: "tx (stream ?m) = tx st" by (simp add: master_start_def set_read_timeout_def)
  have "prefix (tx st) (tx (stream m))"
    by (rule master_thread.run_invariant [where I = "\<lambda>s. prefix (tx st) (tx (stream s))", OF m(1)])
      (auto simp: start dest: master_round_more intro: prefix_order.trans)
  with m(2) show ?thesis by blast
qed

section \<open>Properties\<close>

text \<open>
  Over any number of masters, one after the other, with or without encryption, and
  including the shutdown, the multi-client server only ever asks the device for values in
  range, and its AGC state, which the sessions share, is the one last asked for.
\<close>

lemma multi_server_safe:
  assumes "multi_safe s"
  shows "\<exists>r. multi_loop parse_net net_contains env args tus s = Some r \<and> multi_safe (outcome_state r)"
  using assms
proof (induction tus arbitrary: s)
  case Nil
  then show ?case by simp
next
  case (Cons tu tus)
  obtain r where r: "multi_turn parse_net net_contains env args tu s = Some r"
    using multi_turn_total by fastforce
  from multi_turn_keeps [OF r Cons.prems] have "multi_safe (outcome_state r)" .
  with r Cons.IH show ?case by (cases r) auto
qed

text \<open>A server that has just started, and a turn in which a master connects and leaves.\<close>

definition demo_multi :: "((nat \<Rightarrow> u8) \<times> nat) multi_state" where
  "demo_multi =
     \<lparr>mu_ctl = \<lparr>m_data = [], m_poisoned = False\<rparr>, mu_agc = agc_new, mu_nonces = None,
      mu_streams = \<lparr>m_data = [], m_poisoned = False\<rparr>, mu_masters = []\<rparr>"

definition demo_turn :: turn where
  "demo_turn =
     \<lparr>tu_exit = False, tu_accept = Inr (fresh_tcp [Data [1, 0, 0, 0, 9]], V4 10 0 0 1),
      tu_clone_list = Inr (), tu_clone_writer = Inr (), tu_clone_magic = Inr (),
      tu_clone_control = Inr (), tu_early = [],
      tu_rounds = replicate 6 \<lparr>should_exit = False, now = 1, draw = demo_draw\<rparr>, tu_clock = (0, 0),
      tu_exit_after = False\<rparr>"

definition demo_multi_args :: args where
  "demo_multi_args =
     \<lparr>mode = ''serve'', address = ''127.0.0.1'', master_port = 1234, slave_port = Some 1235,
      max_slaves = 10, upstream = None, key = None, key_file = None, device_index = 0,
      buffers = 15, tcp_buffers = 512000, arg_read_timeout = 30, arg_write_timeout = 30,
      whitelist = [''10.0.0.0/8'']\<rparr>"

lemma multi_server_safe_witness:
  "multi_safe demo_multi \<and>
   (\<exists>r. multi_loop (\<lambda>_. Inr () :: unit + unit) (\<lambda>_ ip. ip = V4 10 0 0 1) demo_master_env demo_multi_args
      [demo_turn, demo_turn] demo_multi = Some r \<and> multi_safe (outcome_state r))"
proof -
  have "multi_safe demo_multi" by (simp add: multi_safe_def demo_multi_def agc_new_def agc_default_def)
  with multi_server_safe [OF this] show ?thesis by blast
qed

text \<open>
  A master the whitelist refuses does not just lose its connection: the whole server
  returns with the error, whoever is connected.
\<close>

lemma refused_master_stops_server:
  assumes "\<not> tu_exit tu" and "tu_accept tu = Inr (conn, addr)" and "whitelist args \<noteq> []"
    and "\<not> is_ip_in_whitelist parse_net net_contains (show_ip_addr (to_canonical addr)) (whitelist args)"
  shows "multi_loop parse_net net_contains env args (tu # tus) s =
    Some (Finished (Inl (Network ''connection rejected: IP not in whitelist'')) s)"
  using assms by (simp add: multi_turn_def check_whitelist_def)

lemma refused_master_stops_server_witness:
  "multi_loop (\<lambda>_. Inr () :: unit + unit) (\<lambda>_ _. False) demo_master_env demo_multi_args [demo_turn, demo_turn] demo_multi =
    Some (Finished (Inl (Network ''connection rejected: IP not in whitelist'')) demo_multi)"
  using refused_master_stops_server [of demo_turn "fresh_tcp [Data [1, 0, 0, 0, 9]]" "V4 10 0 0 1"
      demo_multi_args "\<lambda>_. Inr () :: unit + unit" "\<lambda>_ _. False" demo_master_env "[demo_turn]" demo_multi]
  by (simp add: demo_turn_def demo_multi_args_def is_ip_in_whitelist_def)

text \<open>
  What a master that was served has received begins with the bytes its writer thread was
  quicker to send, followed by the magic packet. The packet comes first only when the
  writer, which is started before the packet is sent, has sent nothing yet.
\<close>

lemma master_stream_start:
  assumes "master_session env args tu conn addr s = Some (Going s')" and "args_ok args"
    and "tx conn = []"
  shows "\<exists>st. mu_masters s' = mu_masters s @ [(addr, st)] \<and>
    prefix (tu_early tu @ MAGIC_PACKET) (tx st)"
proof -
  let ?c = "conn\<lparr>read_timeout := Some (1000 * unat (arg_read_timeout args)),
    write_timeout := Some (1000 * unat (arg_write_timeout args))\<rparr>"
  have "unat (arg_read_timeout args) \<noteq> 0" "unat (arg_write_timeout args) \<noteq> 0"
    and cap: "0 < unat (tcp_buffers args)"
    using assms(2) by (simp_all add: args_ok_def)
  with assms(1) obtain c3 s1 where
    c3: "send_magic (unat (tcp_buffers args)) MAGIC_PACKET (?c\<lparr>tx := tx ?c @ tu_early tu\<rparr>) = (Inr (), c3)"
      "control_session env args tu c3 addr s1 = Some (Going s')" "mu_masters s1 = mu_masters s"
    by (auto simp: master_session_def set_read_timeout_def set_write_timeout_def Let_def
        split: sum.splits prod.splits if_splits)
  from send_magic_ok [OF c3(1) cap] assms(3) have "tx c3 = tu_early tu @ MAGIC_PACKET" by simp
  with control_session_more [OF c3(2)] c3(3) show ?thesis by auto
qed

lemma master_stream_start_witness:
  "\<exists>s' st. master_session demo_master_env demo_multi_args (demo_turn\<lparr>tu_early := [5, 6]\<rparr>)
      (fresh_tcp [Data [1, 0, 0, 0, 9]]) (V4 10 0 0 1) demo_multi = Some (Going s') \<and>
    mu_masters s' = [(V4 10 0 0 1, st)] \<and> prefix ([5, 6] @ MAGIC_PACKET) (tx st)"
proof -
  have ok: "args_ok demo_multi_args" by (simp add: args_ok_def demo_multi_args_def)
  let ?tu = "demo_turn\<lparr>tu_early := [5, 6]\<rparr>"
  let ?conn = "fresh_tcp [Data [1, 0, 0, 0, 9]]"
  let ?c = "?conn\<lparr>read_timeout := Some 30000, write_timeout := Some 30000\<rparr>"
  obtain c3 where c3: "send_magic 512000 MAGIC_PACKET (?c\<lparr>tx := [5, 6]\<rparr>) = (Inr (), c3)"
    "rx c3 = [Data [1, 0, 0, 0, 9]]"
    by (simp add: send_magic_def buf_write_all_def MAGIC_PACKET_def buf_drop_def)
  let ?s1 = "demo_multi\<lparr>mu_streams := \<lparr>m_data = [?c], m_poisoned = False\<rparr>\<rparr>"
  let ?m = "master_start c3 (mu_ctl ?s1) (mu_agc ?s1) (mu_nonces ?s1) 30000 (fst (tu_clock ?tu))
    (snd (tu_clock ?tu))"
  have "script_size (rx (stream ?m)) < length (tu_rounds ?tu)"
    using c3(2) by (simp add: demo_turn_def master_start_def set_read_timeout_def)
  from master_thread.run_ends [OF this, of demo_master_env] obtain m where
    "master_loop demo_master_env (tu_rounds ?tu) ?m = Some (Break, m)" by auto
  then obtain s' where "control_session demo_master_env demo_multi_args ?tu c3 (V4 10 0 0 1) ?s1 = Some (Going s')"
    by (simp add: control_session_def Let_def demo_multi_args_def)
  with c3(1) have s': "master_session demo_master_env demo_multi_args ?tu ?conn (V4 10 0 0 1) demo_multi =
      Some (Going s')"
    by (simp add: master_session_def demo_multi_args_def set_read_timeout_def set_write_timeout_def
        demo_turn_def demo_multi_def Let_def)
  from master_stream_start [OF s' ok] s' show ?thesis by (auto simp: demo_multi_def demo_turn_def)
qed

end
