(* ===== verification/Stream_Fanout.thy ===== *)
theory Stream_Fanout
  imports Tcp_Stream "HOL-Library.Sublist"
begin

text \<open>
  The stream module (\<open>src/stream.rs\<close>): the writer loop that moves buffers from the
  broadcast channel to one client. The channel is the \<open>tokio\<close> crate's. What the loop sees
  of it is one \<open>try_recv\<close> result per round; the locale \<open>broadcast_receiver\<close> names
  what the crate documents of these results, and a bounded ring with those semantics is
  shown to satisfy it.
\<close>

definition DEFAULT_BROADCAST_CAPACITY :: nat where
  "DEFAULT_BROADCAST_CAPACITY = 64"

text \<open>\<open>channel\<close> is the crate's constructor of a sender and a receiver.\<close>

definition new_broadcast :: "(nat \<Rightarrow> 'tx \<times> 'rcvr) \<Rightarrow> nat \<Rightarrow> 'tx \<times> 'rcvr" where
  "new_broadcast channel capacity = channel capacity"

datatype try_recv = Received bytes | Empty | Closed | Lagged nat

datatype writer_exit = ExitFlag | WriteError io_error | ChannelClosed

text \<open>
  One list entry per round of the loop: the value of the exit flag and the result
  \<open>try_recv\<close> has in that round. The loop is still running when the list is exhausted
  (\<open>None\<close> in the first component); the outer \<open>None\<close> is a write that never returns.
\<close>

fun write_client_loop ::
  "'w write_fn \<Rightarrow> (bool \<times> try_recv) list \<Rightarrow> 'w \<Rightarrow> (writer_exit option \<times> 'w) option" where
  "write_client_loop wr [] w = Some (None, w)"
| "write_client_loop wr ((should_exit, recv) # rounds) w =
     (if should_exit then Some (Some ExitFlag, w)
      else (case recv of
              Received buf \<Rightarrow>
                (case write_all wr buf w of
                   None \<Rightarrow> None
                 | Some (Inl e, w') \<Rightarrow> Some (Some (WriteError e), w')
                 | Some (Inr _, w') \<Rightarrow> write_client_loop wr rounds w')
            | Empty \<Rightarrow> write_client_loop wr rounds w
            | Closed \<Rightarrow> Some (Some ChannelClosed, w)
            | Lagged n \<Rightarrow> write_client_loop wr rounds w))"

section \<open>The channel as a client sees it\<close>

text \<open>
  What happens to a subscription: the source sends a buffer, or the client's loop polls
  (with the exit flag as given). \<open>observe\<close> turns such a history into the rounds of the
  writer loop.
\<close>

datatype feed = Sent bytes | Polled bool

fun observe ::
  "('rcvr \<Rightarrow> try_recv \<times> 'rcvr) \<Rightarrow> (bytes \<Rightarrow> 'rcvr \<Rightarrow> 'rcvr) \<Rightarrow> feed list \<Rightarrow> 'rcvr \<Rightarrow>
   (bool \<times> try_recv) list" where
  "observe try_recv_fn send_fn [] rcvr = []"
| "observe try_recv_fn send_fn (Sent m # fs) rcvr = observe try_recv_fn send_fn fs (send_fn m rcvr)"
| "observe try_recv_fn send_fn (Polled ex # fs) rcvr =
     (case try_recv_fn rcvr of (res, rcvr') \<Rightarrow> (ex, res) # observe try_recv_fn send_fn fs rcvr')"

fun sent_buffers :: "feed list \<Rightarrow> bytes list" where
  "sent_buffers [] = []"
| "sent_buffers (Sent m # fs) = m # sent_buffers fs"
| "sent_buffers (Polled ex # fs) = sent_buffers fs"

text \<open>The buffers a client's loop takes from the channel before it stops.\<close>

fun taken_buffers :: "(bool \<times> try_recv) list \<Rightarrow> bytes list" where
  "taken_buffers [] = []"
| "taken_buffers ((should_exit, recv) # rounds) =
     (if should_exit then []
      else (case recv of
              Received buf \<Rightarrow> buf # taken_buffers rounds
            | Closed \<Rightarrow> []
            | Empty \<Rightarrow> taken_buffers rounds
            | Lagged n \<Rightarrow> taken_buffers rounds))"

text \<open>
  A client keeps up when at every poll at most \<open>capacity\<close> buffers are waiting;
  \<open>backlog\<close> is how many are waiting now.
\<close>

fun keeps_up :: "nat \<Rightarrow> nat \<Rightarrow> feed list \<Rightarrow> bool" where
  "keeps_up capacity backlog [] = True"
| "keeps_up capacity backlog (Sent m # fs) = keeps_up capacity (Suc backlog) fs"
| "keeps_up capacity backlog (Polled ex # fs) =
     (backlog \<le> capacity \<and> keeps_up capacity (backlog - 1) fs)"

section \<open>A bounded subscription\<close>

text \<open>
  A subscription of bounded memory: the buffers not yet delivered or reported lost. When
  more than the capacity are waiting, the oldest are gone and the next poll says how many.
\<close>

record subscription =
  waiting :: "bytes list"
  retained :: nat
  senders_alive :: bool

definition sub_new :: "nat \<Rightarrow> subscription" where
  "sub_new capacity = \<lparr>waiting = [], retained = capacity, senders_alive = True\<rparr>"

definition sub_send :: "bytes \<Rightarrow> subscription \<Rightarrow> subscription" where
  "sub_send m r = r\<lparr>waiting := waiting r @ [m]\<rparr>"

definition sub_try_recv :: "subscription \<Rightarrow> try_recv \<times> subscription" where
  "sub_try_recv r =
     (case waiting r of
        [] \<Rightarrow> (if senders_alive r then Empty else Closed, r)
      | b # bs \<Rightarrow>
          if retained r < length (waiting r)
          then (let lost = length (waiting r) - retained r
                in (Lagged lost, r\<lparr>waiting := drop lost (waiting r)\<rparr>))
          else (Received b, r\<lparr>waiting := bs\<rparr>))"

section \<open>What the program relies on\<close>

locale broadcast_receiver =
  fixes try_recv_fn :: "'rcvr \<Rightarrow> try_recv \<times> 'rcvr"
    and send_fn :: "bytes \<Rightarrow> 'rcvr \<Rightarrow> 'rcvr"
    and pending :: "'rcvr \<Rightarrow> bytes list"
    and capacity :: "'rcvr \<Rightarrow> nat"
  assumes send_pending: "pending (send_fn m rcvr) = pending rcvr @ [m]"
    and send_capacity: "capacity (send_fn m rcvr) = capacity rcvr"
    and recv_capacity: "try_recv_fn rcvr = (res, rcvr') \<Longrightarrow> capacity rcvr' = capacity rcvr"
    and recv_received: "try_recv_fn rcvr = (Received b, rcvr') \<Longrightarrow> pending rcvr = b # pending rcvr'"
    and recv_empty: "try_recv_fn rcvr = (Empty, rcvr') \<Longrightarrow> pending rcvr = [] \<and> pending rcvr' = []"
    and recv_closed: "try_recv_fn rcvr = (Closed, rcvr') \<Longrightarrow> pending rcvr = [] \<and> pending rcvr' = []"
    and recv_lagged: "try_recv_fn rcvr = (Lagged n, rcvr') \<Longrightarrow>
      capacity rcvr < length (pending rcvr) \<and> pending rcvr' = drop n (pending rcvr)"
begin

text \<open>Every client's share is a subsequence, in order, of what was sent to it.\<close>

lemma taken_subseq:
  "subseq (taken_buffers (observe try_recv_fn send_fn fs rcvr)) (pending rcvr @ sent_buffers fs)"
proof (induction fs arbitrary: rcvr)
  case Nil
  then show ?case by simp
next
  case (Cons f fs)
  show ?case
  proof (cases f)
    case (Sent m)
    with Cons.IH [of "send_fn m rcvr"] show ?thesis by (simp add: send_pending)
  next
    case (Polled ex)
    obtain res rcvr' where r: "try_recv_fn rcvr = (res, rcvr')" by (cases "try_recv_fn rcvr")
    note IH = Cons.IH [of rcvr']
    show ?thesis
    proof (cases res)
      case (Received b)
      with r Polled IH recv_received [of rcvr b rcvr'] show ?thesis by auto
    next
      case (Lagged n)
      with r have "pending rcvr' = drop n (pending rcvr)" by (simp add: recv_lagged)
      then have "subseq (pending rcvr' @ sent_buffers fs) (pending rcvr @ sent_buffers fs)"
        by (metis append_take_drop_id list_emb_append2 subseq_append subseq_order.refl)
      with IH have "subseq (taken_buffers (observe try_recv_fn send_fn fs rcvr'))
          (pending rcvr @ sent_buffers fs)" by (rule subseq_order.trans)
      with r Polled Lagged show ?thesis by simp
    qed (use r Polled IH recv_empty [of rcvr rcvr'] recv_closed [of rcvr rcvr'] in auto)
  qed
qed

text \<open>A client that keeps up loses nothing: its share is a prefix of what was sent.\<close>

lemma taken_prefix:
  assumes "keeps_up (capacity rcvr) (length (pending rcvr)) fs"
  shows "prefix (taken_buffers (observe try_recv_fn send_fn fs rcvr)) (pending rcvr @ sent_buffers fs)"
  using assms
proof (induction fs arbitrary: rcvr)
  case Nil
  then show ?case by simp
next
  case (Cons f fs)
  show ?case
  proof (cases f)
    case (Sent m)
    with Cons show ?thesis
      using Cons.IH [of "send_fn m rcvr"] by (simp add: send_pending send_capacity)
  next
    case (Polled ex)
    obtain res rcvr' where r: "try_recv_fn rcvr = (res, rcvr')" by (cases "try_recv_fn rcvr")
    have cap: "capacity rcvr' = capacity rcvr" by (rule recv_capacity [OF r])
    show ?thesis
    proof (cases res)
      case (Received b)
      with r have p: "pending rcvr = b # pending rcvr'" by (simp add: recv_received)
      with Cons.prems Polled cap Cons.IH [of rcvr'] r Received show ?thesis by auto
    next
      case (Lagged n)
      with r Cons.prems Polled show ?thesis by (auto dest: recv_lagged)
    next
      case Empty
      with r Polled Cons.prems cap Cons.IH [of rcvr'] recv_empty [of rcvr rcvr'] show ?thesis by auto
    next
      case Closed
      with r Polled show ?thesis by simp
    qed
  qed
qed

end

interpretation sub_rx: broadcast_receiver sub_try_recv sub_send waiting retained
  by unfold_locales
    (auto simp: sub_try_recv_def sub_send_def Let_def split: list.splits if_splits)

section \<open>What reaches a client\<close>

text \<open>
  While the socket takes every buffer whole, the loop has written exactly the buffers it
  took, and it stops for no other reason than the exit flag or a closed channel.
\<close>

lemma write_client_loop_whole:
  assumes "tx_script w = []"
  shows "\<exists>ex. write_client_loop tcp_write rounds w =
      Some (ex, w\<lparr>tx := tx w @ concat (taken_buffers rounds)\<rparr>) \<and>
    (ex = None \<or> ex = Some ExitFlag \<or> ex = Some ChannelClosed)"
  using assms
proof (induction rounds arbitrary: w)
  case Nil
  then show ?case by simp
next
  case (Cons r rounds)
  obtain ex recv where r: "r = (ex, recv)" by (cases r)
  show ?case
  proof (cases recv)
    case (Received buf)
    with r Cons.prems Cons.IH [of "w\<lparr>tx := tx w @ buf\<rparr>"] show ?thesis by auto
  qed (use r Cons in auto)
qed

text \<open>
  In general the bytes written are those of a prefix of the buffers taken, cut inside a
  buffer only when the loop ended with a write error.
\<close>

lemma write_client_loop_prefix:
  assumes "write_client_loop tcp_write rounds w = Some (ex, w')"
  shows "\<exists>sent. tx w' = tx w @ sent \<and> prefix sent (concat (taken_buffers rounds)) \<and>
    ((\<forall>e. ex \<noteq> Some (WriteError e)) \<longrightarrow> sent = concat (taken_buffers rounds))"
  using assms
proof (induction rounds arbitrary: w)
  case Nil
  then show ?case by simp
next
  case (Cons r rounds)
  obtain flag recv where r: "r = (flag, recv)" by (cases r)
  show ?case
  proof (cases "\<not> flag \<and> (\<exists>buf. recv = Received buf)")
    case True
    then obtain buf where recv: "recv = Received buf" and flag: "\<not> flag" by blast
    then obtain res w1 where w1: "write_all tcp_write buf w = Some (res, w1)"
      using r Cons.prems by (auto split: option.splits)
    from write_all_tcp_prefix [OF w1] obtain k where
      k: "tx w1 = tx w @ take k buf" "res = Inr () \<longrightarrow> k = length buf" by blast
    show ?thesis
    proof (cases res)
      case (Inl e)
      with r recv flag w1 k Cons.prems show ?thesis
        by (auto intro!: exI [of _ "take k buf"] prefix_prefix take_is_prefix)
    next
      case (Inr u)
      with r recv flag w1 Cons.prems have "write_client_loop tcp_write rounds w1 = Some (ex, w')"
        by simp
      from Cons.IH [OF this] k Inr r recv flag show ?thesis by auto
    qed
  next
    case False
    with r Cons show ?thesis by (auto split: try_recv.splits if_splits)
  qed
qed

text \<open>The loop always returns control: over a TCP stream no write is left hanging.\<close>

lemma write_client_loop_total: "write_client_loop tcp_write rounds w \<noteq> None"
proof (induction rounds arbitrary: w)
  case (Cons r rounds)
  obtain flag recv where r: "r = (flag, recv)" by (cases r)
  show ?case
  proof (cases recv)
    case (Received buf)
    obtain res w' where "write_all tcp_write buf w = Some (res, w')"
      using tcp_wr.write_all_total [of buf w] by auto
    with Cons.IH [of w'] r Received show ?thesis by (auto split: sum.splits)
  qed (use r Cons in auto)
qed simp

section \<open>Properties\<close>

text \<open>
  A client whose socket takes what is written receives whole buffers only, in the order
  they were broadcast and none twice; a client that never lets more buffers wait than the
  channel holds receives a gapless initial part of the broadcast. The channel is any one
  that behaves as the crate documents.
\<close>

lemma client_gets_subsequence:
  assumes "broadcast_receiver try_recv_fn send_fn backlog capacity"
    and "tx_script w = []" and "backlog rcvr = []"
  shows "\<exists>ex bufs. write_client_loop tcp_write (observe try_recv_fn send_fn fs rcvr) w =
      Some (ex, w\<lparr>tx := tx w @ concat bufs\<rparr>) \<and>
    subseq bufs (sent_buffers fs) \<and>
    (keeps_up (capacity rcvr) 0 fs \<longrightarrow> prefix bufs (sent_buffers fs))"
proof -
  let ?bufs = "taken_buffers (observe try_recv_fn send_fn fs rcvr)"
  from write_client_loop_whole [OF assms(2)] obtain ex where
    "write_client_loop tcp_write (observe try_recv_fn send_fn fs rcvr) w =
      Some (ex, w\<lparr>tx := tx w @ concat ?bufs\<rparr>)" by blast
  moreover have "subseq ?bufs (sent_buffers fs)"
    using broadcast_receiver.taken_subseq [OF assms(1), of fs rcvr] assms(3) by simp
  moreover have "keeps_up (capacity rcvr) 0 fs \<longrightarrow> prefix ?bufs (sent_buffers fs)"
    using broadcast_receiver.taken_prefix [OF assms(1), of rcvr fs] assms(3) by simp
  ultimately show ?thesis by blast
qed

lemma client_gets_subsequence_witness:
  "\<exists>ex bufs. write_client_loop tcp_write
      (observe sub_try_recv sub_send [Sent [1], Sent [2, 3], Polled False, Sent [4], Polled False]
        (sub_new DEFAULT_BROADCAST_CAPACITY)) (fresh_tcp []) =
      Some (ex, (fresh_tcp [])\<lparr>tx := concat bufs\<rparr>) \<and> prefix bufs [[1], [2, 3], [4]]"
  using client_gets_subsequence [OF sub_rx.broadcast_receiver_axioms, of "fresh_tcp []"
      "sub_new DEFAULT_BROADCAST_CAPACITY"
      "[Sent [1], Sent [2, 3], Polled False, Sent [4], Polled False]"]
  by (auto simp: sub_new_def DEFAULT_BROADCAST_CAPACITY_def)

text \<open>
  Whatever the socket does, a writer loop returns, and what its client has received is
  an initial part of the buffers the loop took from the channel; it is the whole of them
  unless the loop ended with a write error.
\<close>

lemma client_loop_on_faults:
  "\<exists>ex w' sent. write_client_loop tcp_write rounds w = Some (ex, w') \<and> tx w' = tx w @ sent \<and>
     prefix sent (concat (taken_buffers rounds)) \<and>
     ((\<exists>e. ex = Some (WriteError e)) \<or> sent = concat (taken_buffers rounds))"
proof -
  obtain ex w' where "write_client_loop tcp_write rounds w = Some (ex, w')"
    using write_client_loop_total by fastforce
  with write_client_loop_prefix [OF this] show ?thesis by blast
qed

end
