(* ===== verification/Fanout_Threads.thy ===== *)
theory Fanout_Threads
  imports Serve_Single Serve_Multi Stream_Fanout
begin

text \<open>
  The threads that serve the clients in multi-client and in proxy mode: one writer thread
  per client, started by \<open>run_serve_multi\<close>, \<open>run_proxy_multi\<close> and
  \<open>spawn_slave_acceptor\<close> of \<open>src/main.rs\<close>, each running \<open>write_client_loop\<close> of
  \<open>src/stream.rs\<close> on its own subscription to the broadcast channel, and the acceptor
  thread. All of them are steps on one state, so that the theories of the two modes can
  interleave them with their other threads.

  A master's writer that encrypts holds the lock on the shared nonces for as long as it
  runs: the guard is a temporary of the \<open>if let\<close> around \<open>write_client_loop\<close>.
\<close>

section \<open>State\<close>

text \<open>
  A writer waits for nonces, runs, in clear or with its cipher (as \<open>master_writer\<close>
  says), or has ended. The sockets are numbered in the order of their creation; the clones
  of a socket are one entry. \<open>nonce_owner\<close> is the writer that holds the lock on the
  nonces.
\<close>

datatype 'c writer_pc = Running "'c writer_start" | Ended writer_exit

record ('c, 'rcvr) writer =
  w_conn :: nat
  w_slave :: bool
  w_pc :: "'c writer_pc"
  w_rcvr :: 'rcvr

record ('c, 'rcvr) fanout =
  conns :: "tcp list"
  listed :: "nat list mutex"
  writers :: "('c, 'rcvr) writer list"
  slaves_admitted :: nat
  acceptor_ended :: bool
  nonce_owner :: "nat option"

text \<open>
  The channel and the cipher are arguments, as in \<open>Stream_Fanout\<close> and
  \<open>Encryption\<close>; \<open>fe_subscribe\<close> is a receiver as \<open>subscribe\<close> returns it.
\<close>

record ('c, 'rcvr) fan_env =
  fe_try_recv :: "'rcvr \<Rightarrow> try_recv \<times> 'rcvr"
  fe_send :: "bytes \<Rightarrow> 'rcvr \<Rightarrow> 'rcvr"
  fe_subscribe :: 'rcvr
  fe_apply_keystream :: "'c \<Rightarrow> bytes \<Rightarrow> bytes \<times> 'c"

section \<open>Writers\<close>

definition spawn_writer ::
  "('c, 'rcvr) fan_env \<Rightarrow> nat \<Rightarrow> bool \<Rightarrow> 'c writer_start \<Rightarrow> ('c, 'rcvr) fanout \<Rightarrow> ('c, 'rcvr) fanout" where
  "spawn_writer env i slave start f =
     f\<lparr>writers := writers f @
         [\<lparr>w_conn = i, w_slave = slave, w_pc = Running start, w_rcvr = fe_subscribe env\<rparr>]\<rparr>"

text \<open>A buffer sent to the channel reaches every subscription.\<close>

definition broadcast_buffer ::
  "('c, 'rcvr) fan_env \<Rightarrow> bytes \<Rightarrow> ('c, 'rcvr) fanout \<Rightarrow> ('c, 'rcvr) fanout" where
  "broadcast_buffer env bs f =
     f\<lparr>writers := map (\<lambda>w. w\<lparr>w_rcvr := fe_send env bs (w_rcvr w)\<rparr>) (writers f)\<rparr>"

text \<open>
  One round of a writer's loop on its socket: with the exit flag set it ends without asking
  the channel. The first \<open>None\<close> case is a write that never returns, which a TCP stream
  does not have.
\<close>

definition plain_round ::
  "('c, 'rcvr) fan_env \<Rightarrow> bool \<Rightarrow> 'rcvr \<Rightarrow> tcp \<Rightarrow> 'c writer_pc \<times> 'rcvr \<times> tcp" where
  "plain_round env ex rcvr st =
     (case fe_try_recv env rcvr of
        (res, rcvr') \<Rightarrow>
          (case write_client_loop tcp_write [(ex, res)] st of
             None \<Rightarrow> (Running PlainWriter, rcvr, st)
           | Some (None, st') \<Rightarrow> (Running PlainWriter, rcvr', st')
           | Some (Some e, st') \<Rightarrow> (Ended e, if ex then rcvr else rcvr', st')))"

definition encrypting_round ::
  "('c, 'rcvr) fan_env \<Rightarrow> bool \<Rightarrow> 'c \<Rightarrow> 'rcvr \<Rightarrow> tcp \<Rightarrow> 'c writer_pc \<times> 'rcvr \<times> tcp" where
  "encrypting_round env ex c rcvr st =
     (case fe_try_recv env rcvr of
        (res, rcvr') \<Rightarrow>
          (case write_client_loop (encrypted_write (fe_apply_keystream env) tcp_write) [(ex, res)]
                  \<lparr>ew_inner = st, ew_cipher = c\<rparr> of
             None \<Rightarrow> (Running (EncryptingWriter c), rcvr, st)
           | Some (None, w) \<Rightarrow> (Running (EncryptingWriter (ew_cipher w)), rcvr', ew_inner w)
           | Some (Some e, w) \<Rightarrow> (Ended e, if ex then rcvr else rcvr', ew_inner w)))"

definition update_writer ::
  "nat \<Rightarrow> 'c writer_pc \<times> 'rcvr \<times> tcp \<Rightarrow> ('c, 'rcvr) fanout \<Rightarrow> ('c, 'rcvr) fanout" where
  "update_writer k res f =
     (case res of
        (pc, rcvr, st) \<Rightarrow>
          f\<lparr>writers := (writers f)[k := (writers f ! k)\<lparr>w_pc := pc, w_rcvr := rcvr\<rparr>],
            conns := (conns f)[w_conn (writers f ! k) := st]\<rparr>)"

text \<open>The guard on the nonces is dropped when the writer that holds it ends.\<close>

definition release_if_ended :: "nat \<Rightarrow> ('c, 'rcvr) fanout \<Rightarrow> ('c, 'rcvr) fanout" where
  "release_if_ended k f =
     (case w_pc (writers f ! k) of
        Ended e \<Rightarrow> if nonce_owner f = Some k then f\<lparr>nonce_owner := None\<rparr> else f
      | Running start \<Rightarrow> f)"

text \<open>
  A step of writer \<open>k\<close>. A writer that waits for nonces finds them under the lock or
  tries again, which changes nothing.
\<close>

definition writer_turn ::
  "('c, 'rcvr) fan_env \<Rightarrow> (bytes \<Rightarrow> bytes \<Rightarrow> 'c) \<Rightarrow> bytes option \<Rightarrow> (bytes \<times> bytes) option \<Rightarrow> bool \<Rightarrow>
   nat \<Rightarrow> ('c, 'rcvr) fanout \<Rightarrow> ('c, 'rcvr) fanout" where
  "writer_turn env cipher_new ekey nonces ex k f =
     (let w = writers f ! k; st = conns f ! w_conn w
      in case w_pc w of
           Ended e \<Rightarrow> f
         | Running PlainWriter \<Rightarrow> update_writer k (plain_round env ex (w_rcvr w) st) f
         | Running (EncryptingWriter c) \<Rightarrow>
             release_if_ended k (update_writer k (encrypting_round env ex c (w_rcvr w) st) f)
         | Running AwaitingNonces \<Rightarrow>
             if nonce_owner f \<noteq> None then f
             else (case master_writer cipher_new ekey nonces of
                     EncryptingWriter c \<Rightarrow>
                       f\<lparr>writers := (writers f)[k := w\<lparr>w_pc := Running (EncryptingWriter c)\<rparr>],
                         nonce_owner := Some k\<rparr>
                   | _ \<Rightarrow> f))"

text \<open>Whether that step does anything.\<close>

definition writer_enabled :: "(bytes \<times> bytes) option \<Rightarrow> nat \<Rightarrow> ('c, 'rcvr) fanout \<Rightarrow> bool" where
  "writer_enabled nonces k f \<longleftrightarrow>
     k < length (writers f) \<and>
     (case w_pc (writers f ! k) of
        Ended e \<Rightarrow> False
      | Running AwaitingNonces \<Rightarrow> nonce_owner f = None \<and> nonces \<noteq> None
      | Running start \<Rightarrow> True)"

section \<open>The acceptor\<close>

text \<open>
  A round of the acceptor thread is \<open>acceptor_round\<close> of \<open>Slave_Acceptor\<close>, on its
  view of the state: the connections on the shared list and the number admitted. A newcomer
  becomes a socket, and a writer when it was handed to one.
\<close>

definition acceptor_view :: "('c, 'rcvr) fanout \<Rightarrow> acceptor_state" where
  "acceptor_view f =
     \<lparr>slave_count = slaves_admitted f,
      all_streams = \<lparr>m_data = map (\<lambda>i. conns f ! i) (m_data (listed f)), m_poisoned = m_poisoned (listed f)\<rparr>,
      slaves = [], acc_panicked = False\<rparr>"

definition acceptor_turn ::
  "(string \<Rightarrow> 'e + 'n) \<Rightarrow> ('n \<Rightarrow> ip_addr \<Rightarrow> bool) \<Rightarrow> acceptor_env \<Rightarrow> ('c, 'rcvr) fan_env \<Rightarrow> bool \<Rightarrow>
   accept_result \<Rightarrow> ('c, 'rcvr) fanout \<Rightarrow> ('c, 'rcvr) fanout" where
  "acceptor_turn parse_net net_contains aenv env ex res f =
     (case acceptor_round parse_net net_contains aenv \<lparr>acc_should_exit = ex, acc_result = res\<rparr>
             (acceptor_view f) of
        (fl, a) \<Rightarrow>
          let i = length (conns f);
              f1 = f\<lparr>slaves_admitted := slave_count a, acceptor_ended := (fl = Break),
                     listed := (listed f)\<lparr>m_poisoned := m_poisoned (all_streams a)\<rparr>\<rparr>;
              f2 = (if length (m_data (listed f)) < length (m_data (all_streams a))
                    then f1\<lparr>conns := conns f1 @ [last (m_data (all_streams a))],
                            listed := (listed f1)\<lparr>m_data := m_data (listed f1) @ [i]\<rparr>\<rparr>
                    else f1)
          in case slaves a of
               [] \<Rightarrow> f2
             | (ip, st) # _ \<Rightarrow> spawn_writer env i True PlainWriter (f2\<lparr>conns := (conns f2)[i := st]\<rparr>))"

text \<open>Every connection on the list is shut down.\<close>

definition shutdown_listed :: "('c, 'rcvr) fanout \<Rightarrow> ('c, 'rcvr) fanout" where
  "shutdown_listed f =
     f\<lparr>conns := fold (\<lambda>i cs. cs[i := shutdown_both (cs ! i)]) (m_data (listed f)) (conns f)\<rparr>"

section \<open>Well-formed states\<close>

text \<open>
  Every writer and every entry of the list has a socket, no two writers share one, and the
  writer that holds the lock on the nonces is exactly the one that encrypts.
\<close>

definition encrypting :: "('c, 'rcvr) writer \<Rightarrow> bool" where
  "encrypting w \<longleftrightarrow> (case w_pc w of Running (EncryptingWriter c) \<Rightarrow> True | _ \<Rightarrow> False)"

definition fanout_wf :: "('c, 'rcvr) fanout \<Rightarrow> bool" where
  "fanout_wf f \<longleftrightarrow>
     list_all (\<lambda>w. w_conn w < length (conns f)) (writers f) \<and>
     list_all (\<lambda>i. i < length (conns f)) (m_data (listed f)) \<and>
     distinct (map w_conn (writers f)) \<and>
     (\<forall>k < length (writers f). encrypting (writers f ! k) \<longleftrightarrow> nonce_owner f = Some k) \<and>
     (\<forall>k. nonce_owner f = Some k \<longrightarrow> k < length (writers f)) \<and>
     (\<forall>k < length (writers f). w_slave (writers f ! k) \<longrightarrow> w_pc (writers f ! k) = Running PlainWriter \<or>
        (\<exists>e. w_pc (writers f ! k) = Ended e))"

lemma nth_list_update_if: "xs[i := x] ! j = (if i = j \<and> j < length xs then x else xs ! j)"
  by (cases "i = j"; cases "j < length xs") (simp_all add: list_update_beyond)

lemma fanout_wfI:
  assumes "list_all (\<lambda>w. w_conn w < length (conns f)) (writers f)"
    and "list_all (\<lambda>i. i < length (conns f)) (m_data (listed f))"
    and "distinct (map w_conn (writers f))"
    and "\<And>k. k < length (writers f) \<Longrightarrow> encrypting (writers f ! k) \<longleftrightarrow> nonce_owner f = Some k"
    and "\<And>k. nonce_owner f = Some k \<Longrightarrow> k < length (writers f)"
    and "\<And>k. k < length (writers f) \<Longrightarrow> w_slave (writers f ! k) \<Longrightarrow>
      w_pc (writers f ! k) = Running PlainWriter \<or> (\<exists>e. w_pc (writers f ! k) = Ended e)"
  shows "fanout_wf f"
  using assms by (auto simp: fanout_wf_def)

lemma wf_conn: "fanout_wf f \<Longrightarrow> k < length (writers f) \<Longrightarrow> w_conn (writers f ! k) < length (conns f)"
  by (auto simp: fanout_wf_def list_all_length)

lemma wf_conn_inj:
  assumes "fanout_wf f" and "j < length (writers f)" and "k < length (writers f)"
    and "w_conn (writers f ! j) = w_conn (writers f ! k)"
  shows "j = k"
  using assms by (auto simp: fanout_wf_def distinct_conv_nth)

lemma wf_add_conn:
  assumes "fanout_wf f"
  shows "fanout_wf (f\<lparr>conns := conns f @ [st]\<rparr>)"
  using assms by (auto simp: fanout_wf_def list_all_iff less_Suc_eq)

lemma wf_spawn:
  assumes "fanout_wf f" and "i < length (conns f)" and "i \<notin> w_conn ` set (writers f)"
    and "\<And>c. start \<noteq> EncryptingWriter c" and "slave \<Longrightarrow> start = PlainWriter"
  shows "fanout_wf (spawn_writer env i slave start f)"
proof -
  have "\<not> encrypting \<lparr>w_conn = i, w_slave = slave, w_pc = Running start, w_rcvr = fe_subscribe env\<rparr>"
    using assms(4) by (cases start) (auto simp: encrypting_def)
  moreover have "nonce_owner f \<noteq> Some (length (writers f))"
    using assms(1) by (auto simp: fanout_wf_def)
  ultimately show ?thesis
    using assms
    by (intro fanout_wfI) (auto simp: fanout_wf_def spawn_writer_def nth_append less_Suc_eq)
qed

lemma wf_fresh: "fanout_wf f \<Longrightarrow> length (conns f) \<notin> w_conn ` set (writers f)"
  by (auto simp: fanout_wf_def list_all_iff)

lemma broadcast_frame [simp]:
  "conns (broadcast_buffer env bs f) = conns f" "listed (broadcast_buffer env bs f) = listed f"
  "nonce_owner (broadcast_buffer env bs f) = nonce_owner f"
  "acceptor_ended (broadcast_buffer env bs f) = acceptor_ended f"
  "length (writers (broadcast_buffer env bs f)) = length (writers f)"
  "map w_conn (writers (broadcast_buffer env bs f)) = map w_conn (writers f)"
  "k < length (writers f) \<Longrightarrow> w_pc (writers (broadcast_buffer env bs f) ! k) = w_pc (writers f ! k)"
  "k < length (writers f) \<Longrightarrow> w_conn (writers (broadcast_buffer env bs f) ! k) = w_conn (writers f ! k)"
  "k < length (writers f) \<Longrightarrow> w_slave (writers (broadcast_buffer env bs f) ! k) = w_slave (writers f ! k)"
  by (simp_all add: broadcast_buffer_def comp_def)

lemma wf_broadcast: "fanout_wf f \<Longrightarrow> fanout_wf (broadcast_buffer env bs f)"
  by (intro fanout_wfI) (auto simp: fanout_wf_def encrypting_def list_all_length)

section \<open>A writer's round\<close>

lemma plain_round_result:
  assumes "plain_round env ex rcvr st = (pc, rcvr', st')"
  shows "rx st' = rx st" "pc = Running PlainWriter \<or> (\<exists>e. pc = Ended e)"
    "ex \<Longrightarrow> pc = Ended ExitFlag \<and> st' = st"
proof -
  obtain res r1 where r: "fe_try_recv env rcvr = (res, r1)" by (cases "fe_try_recv env rcvr")
  show "rx st' = rx st" "pc = Running PlainWriter \<or> (\<exists>e. pc = Ended e)"
    "ex \<Longrightarrow> pc = Ended ExitFlag \<and> st' = st"
    using assms r tcp_write_all_rx
    by (auto simp: plain_round_def io_simps split: try_recv.splits sum.splits prod.splits if_splits)
      (metis snd_conv tcp_write_all_rx)+
qed

text \<open>What every single write keeps, the loop over it keeps.\<close>

lemma write_all_keeps:
  assumes "write_all wr buf w = Some (r, w')" and "P w"
    and "\<And>b w n w'. wr b w = (n, w') \<Longrightarrow> P w \<Longrightarrow> P w'"
  shows "P w'"
proof -
  let ?Q = "\<lambda>wr buf w res. (\<forall>b w n w'. wr b w = (n, w') \<longrightarrow> P w \<longrightarrow> P w') \<longrightarrow> P w \<longrightarrow> P (snd res)"
  have "?Q wr buf w (r, w')"
  proof (rule write_all.raw_induct [where P = ?Q, OF _ assms(1)])
    fix write_all and wr :: "'a write_fn" and buf w res
    assume "\<And>wr buf w res. write_all wr buf w = Some res \<Longrightarrow> ?Q wr buf w res"
      and "(if buf = [] then Some (Inr (), w)
        else case wr buf w of
               (Inl e, w') \<Rightarrow>
                 if err_kind e = Interrupted then write_all wr buf w' else Some (Inl e, w')
             | (Inr n, w') \<Rightarrow>
                 if n = 0 then Some (Inl WRITE_ALL_EOF, w') else write_all wr (drop n buf) w') = Some res"
    then show "?Q wr buf w res"
      by (cases "wr buf w") (auto split: if_splits sum.splits)
  qed
  with assms show ?thesis by fastforce
qed

lemma encrypted_write_keeps_rx:
  assumes "write_all (encrypted_write k tcp_write) buf w = Some (r, w')"
  shows "rx (ew_inner w') = rx (ew_inner w)"
  by (rule write_all_keeps [OF assms, where P = "\<lambda>v. rx (ew_inner v) = rx (ew_inner w)"])
    (auto simp: encrypted_write_def tcp_write_def split: prod.splits list.splits write_event.splits)

lemma encrypting_round_result:
  assumes "encrypting_round env ex c rcvr st = (pc, rcvr', st')"
  shows "rx st' = rx st" "(\<exists>c'. pc = Running (EncryptingWriter c')) \<or> (\<exists>e. pc = Ended e)"
    "ex \<Longrightarrow> pc = Ended ExitFlag \<and> st' = st"
proof -
  obtain res r1 where r: "fe_try_recv env rcvr = (res, r1)" by (cases "fe_try_recv env rcvr")
  show "rx st' = rx st" "(\<exists>c'. pc = Running (EncryptingWriter c')) \<or> (\<exists>e. pc = Ended e)"
    "ex \<Longrightarrow> pc = Ended ExitFlag \<and> st' = st"
    using assms r
    by (auto simp: encrypting_round_def dest!: encrypted_write_keeps_rx
        split: try_recv.splits sum.splits prod.splits if_splits option.splits)
qed

section \<open>A writer's step\<close>

text \<open>
  What a writer's step comes to: nothing, the lock on the nonces taken, or a round of the
  loop in clear or encrypted.
\<close>

lemma writer_turn_cases:
  obtains (idle) "writer_turn env cn ekey nonces ex k f = f"
  | (locking) c where "w_pc (writers f ! k) = Running AwaitingNonces" "nonce_owner f = None"
      "writer_turn env cn ekey nonces ex k f =
        f\<lparr>writers := (writers f)[k := (writers f ! k)\<lparr>w_pc := Running (EncryptingWriter c)\<rparr>],
          nonce_owner := Some k\<rparr>"
      "master_writer cn ekey nonces = EncryptingWriter c"
  | (plain) pc rcvr st where "w_pc (writers f ! k) = Running PlainWriter"
      "plain_round env ex (w_rcvr (writers f ! k)) (conns f ! w_conn (writers f ! k)) = (pc, rcvr, st)"
      "writer_turn env cn ekey nonces ex k f = update_writer k (pc, rcvr, st) f"
  | (encrypted) c pc rcvr st where "w_pc (writers f ! k) = Running (EncryptingWriter c)"
      "encrypting_round env ex c (w_rcvr (writers f ! k)) (conns f ! w_conn (writers f ! k)) = (pc, rcvr, st)"
      "writer_turn env cn ekey nonces ex k f = release_if_ended k (update_writer k (pc, rcvr, st) f)"
proof (cases "w_pc (writers f ! k)")
  case (Running start)
  note pc = this
  show ?thesis
  proof (cases start)
    case PlainWriter
    with pc plain show ?thesis
      by (cases "plain_round env ex (w_rcvr (writers f ! k)) (conns f ! w_conn (writers f ! k))")
        (auto simp: writer_turn_def Let_def)
  next
    case AwaitingNonces
    note pc = pc [unfolded this]
    show ?thesis
    proof (cases "nonce_owner f = None \<and> (\<exists>c. master_writer cn ekey nonces = EncryptingWriter c)")
      case True
      then obtain c where c: "nonce_owner f = None" "master_writer cn ekey nonces = EncryptingWriter c" by blast
      show ?thesis by (rule locking [OF pc c(1) _ c(2)]) (simp add: writer_turn_def pc c)
    next
      case False
      then have "writer_turn env cn ekey nonces ex k f = f"
        by (cases "nonce_owner f"; cases "master_writer cn ekey nonces") (simp_all add: writer_turn_def pc)
      then show ?thesis by (rule idle)
    qed
  next
    case (EncryptingWriter c)
    with pc encrypted show ?thesis
      by (cases "encrypting_round env ex c (w_rcvr (writers f ! k)) (conns f ! w_conn (writers f ! k))")
        (auto simp: writer_turn_def Let_def)
  qed
next
  case (Ended e)
  with idle show ?thesis by (simp add: writer_turn_def)
qed

lemma update_writer_frame [simp]:
  "listed (update_writer k r f) = listed f" "nonce_owner (update_writer k r f) = nonce_owner f"
  "acceptor_ended (update_writer k r f) = acceptor_ended f"
  "slaves_admitted (update_writer k r f) = slaves_admitted f"
  "length (conns (update_writer k r f)) = length (conns f)"
  "length (writers (update_writer k r f)) = length (writers f)"
  "j \<noteq> k \<Longrightarrow> writers (update_writer k r f) ! j = writers f ! j"
  "k < length (writers f) \<Longrightarrow> writers (update_writer k (pc, rcvr, st) f) ! k =
     (writers f ! k)\<lparr>w_pc := pc, w_rcvr := rcvr\<rparr>"
  by (cases r; simp add: update_writer_def)+

lemma release_frame [simp]:
  "listed (release_if_ended k f) = listed f" "conns (release_if_ended k f) = conns f"
  "writers (release_if_ended k f) = writers f"
  "acceptor_ended (release_if_ended k f) = acceptor_ended f"
  "slaves_admitted (release_if_ended k f) = slaves_admitted f"
  by (simp_all add: release_if_ended_def split: writer_pc.splits)

lemma writer_turn_frame [simp]:
  "listed (writer_turn env cn ekey nonces ex k f) = listed f"
  "acceptor_ended (writer_turn env cn ekey nonces ex k f) = acceptor_ended f"
  "slaves_admitted (writer_turn env cn ekey nonces ex k f) = slaves_admitted f"
  "length (conns (writer_turn env cn ekey nonces ex k f)) = length (conns f)"
  "length (writers (writer_turn env cn ekey nonces ex k f)) = length (writers f)"
  "j \<noteq> k \<Longrightarrow> writers (writer_turn env cn ekey nonces ex k f) ! j = writers f ! j"
  by (rule writer_turn_cases [of env cn ekey nonces ex k f]; simp)+

lemma writer_turn_identity [simp]:
  "w_conn (writers (writer_turn env cn ekey nonces ex k f) ! j) = w_conn (writers f ! j)"
  "w_slave (writers (writer_turn env cn ekey nonces ex k f) ! j) = w_slave (writers f ! j)"
  by (rule writer_turn_cases [of env cn ekey nonces ex k f];
      auto simp: update_writer_def nth_list_update_if split: prod.splits)+

text \<open>A step touches the writer's own socket only, and what comes in over it not at all.\<close>

lemma writer_turn_conns:
  "i \<noteq> w_conn (writers f ! k) \<Longrightarrow> conns (writer_turn env cn ekey nonces ex k f) ! i = conns f ! i"
  "rx (conns (writer_turn env cn ekey nonces ex k f) ! i) = rx (conns f ! i)"
proof -
  show "i \<noteq> w_conn (writers f ! k) \<Longrightarrow> conns (writer_turn env cn ekey nonces ex k f) ! i = conns f ! i"
    by (rule writer_turn_cases [of env cn ekey nonces ex k f])
      (auto simp: update_writer_def split: prod.splits)
  show "rx (conns (writer_turn env cn ekey nonces ex k f) ! i) = rx (conns f ! i)"
    by (rule writer_turn_cases [of env cn ekey nonces ex k f])
      (auto simp: update_writer_def nth_list_update_if plain_round_result encrypting_round_result
        split: prod.splits)
qed

lemma map_w_conn_turn:
  "map w_conn (writers (writer_turn env cn ekey nonces ex k f)) = map w_conn (writers f)"
  by (rule nth_equalityI) simp_all

lemma wf_writer_turn:
  assumes "fanout_wf f" and "k < length (writers f)"
  shows "fanout_wf (writer_turn env cn ekey nonces ex k f)"
proof (rule fanout_wfI)
  let ?f = "writer_turn env cn ekey nonces ex k f"
  show "list_all (\<lambda>w. w_conn w < length (conns ?f)) (writers ?f)"
    "list_all (\<lambda>i. i < length (conns ?f)) (m_data (listed ?f))"
    "distinct (map w_conn (writers ?f))"
    using assms(1) map_w_conn_turn [of env cn ekey nonces ex k f]
    by (simp_all add: fanout_wf_def list_all_length)
  have own: "encrypting (writers f ! j) \<longleftrightarrow> nonce_owner f = Some j" if "j < length (writers f)" for j
    using assms(1) that by (simp add: fanout_wf_def)
  have lock: "encrypting (writers ?f ! k) \<longleftrightarrow> nonce_owner ?f = Some k"
    using own [OF assms(2)] assms(2)
    by (cases rule: writer_turn_cases [of env cn ekey nonces ex k f])
      (auto simp: encrypting_def release_if_ended_def
        dest: plain_round_result(2) encrypting_round_result(2) split: writer_pc.splits)
  have others: "nonce_owner ?f = Some j \<longleftrightarrow> nonce_owner f = Some j" if "j \<noteq> k" for j
    using own [OF assms(2)] assms(2) that
    by (cases rule: writer_turn_cases [of env cn ekey nonces ex k f])
      (auto simp: encrypting_def release_if_ended_def split: writer_pc.splits)
  show "encrypting (writers ?f ! j) \<longleftrightarrow> nonce_owner ?f = Some j" if "j < length (writers ?f)" for j
    using lock others [of j] own [of j] that by (cases "j = k") simp_all
  show "j < length (writers ?f)" if "nonce_owner ?f = Some j" for j
    using that others [of j] assms by (cases "j = k") (auto simp: fanout_wf_def)
  have "w_pc (writers f ! k) = Running PlainWriter \<or> (\<exists>e. w_pc (writers f ! k) = Ended e) \<Longrightarrow>
      w_pc (writers ?f ! k) = Running PlainWriter \<or> (\<exists>e. w_pc (writers ?f ! k) = Ended e)"
    using assms(2)
    by (cases rule: writer_turn_cases [of env cn ekey nonces ex k f])
      (auto dest: plain_round_result(2))
  then show "w_pc (writers ?f ! j) = Running PlainWriter \<or> (\<exists>e. w_pc (writers ?f ! j) = Ended e)"
    if "j < length (writers ?f)" "w_slave (writers ?f ! j)" for j
    using that assms(1) by (cases "j = k") (auto simp: fanout_wf_def)
qed

section \<open>The acceptor's step\<close>

lemma acceptor_turn_cases:
  obtains (same) e where "acceptor_turn p n aenv env ex res f = f\<lparr>acceptor_ended := e\<rparr>" "ex \<Longrightarrow> e"
  | (poisoned) "acceptor_turn p n aenv env ex res f =
      f\<lparr>acceptor_ended := True, listed := (listed f)\<lparr>m_poisoned := True\<rparr>\<rparr>" "\<not> ex"
  | (dropped) st where "acceptor_turn p n aenv env ex res f =
      f\<lparr>acceptor_ended := True,
        listed := (listed f)\<lparr>m_data := m_data (listed f) @ [length (conns f)]\<rparr>,
        conns := conns f @ [st]\<rparr>" "\<not> ex"
  | (admitted) st where "\<not> ex" "acceptor_turn p n aenv env ex res f =
      spawn_writer env (length (conns f)) True PlainWriter
        (f\<lparr>slaves_admitted := Suc (slaves_admitted f), acceptor_ended := False,
           listed := (listed f)\<lparr>m_data := m_data (listed f) @ [length (conns f)]\<rparr>,
           conns := conns f @ [st]\<rparr>)"
      "\<exists>conn. st = send_magic_unchecked (acc_tcp_buffers aenv) (acc_magic aenv)
         (snd (set_write_timeout 30000 conn)) \<and> (\<exists>ip. res = Accepted conn ip True True)"
proof -
  obtain fl a where a: "acceptor_round p n aenv \<lparr>acc_should_exit = ex, acc_result = res\<rparr>
      (acceptor_view f) = (fl, a)" by fastforce
  show ?thesis
  proof (cases "a = acceptor_view f")
    case True
    with a have "ex \<Longrightarrow> fl = Break" by (auto simp: acceptor_round_def)
    moreover have "acceptor_turn p n aenv env ex res f = f\<lparr>acceptor_ended := (fl = Break)\<rparr>"
      using a True by (simp add: acceptor_turn_def acceptor_view_def)
    ultimately show ?thesis using same by blast
  next
    case False
    with a obtain conn ip c1 c2 where r: "\<not> ex" "res = Accepted conn ip c1 c2"
      "admit_slave aenv conn ip c1 c2 (acceptor_view f) = (fl, a)"
      by (auto simp: acceptor_round_def Let_def
          split: if_splits accept_result.splits sum.splits)
    show ?thesis
    proof (cases "m_poisoned (listed f)")
      case True
      with r have "fl = Break" "a = (acceptor_view f)\<lparr>acc_panicked := True\<rparr>"
        by (auto simp: admit_slave_def acceptor_view_def Let_def)
      with a have "acceptor_turn p n aenv env ex res f = f\<lparr>acceptor_ended := True\<rparr>"
        by (simp add: acceptor_turn_def acceptor_view_def)
      with r show ?thesis using same by blast
    next
      case False
      then obtain d where ok: "listed f = \<lparr>m_data = d, m_poisoned = False\<rparr>"
        by (cases "listed f") simp
      show ?thesis
      proof (cases "c1 \<and> c2")
        case True
        with a r ok show ?thesis
          using admitted [of "send_magic_unchecked (acc_tcp_buffers aenv) (acc_magic aenv)
              (snd (set_write_timeout 30000 conn))"]
          by (auto simp: acceptor_turn_def admit_slave_def acceptor_view_def Let_def)
      next
        case False
        with a r ok show ?thesis
          using poisoned dropped [of "snd (set_write_timeout 30000 conn)"]
          by (cases c1) (auto simp: acceptor_turn_def admit_slave_def acceptor_view_def Let_def)
      qed
    qed
  qed
qed

lemma spawn_frame [simp]:
  "conns (spawn_writer env i b start f) = conns f" "listed (spawn_writer env i b start f) = listed f"
  "nonce_owner (spawn_writer env i b start f) = nonce_owner f"
  "acceptor_ended (spawn_writer env i b start f) = acceptor_ended f"
  "length (writers (spawn_writer env i b start f)) = Suc (length (writers f))"
  "k < length (writers f) \<Longrightarrow> writers (spawn_writer env i b start f) ! k = writers f ! k"
  by (simp_all add: spawn_writer_def nth_append)

lemma wf_updates [simp]:
  "fanout_wf (f\<lparr>acceptor_ended := e\<rparr>) = fanout_wf f"
  "fanout_wf (f\<lparr>slaves_admitted := n\<rparr>) = fanout_wf f"
  "fanout_wf (f\<lparr>listed := (listed f)\<lparr>m_poisoned := b\<rparr>\<rparr>) = fanout_wf f"
  by (simp_all add: fanout_wf_def)

lemma wf_new_listed:
  assumes "fanout_wf f"
  shows "fanout_wf (f\<lparr>listed := (listed f)\<lparr>m_data := m_data (listed f) @ [length (conns f)]\<rparr>,
    conns := conns f @ [st]\<rparr>)"
  using assms by (auto simp: fanout_wf_def list_all_iff less_Suc_eq)

lemma wf_acceptor_turn:
  assumes "fanout_wf f"
  shows "fanout_wf (acceptor_turn p n aenv env ex res f)"
proof (cases rule: acceptor_turn_cases [of p n aenv env ex res f])
  case (same e)
  with assms show ?thesis by simp
next
  case poisoned
  with assms show ?thesis by (simp add: fanout_wf_def)
next
  case (dropped st)
  with wf_new_listed [OF assms, of st] show ?thesis by (simp add: fanout_wf_def)
next
  case (admitted st)
  have "fanout_wf (f\<lparr>slaves_admitted := Suc (slaves_admitted f), acceptor_ended := False\<rparr>)"
    using assms by simp
  from wf_new_listed [OF this, of st] wf_fresh [OF assms] show ?thesis
    unfolding admitted by (intro wf_spawn) simp_all
qed

section \<open>Steps left once the exit flag is set\<close>

definition writer_weight :: "('c, 'rcvr) writer \<Rightarrow> nat" where
  "writer_weight w =
     (case w_pc w of Ended e \<Rightarrow> 0 | Running AwaitingNonces \<Rightarrow> 2 | Running start \<Rightarrow> 1)"

definition fan_weight :: "('c, 'rcvr) fanout \<Rightarrow> nat" where
  "fan_weight f = sum_list (map writer_weight (writers f)) + (if acceptor_ended f then 0 else 1)"

lemma sum_list_update_less:
  assumes "k < length xs" and "g y < (g (xs ! k) :: nat)"
  shows "sum_list (map g (xs[k := y])) < sum_list (map g xs)"
proof -
  have "map g (xs[k := y]) = (map g xs)[k := g y]" by (simp add: map_update)
  moreover have "g (xs ! k) \<le> sum_list (map g xs)"
    using assms(1) by (metis elem_le_sum_list length_map nth_map)
  ultimately show ?thesis
    using assms by (simp add: sum_list_update)
qed

lemma broadcast_weight [simp]: "fan_weight (broadcast_buffer env bs f) = fan_weight f"
  by (simp add: fan_weight_def broadcast_buffer_def writer_weight_def [abs_def] comp_def)

text \<open>With the exit flag set, the step of a writer that can move brings it closer to its end.\<close>

lemma writer_turn_weight:
  assumes "writer_enabled nonces k f" and "ekey \<noteq> None \<or> w_pc (writers f ! k) \<noteq> Running AwaitingNonces"
  shows "fan_weight (writer_turn env cn ekey nonces True k f) < fan_weight f"
proof -
  let ?w = "writers f ! k"
  have k: "k < length (writers f)" using assms(1) by (simp add: writer_enabled_def)
  have "\<exists>w'. writers (writer_turn env cn ekey nonces True k f) = (writers f)[k := w'] \<and>
      writer_weight w' < writer_weight ?w"
  proof (cases "w_pc ?w")
    case (Running start)
    note pc = this
    show ?thesis
    proof (cases start)
      case PlainWriter
      obtain pc' rcvr st where
        "plain_round env True (w_rcvr ?w) (conns f ! w_conn ?w) = (pc', rcvr, st)"
        by (metis prod_cases3)
      with plain_round_result(3) [OF this] pc PlainWriter show ?thesis
        by (auto simp: writer_turn_def Let_def update_writer_def writer_weight_def)
    next
      case AwaitingNonces
      with assms pc obtain key m p where "nonce_owner f = None" "nonces = Some (m, p)" "ekey = Some key"
        by (auto simp: writer_enabled_def)
      with pc AwaitingNonces show ?thesis
        by (auto simp: writer_turn_def Let_def master_writer_def writer_weight_def)
    next
      case (EncryptingWriter c)
      obtain pc' rcvr st where
        "encrypting_round env True c (w_rcvr ?w) (conns f ! w_conn ?w) = (pc', rcvr, st)"
        by (metis prod_cases3)
      with encrypting_round_result(3) [OF this] pc EncryptingWriter show ?thesis
        by (auto simp: writer_turn_def Let_def update_writer_def writer_weight_def)
    qed
  next
    case (Ended e)
    with assms(1) show ?thesis by (simp add: writer_enabled_def)
  qed
  then show ?thesis
    using sum_list_update_less [OF k, of writer_weight] by (auto simp: fan_weight_def)
qed

lemma acceptor_turn_weight:
  assumes "\<not> acceptor_ended f"
  shows "fan_weight (acceptor_turn p n aenv env True res f) < fan_weight f"
  using assms
  by (cases rule: acceptor_turn_cases [of p n aenv env True res f]) (auto simp: fan_weight_def)

lemma wf_owner:
  "fanout_wf f \<Longrightarrow> nonce_owner f = Some k \<Longrightarrow> k < length (writers f) \<and> encrypting (writers f ! k)"
  by (simp add: fanout_wf_def)

lemma fan_weight_conns [simp]:
  "fan_weight (f\<lparr>conns := cs\<rparr>) = fan_weight f" "fan_weight (shutdown_listed f) = fan_weight f"
  by (simp_all add: fan_weight_def shutdown_listed_def)

lemma wf_set_conn: "fanout_wf (f\<lparr>conns := (conns f)[i := st]\<rparr>) = fanout_wf f"
  by (simp add: fanout_wf_def)

lemma encrypting_rcvr [simp]: "encrypting (w\<lparr>w_rcvr := r\<rparr>) = encrypting w"
  by (simp add: encrypting_def)

section \<open>What a step leaves of the writers\<close>

lemma writer_turn_set:
  assumes "w \<in> set (writers (writer_turn env cn ekey nonces ex k f))" and "k < length (writers f)"
  shows "\<exists>v \<in> set (writers f). w_conn w = w_conn v \<and> w_slave w = w_slave v \<and>
    (w_pc w = w_pc v \<or> (\<exists>e. w_pc w = Ended e) \<or>
     encrypting w \<and> (encrypting v \<or> w_pc v = Running AwaitingNonces))"
proof -
  let ?f = "writer_turn env cn ekey nonces ex k f"
  from assms(1) obtain j where j: "j < length (writers f)" "w = writers ?f ! j"
    by (metis in_set_conv_nth writer_turn_frame(5))
  have "w_pc (writers ?f ! k) = w_pc (writers f ! k) \<or> (\<exists>e. w_pc (writers ?f ! k) = Ended e) \<or>
      encrypting (writers ?f ! k) \<and>
        (encrypting (writers f ! k) \<or> w_pc (writers f ! k) = Running AwaitingNonces)"
    using assms(2)
    by (cases rule: writer_turn_cases [of env cn ekey nonces ex k f])
      (auto simp: encrypting_def dest!: plain_round_result(2) encrypting_round_result(2))
  then have "w_pc w = w_pc (writers f ! j) \<or> (\<exists>e. w_pc w = Ended e) \<or>
      encrypting w \<and> (encrypting (writers f ! j) \<or> w_pc (writers f ! j) = Running AwaitingNonces)"
    using j by (cases "j = k") simp_all
  with j show ?thesis by (intro bexI [of _ "writers f ! j"]) simp_all
qed

lemma writer_turn_owner:
  "nonce_owner (writer_turn env cn ekey nonces ex k f) \<noteq> None \<Longrightarrow>
     nonce_owner f \<noteq> None \<or> nonces \<noteq> None"
  by (cases rule: writer_turn_cases [of env cn ekey nonces ex k f])
    (auto simp: release_if_ended_def master_writer_def split: writer_pc.splits option.splits if_splits)

lemma acceptor_turn_set:
  assumes "w \<in> set (writers (acceptor_turn p n aenv env ex res f))"
  shows "w \<in> set (writers f) \<or> w_slave w \<and> w_pc w = Running PlainWriter \<and> w_conn w = length (conns f)"
  using assms
  by (cases rule: acceptor_turn_cases [of p n aenv env ex res f]) (auto simp: spawn_writer_def)

lemma acceptor_turn_frame [simp]:
  "nonce_owner (acceptor_turn p n aenv env ex res f) = nonce_owner f"
  "length (conns f) \<le> length (conns (acceptor_turn p n aenv env ex res f))"
  by (cases rule: acceptor_turn_cases [of p n aenv env ex res f]; simp)+

section \<open>What reaches a client\<close>

context broadcast_receiver
begin

text \<open>
  Writer \<open>k\<close> runs on a socket that takes what is written; since the socket held
  \<open>out\<close> it has received whole buffers, and these, with the ones still waiting for it,
  are among the buffers \<open>bufs\<close> in their order, and all of them if it has kept up
  (\<open>up\<close>); the channel retains \<open>cap\<close> buffers.
\<close>

definition waiting_for :: "nat \<Rightarrow> ('c, 'rcvr) fanout \<Rightarrow> nat" where
  "waiting_for k f = length (pending (w_rcvr (writers f ! k)))"

definition feeds :: "nat \<Rightarrow> bool \<Rightarrow> nat \<Rightarrow> bytes \<Rightarrow> bytes list \<Rightarrow> ('c, 'rcvr) fanout \<Rightarrow> bool" where
  "feeds cap up k out bufs f \<longleftrightarrow>
     k < length (writers f) \<and> tx_script (conns f ! w_conn (writers f ! k)) = [] \<and>
     capacity (w_rcvr (writers f ! k)) = cap \<and>
     (\<exists>got. tx (conns f ! w_conn (writers f ! k)) = out @ concat got \<and>
        subseq (got @ pending (w_rcvr (writers f ! k))) bufs \<and>
        (up \<longrightarrow> got @ pending (w_rcvr (writers f ! k)) = bufs))"

lemma feeds_weaken: "feeds cap up k out bufs f \<Longrightarrow> (up' \<longrightarrow> up) \<Longrightarrow> feeds cap up' k out bufs f"
  by (auto simp: feeds_def)

lemma plain_round_feeds:
  assumes "plain_round env ex rcvr st = (pc, rcvr', st')" and "fe_try_recv env = try_recv_fn"
    and "tx_script st = []"
  shows "tx_script st' = [] \<and> capacity rcvr' = capacity rcvr \<and>
    (\<exists>got. tx st' = tx st @ concat got \<and> subseq (got @ pending rcvr') (pending rcvr) \<and>
       (length (pending rcvr) \<le> capacity rcvr \<longrightarrow> got @ pending rcvr' = pending rcvr))"
proof -
  obtain res r1 where r: "try_recv_fn rcvr = (res, r1)" by (cases "try_recv_fn rcvr")
  note cap = recv_capacity [OF r]
  show ?thesis
  proof (cases ex)
    case True
    with assms r show ?thesis by (auto simp: plain_round_def intro!: exI [of _ "[]"])
  next
    case False
    show ?thesis
    proof (cases res)
      case (Received b)
      with r have "pending rcvr = b # pending r1" by (simp add: recv_received)
      with assms r cap False Received show ?thesis
        by (auto simp: plain_round_def intro!: exI [of _ "[b]"])
    next
      case Empty
      with assms r cap False recv_empty [of rcvr r1] show ?thesis
        by (auto simp: plain_round_def intro!: exI [of _ "[]"])
    next
      case Closed
      with assms r cap False recv_closed [of rcvr r1] show ?thesis
        by (auto simp: plain_round_def intro!: exI [of _ "[]"])
    next
      case (Lagged m)
      with r have "pending r1 = drop m (pending rcvr)" "capacity rcvr < length (pending rcvr)"
        by (simp_all add: recv_lagged)
      moreover from this(1) have "subseq (pending r1) (pending rcvr)"
        by (simp add: suffix_drop suffix_imp_subseq)
      ultimately show ?thesis using assms r cap False Lagged
        by (auto simp: plain_round_def intro!: exI [of _ "[]"])
    qed
  qed
qed

lemma feeds_plain_turn:
  assumes "feeds cap up k out bufs f" and "fe_try_recv env = try_recv_fn" and "fanout_wf f"
    and "w_pc (writers f ! k) = Running PlainWriter \<or> (\<exists>e. w_pc (writers f ! k) = Ended e)"
  shows "feeds cap (up \<and> waiting_for k f \<le> cap) k out bufs (writer_turn env cn ekey nonces ex k f)"
proof (cases rule: writer_turn_cases [of env cn ekey nonces ex k f])
  case idle
  with feeds_weaken [OF assms(1)] show ?thesis by simp
next
  case (locking c)
  with assms(4) show ?thesis by simp
next
  case (encrypted c pc rcvr st)
  with assms(4) show ?thesis by simp
next
  case (plain pc rcvr st)
  let ?i = "w_conn (writers f ! k)"
  let ?w = "pending (w_rcvr (writers f ! k))"
  from assms(1) have k: "k < length (writers f)" and scr: "tx_script (conns f ! ?i) = []"
    and cap: "capacity (w_rcvr (writers f ! k)) = cap" by (simp_all add: feeds_def)
  from assms(1) obtain got where got: "tx (conns f ! ?i) = out @ concat got" "subseq (got @ ?w) bufs"
    "up \<longrightarrow> got @ ?w = bufs" by (auto simp: feeds_def)
  from plain_round_feeds [OF plain(2) assms(2) scr] obtain more where
    more: "tx_script st = []" "capacity rcvr = cap" "tx st = tx (conns f ! ?i) @ concat more"
      "subseq (more @ pending rcvr) ?w" "length ?w \<le> cap \<longrightarrow> more @ pending rcvr = ?w" by (auto simp: cap)
  have "subseq ((got @ more) @ pending rcvr) (got @ ?w)"
    using more(4) by (simp add: list_emb_append_mono)
  then have "subseq ((got @ more) @ pending rcvr) bufs" using got(2) by (rule subseq_order.trans)
  moreover have "tx st = out @ concat (got @ more)" using got(1) more(3) by simp
  moreover have "up \<and> waiting_for k f \<le> cap \<longrightarrow> (got @ more) @ pending rcvr = bufs"
    using got(3) more(5) by (simp add: waiting_for_def)
  ultimately have "\<exists>g. tx st = out @ concat g \<and> subseq (g @ pending rcvr) bufs \<and>
      (up \<and> waiting_for k f \<le> cap \<longrightarrow> g @ pending rcvr = bufs)" by blast
  with more(1,2) k wf_conn [OF assms(3) k] show ?thesis
    unfolding feeds_def plain(3) by (simp add: update_writer_def)
qed

text \<open>A writer's round never adds to what waits for it.\<close>

lemma recv_shrinks:
  assumes "try_recv_fn rcvr = (res, rcvr')"
  shows "length (pending rcvr') \<le> length (pending rcvr)"
proof (cases res)
  case (Received b)
  from recv_received [OF assms [unfolded this]] show ?thesis by simp
next
  case Empty
  from recv_empty [OF assms [unfolded this]] show ?thesis by simp
next
  case Closed
  from recv_closed [OF assms [unfolded this]] show ?thesis by simp
next
  case (Lagged n)
  from recv_lagged [OF assms [unfolded this]] show ?thesis by simp
qed

lemma waiting_turn:
  assumes "fe_try_recv env = try_recv_fn" and "k < length (writers f)"
  shows "waiting_for j (writer_turn env cn ekey nonces ex k f) \<le> waiting_for j f"
proof (cases "j = k")
  case True
  obtain res r where r: "try_recv_fn (w_rcvr (writers f ! k)) = (res, r)"
    by (cases "try_recv_fn (w_rcvr (writers f ! k))")
  note less = recv_shrinks [OF r]
  show ?thesis
  proof (cases rule: writer_turn_cases [of env cn ekey nonces ex k f])
    case (plain pc rcvr st)
    then have "rcvr = w_rcvr (writers f ! k) \<or> rcvr = r"
      using r assms(1) by (auto simp: plain_round_def split: option.splits prod.splits if_splits)
    with plain(3) True assms(2) less show ?thesis by (auto simp: waiting_for_def update_writer_def)
  next
    case (encrypted c pc rcvr st)
    then have "rcvr = w_rcvr (writers f ! k) \<or> rcvr = r"
      using r assms(1) by (auto simp: encrypting_round_def split: option.splits prod.splits if_splits)
    with encrypted(3) True assms(2) less show ?thesis by (auto simp: waiting_for_def update_writer_def)
  qed (use True assms(2) in \<open>simp_all add: waiting_for_def\<close>)
qed (simp add: waiting_for_def)

lemma waiting_broadcast:
  assumes "fe_send env = send_fn" and "k < length (writers f)"
  shows "waiting_for k (broadcast_buffer env b f) = Suc (waiting_for k f)"
  using assms by (simp add: waiting_for_def broadcast_buffer_def send_pending)

lemma feeds_other_turn:
  assumes "feeds cap up k out bufs f" and "fanout_wf f" and "j \<noteq> k" and "j < length (writers f)"
  shows "feeds cap up k out bufs (writer_turn env cn ekey nonces ex j f)"
proof -
  from assms(1) have "k < length (writers f)" by (simp add: feeds_def)
  with wf_conn_inj [OF assms(2), of k j] assms(3,4)
  have "w_conn (writers f ! k) \<noteq> w_conn (writers f ! j)" by blast
  with assms(1,3) show ?thesis by (simp add: feeds_def writer_turn_conns)
qed

lemma feeds_broadcast:
  assumes "feeds cap up k out bufs f" and "fe_send env = send_fn"
  shows "feeds cap up k out (bufs @ [b]) (broadcast_buffer env b f)"
proof -
  from assms(1) have k: "k < length (writers f)" by (simp add: feeds_def)
  let ?w = "pending (w_rcvr (writers f ! k))"
  from assms(1) obtain got where got: "tx (conns f ! w_conn (writers f ! k)) = out @ concat got"
    "subseq (got @ ?w) bufs" "up \<longrightarrow> got @ ?w = bufs" by (auto simp: feeds_def)
  have "subseq ((got @ ?w) @ [b]) (bufs @ [b])" using got(2) by (intro list_emb_append_mono) simp_all
  with assms k got(1,3) show ?thesis
    by (auto simp: feeds_def broadcast_buffer_def send_pending send_capacity intro!: exI [of _ got])
qed

lemma feeds_spawn:
  "feeds cap up k out bufs f \<Longrightarrow> feeds cap up k out bufs (spawn_writer env i b start f)"
  by (simp add: feeds_def)

lemma feeds_more_conns:
  assumes "feeds cap up k out bufs f" and "fanout_wf f" and "writers f' = writers f"
    and "\<And>i. i < length (conns f) \<Longrightarrow> i \<noteq> j \<Longrightarrow> conns f' ! i = conns f ! i"
    and "w_conn (writers f ! k) \<noteq> j"
  shows "feeds cap up k out bufs f'"
  using assms wf_conn [of f k] by (simp add: feeds_def)

lemma feeds_acceptor:
  assumes "feeds cap up k out bufs f" and "fanout_wf f"
  shows "feeds cap up k out bufs (acceptor_turn p n aenv env ex res f)"
proof -
  have grown: "feeds cap up k out bufs f'" if "writers f' = writers f" "conns f' = conns f @ cs" for f' cs
    using assms that wf_conn [of f k] by (simp add: feeds_def nth_append)
  show ?thesis
    by (cases rule: acceptor_turn_cases [of p n aenv env ex res f])
      (auto intro!: feeds_spawn grown)
qed

lemma acceptor_feeds:
  assumes "length (writers (acceptor_turn p n aenv env ex (Accepted conn ip c1 c2) f)) = Suc (length (writers f))"
    and "tx conn = []" and "tx_script conn = []" and "pending (fe_subscribe env) = []"
  shows "feeds (capacity (fe_subscribe env)) True (length (writers f)) (acc_magic aenv) []
      (acceptor_turn p n aenv env ex (Accepted conn ip c1 c2) f) \<and>
    w_slave (writers (acceptor_turn p n aenv env ex (Accepted conn ip c1 c2) f) ! length (writers f))"
proof (cases rule: acceptor_turn_cases [of p n aenv env ex "Accepted conn ip c1 c2" f])
  case (admitted st)
  have "tx_script (snd (set_write_timeout 30000 conn)) = []" "tx (snd (set_write_timeout 30000 conn)) = []"
    using assms(2,3) by (simp_all add: set_write_timeout_def)
  with send_magic_unchecked_ok [of "snd (set_write_timeout 30000 conn)" "acc_tcp_buffers aenv" "acc_magic aenv"]
    buf_write_all_ok [of "snd (set_write_timeout 30000 conn)" "acc_tcp_buffers aenv" "acc_magic aenv"] admitted(3)
  have "tx st = acc_magic aenv" "tx_script st = []"
    by (auto simp: send_magic_unchecked_def flush_buf_def buf_drop_def split: prod.splits)
  with admitted(2) assms(4) show ?thesis
    by (auto simp: feeds_def spawn_writer_def intro!: exI [of _ "[]"])
qed (use assms(1) in simp_all)

end

lemma acceptor_rx:
  assumes "length (writers (acceptor_turn p n aenv env ex (Accepted conn ip c1 c2) f)) = Suc (length (writers f))"
    and "tx_script conn = []"
  shows "rx (conns (acceptor_turn p n aenv env ex (Accepted conn ip c1 c2) f) !
    w_conn (writers (acceptor_turn p n aenv env ex (Accepted conn ip c1 c2) f) ! length (writers f))) = rx conn"
proof (cases rule: acceptor_turn_cases [of p n aenv env ex "Accepted conn ip c1 c2" f])
  case (admitted st)
  let ?s = "snd (set_write_timeout 30000 conn)"
  have script: "tx_script ?s = []" and same: "rx ?s = rx conn"
    using assms(2) by (simp_all add: set_write_timeout_def)
  obtain q s' where written: "buf_write_all (acc_tcp_buffers aenv) (acc_magic aenv) [] ?s = (Inr (), q, s')"
    and rest: "tx_script s' = []" "s'\<lparr>tx := tx s' @ q\<rparr> = ?s\<lparr>tx := tx ?s @ acc_magic aenv\<rparr>"
    using buf_write_all_ok [OF script] by blast
  have "rx s' = rx conn" using arg_cong [of _ _ rx, OF rest(2)] same by simp
  with written rest(1) admitted(3) have "rx st = rx conn"
    by (auto simp: send_magic_unchecked_def flush_buf_def buf_drop_def split: prod.splits)
  with admitted(2) show ?thesis by (simp add: spawn_writer_def)
qed (use assms(1) in simp_all)

section \<open>A concrete channel and whitelist\<close>

definition demo_fan_env :: "((nat \<Rightarrow> u8) \<times> nat, subscription) fan_env" where
  "demo_fan_env =
     \<lparr>fe_try_recv = sub_try_recv, fe_send = sub_send,
      fe_subscribe = sub_new DEFAULT_BROADCAST_CAPACITY, fe_apply_keystream = ks_apply\<rparr>"

definition any_net :: "string \<Rightarrow> unit + unit" where
  "any_net cidr = Inr ()"

definition everybody :: "unit \<Rightarrow> ip_addr \<Rightarrow> bool" where
  "everybody net ip = True"

end
