(* ===== verification/Master_Steps.thy ===== *)
theory Master_Steps
  imports Control_Threads
begin

text \<open>
  The master's control thread (\<open>spawn_master_control_thread\<close> of \<open>src/main.rs\<close>) as the
  other threads see it: a round that performs the encrypted handshake is not one action, it
  acknowledges the probe, then exchanges nonces over the socket, then waits for the lock on
  the shared nonces. The pieces, put together again without interference, are shown to be
  the round of \<open>Control_Threads\<close>.
\<close>

section \<open>Reading a command\<close>

text \<open>
  The part of a round before the dispatch: the command is read, decrypted, and dropped when
  the exit flag is set or the limiter refuses it.
\<close>

definition master_begin ::
  "'c master_env \<Rightarrow> master_input \<Rightarrow> 'c master_state \<Rightarrow> flow \<times> bytes option \<times> 'c master_state" where
  "master_begin env r s0 =
     (case tcp_read_exact COMMAND_HEADER_SIZE (stream s0) of
        (res, st) \<Rightarrow>
          let s1 = s0\<lparr>stream := st\<rparr>
          in case res of
               Inl e \<Rightarrow>
                 if err_kind e = WouldBlock \<or> err_kind e = TimedOut then (Continue, None, s1)
                 else if is_disconnect_err e then (Break, None, add_log (ClientDisconnected e) s1)
                 else (Break, None, add_log (ReadError e) s1)
             | Inr raw \<Rightarrow>
                 (case decrypt_command env raw s1 of
                    (buf, s) \<Rightarrow>
                      if should_exit r then (Break, None, add_log ExitFlagSet s)
                      else (case rate_limiter_check (now r) (limiter s) of
                              (ok, rl) \<Rightarrow>
                                let s' = s\<lparr>limiter := rl\<rparr>
                                in if \<not> ok then (Continue, None, add_log RateLimited s')
                                   else (Continue, Some buf, s'))))"

section \<open>Where the thread is\<close>

text \<open>
  At the top of its loop; after the acknowledgement of a probe, about to exchange nonces;
  with the nonces of both sides, about to lock and store them; or at its end.
\<close>

datatype control_pc = Ready | Exchanging | Storing bytes bytes | ControlDone

definition dispatch_step ::
  "'c master_env \<Rightarrow> bytes \<Rightarrow> 'c master_state \<Rightarrow> control_pc \<times> 'c master_state" where
  "dispatch_step env buf s =
     (if buf ! 0 = CMD_CHAIN_DETECT then
        (case env_key env of
           None \<Rightarrow> (Ready, master_chain_ack s)
         | Some key \<Rightarrow> (Exchanging, add_log PerformingHandshake (master_chain_ack s)))
      else (Ready, master_command (env_dev_ok env) buf s))"

definition round_step ::
  "'c master_env \<Rightarrow> master_input \<Rightarrow> 'c master_state \<Rightarrow> control_pc \<times> 'c master_state" where
  "round_step env r s =
     (case master_begin env r s of
        (Break, _, s') \<Rightarrow> (ControlDone, add_log ControlThreadExiting s')
      | (Continue, None, s') \<Rightarrow> (Ready, s')
      | (Continue, Some buf, s') \<Rightarrow> dispatch_step env buf s')"

definition exchange_step ::
  "(nat \<Rightarrow> bytes) \<Rightarrow> bytes \<Rightarrow> 'c master_state \<Rightarrow> (control_pc \<times> 'c master_state) option" where
  "exchange_step fill key s =
     (case server_nonce_exchange tcp_read tcp_write fill key (stream s) of
        None \<Rightarrow> None
      | Some (Inr (my_nonce, peer_nonce), st) \<Rightarrow> Some (Storing my_nonce peer_nonce, s\<lparr>stream := st\<rparr>)
      | Some (Inl e, st) \<Rightarrow> Some (Ready, add_log (HandshakeFailed e) (s\<lparr>stream := st\<rparr>)))"

definition store_step ::
  "'c master_env \<Rightarrow> bytes \<Rightarrow> bytes \<Rightarrow> bytes \<Rightarrow> 'c master_state \<Rightarrow> 'c master_state" where
  "store_step env key my_nonce peer_nonce s =
     add_log ChainEstablished
       (s\<lparr>encryption_nonces := Some (my_nonce, peer_nonce),
          read_cipher := Some (env_cipher_new env key peer_nonce),
          write_cipher := Some (env_cipher_new env key my_nonce)\<rparr>)"

text \<open>
  One step of the thread. The lock is free when the nonces are stored: the caller sees to
  that.
\<close>

definition control_step ::
  "'c master_env \<Rightarrow> master_input \<Rightarrow> control_pc \<Rightarrow> 'c master_state \<Rightarrow>
   (control_pc \<times> 'c master_state) option" where
  "control_step env r pc s =
     (case pc of
        Ready \<Rightarrow> Some (round_step env r s)
      | Exchanging \<Rightarrow> (case env_key env of None \<Rightarrow> None | Some key \<Rightarrow> exchange_step (draw r) key s)
      | Storing my_nonce peer_nonce \<Rightarrow>
          (case env_key env of
             None \<Rightarrow> None
           | Some key \<Rightarrow> Some (Ready, store_step env key my_nonce peer_nonce s))
      | ControlDone \<Rightarrow> None)"

text \<open>The steps that finish the round a thread is in, nobody interfering.\<close>

fun finish_round ::
  "nat \<Rightarrow> 'c master_env \<Rightarrow> master_input \<Rightarrow> control_pc \<times> 'c master_state \<Rightarrow>
   (control_pc \<times> 'c master_state) option" where
  "finish_round 0 env r c = Some c"
| "finish_round (Suc n) env r (pc, s) =
     (if pc = Ready \<or> pc = ControlDone then Some (pc, s)
      else (case control_step env r pc s of
              None \<Rightarrow> None
            | Some c \<Rightarrow> finish_round n env r c))"

section \<open>The pieces make up the round\<close>

lemma master_round_begin:
  "master_round env r s =
     (case master_begin env r s of
        (fl, None, s') \<Rightarrow> Some (fl, s')
      | (fl, Some buf, s') \<Rightarrow> map_option (Pair Continue) (master_dispatch env (draw r) buf s'))"
  by (auto simp: master_round_def master_begin_def Let_def split: prod.splits sum.splits)

lemma master_begin_command: "master_begin env r s = (fl, Some buf, s') \<Longrightarrow> fl = Continue"
  by (auto simp: master_begin_def Let_def split: prod.splits sum.splits if_splits)

lemma dispatch_step_eq:
  "dispatch_step env buf s =
     (if buf ! 0 = CMD_CHAIN_DETECT then
        (case env_key env of
           None \<Rightarrow> (Ready, chain_ack s)
         | Some key \<Rightarrow> (Exchanging, add_log PerformingHandshake (chain_ack s)))
      else (Ready, single_dispatch (env_dev_ok env) buf s))"
  by (simp add: dispatch_step_def master_command_single split: option.split)

lemma master_dispatch_probe:
  "buf ! 0 = CMD_CHAIN_DETECT \<Longrightarrow> master_dispatch env fill buf s = master_chain_detect env fill s"
  by (simp add: master_dispatch_def)

lemma finish_dispatch:
  "finish_round 2 env r (dispatch_step env buf s) =
     map_option (Pair Ready) (master_dispatch env (draw r) buf s)"
proof (cases "buf ! 0 = CMD_CHAIN_DETECT")
  case probe: True
  show ?thesis
  proof (cases "env_key env")
    case None
    with probe show ?thesis
      by (simp add: dispatch_step_eq master_dispatch_probe master_chain_detect_def
          eval_nat_numeral)
  next
    case (Some k)
    have two: "(2 :: nat) = Suc (Suc 0)" by simp
    from Some probe show ?thesis
      unfolding two
      by (auto simp: dispatch_step_eq master_dispatch_probe master_chain_detect_def Let_def
          control_step_def exchange_step_def store_step_def
          split: option.splits sum.splits prod.splits)
  qed
next
  case False
  then show ?thesis
    by (simp add: dispatch_step_eq master_dispatch_other eval_nat_numeral)
qed

lemma finish_round_settled [simp]:
  "finish_round n env r (Ready, s) = Some (Ready, s)"
  "finish_round n env r (ControlDone, s) = Some (ControlDone, s)"
  by (cases n; simp)+

section \<open>What a step keeps\<close>

lemma master_begin_frame:
  assumes "master_begin env r s = (fl, cmd, s')"
  shows "ctl s' = ctl s" "agc_st s' = agc_st s" "encryption_nonces s' = encryption_nonces s"
    "tx (stream s') = tx (stream s)" "tx_script (stream s') = tx_script (stream s)"
    "script_size (rx (stream s')) \<le> script_size (rx (stream s))"
proof -
  obtain res st where st: "tcp_read_exact COMMAND_HEADER_SIZE (stream s) = (res, st)"
    by (cases "tcp_read_exact COMMAND_HEADER_SIZE (stream s)")
  note fr = tcp_read_exact_frame [OF st]
  have tx: "tx st = tx (stream s)" "tx_script st = tx_script (stream s)"
    using fr(1) by (metis tcp.select_convs(2,3) tcp.surjective tcp.update_convs(1))+
  have "stream s' = st \<and> ctl s' = ctl s \<and> agc_st s' = agc_st s \<and>
      encryption_nonces s' = encryption_nonces s"
    using assms st
    by (auto simp: master_begin_def Let_def decrypt_command_def add_log_def
        split: prod.splits sum.splits option.splits if_splits)
  with tx fr(2) show "ctl s' = ctl s" "agc_st s' = agc_st s"
    "encryption_nonces s' = encryption_nonces s"
    "tx (stream s') = tx (stream s)" "tx_script (stream s') = tx_script (stream s)"
    "script_size (rx (stream s')) \<le> script_size (rx (stream s))" by simp_all
qed

lemma dispatch_step_frame:
  assumes "dispatch_step env buf s = (pc, s')"
  shows "device_safe s \<Longrightarrow> device_safe s'" "agc_tracks s \<Longrightarrow> agc_tracks s'"
    "m_poisoned (ctl s') = m_poisoned (ctl s)" "cancel_calls s' = cancel_calls s"
    "rx (stream s') = rx (stream s)" "pc = Ready \<or> pc = Exchanging \<and> env_key env \<noteq> None"
proof -
  have logs: "device_safe (add_log e t) = device_safe t" "agc_tracks (add_log e t) = agc_tracks t"
    "cancel_calls (add_log e t) = cancel_calls t" for e and t :: "'a master_state"
    by (simp_all add: device_safe_def agc_tracks_def cancel_calls_def)
  have ack: "device_safe (chain_ack s) = device_safe s" "agc_tracks (chain_ack s) = agc_tracks s"
    "cancel_calls (chain_ack s) = cancel_calls s"
    by (auto intro!: device_safe_cong agc_tracks_cong simp: commands_ctl cancel_calls_def
        chain_ack_def Let_def split: prod.splits sum.splits)
  show "device_safe s \<Longrightarrow> device_safe s'" "agc_tracks s \<Longrightarrow> agc_tracks s'"
    "m_poisoned (ctl s') = m_poisoned (ctl s)" "cancel_calls s' = cancel_calls s"
    "rx (stream s') = rx (stream s)" "pc = Ready \<or> pc = Exchanging \<and> env_key env \<noteq> None"
    using assms
    by (auto simp: dispatch_step_eq logs ack commands_ctl single_dispatch_safe single_dispatch_agc
        single_dispatch_ctl split: if_splits option.splits)
qed

text \<open>
  Every step keeps the device in range and the AGC state in step, never touches the record
  of the cancel thread's call, and leaves no more input than it found.
\<close>

lemma control_step_keeps:
  assumes "control_step env r pc s = Some (pc', s')"
  shows "device_safe s \<Longrightarrow> device_safe s'" "agc_tracks s \<Longrightarrow> agc_tracks s'"
    "m_poisoned (ctl s') = m_poisoned (ctl s)" "cancel_calls s' = cancel_calls s"
    "script_size (rx (stream s')) \<le> script_size (rx (stream s))"
proof -
  have "(device_safe s \<longrightarrow> device_safe s') \<and> (agc_tracks s \<longrightarrow> agc_tracks s') \<and>
    m_poisoned (ctl s') = m_poisoned (ctl s) \<and> cancel_calls s' = cancel_calls s \<and>
    script_size (rx (stream s')) \<le> script_size (rx (stream s))"
  proof (cases pc)
    case Ready
    obtain fl cmd s1 where b: "master_begin env r s = (fl, cmd, s1)"
      by (cases "master_begin env r s")
    note fr = master_begin_frame [OF b]
    have same: "device_safe s1 = device_safe s" "agc_tracks s1 = agc_tracks s"
      "cancel_calls s1 = cancel_calls s"
      using fr by (auto intro!: device_safe_cong agc_tracks_cong simp: cancel_calls_def)
    have logs: "device_safe (add_log e t) = device_safe t" "agc_tracks (add_log e t) = agc_tracks t"
      "cancel_calls (add_log e t) = cancel_calls t" for e and t :: "'a master_state"
      by (simp_all add: device_safe_def agc_tracks_def cancel_calls_def)
    show ?thesis
    proof (cases "fl = Continue \<and> cmd \<noteq> None")
      case True
      then obtain buf where buf: "cmd = Some buf" by blast
      with True b Ready assms have "dispatch_step env buf s1 = (pc', s')"
        by (simp add: control_step_def round_step_def)
      from dispatch_step_frame [OF this] same fr show ?thesis by simp
    next
      case False
      with b Ready assms have "s' = s1 \<or> s' = add_log ControlThreadExiting s1"
        by (cases fl) (auto simp: control_step_def round_step_def)
      with same fr logs show ?thesis by auto
    qed
  next
    case Exchanging
    with assms obtain key where "exchange_step (draw r) key s = Some (pc', s')"
      by (auto simp: control_step_def split: option.splits)
    then obtain res st where
      st: "server_nonce_exchange tcp_read tcp_write (draw r) key (stream s) = Some (res, st)"
      and s': "s' = s\<lparr>stream := st\<rparr> \<or> (\<exists>e. s' = add_log e (s\<lparr>stream := st\<rparr>))"
      by (auto simp: exchange_step_def split: option.splits sum.splits prod.splits)
    from server_nonce_exchange_size [OF st] s' show ?thesis
      by (auto simp: device_safe_def agc_tracks_def cancel_calls_def)
  next
    case (Storing m p)
    with assms show ?thesis
      by (auto simp: control_step_def store_step_def device_safe_def agc_tracks_def cancel_calls_def
          split: option.splits)
  next
    case ControlDone
    with assms show ?thesis by (simp add: control_step_def)
  qed
  then show "device_safe s \<Longrightarrow> device_safe s'" "agc_tracks s \<Longrightarrow> agc_tracks s'"
    "m_poisoned (ctl s') = m_poisoned (ctl s)" "cancel_calls s' = cancel_calls s"
    "script_size (rx (stream s')) \<le> script_size (rx (stream s))" by blast+
qed

section \<open>Progress\<close>

text \<open>
  How far the thread is from its end once the exit flag is set: the input left and the
  steps of the round it is in.
\<close>

fun pc_weight :: "control_pc \<Rightarrow> nat" where
  "pc_weight Ready = 1"
| "pc_weight Exchanging = 3"
| "pc_weight (Storing m p) = 2"
| "pc_weight ControlDone = 0"

lemma master_begin_progress:
  assumes "master_begin env r s = (Continue, cmd, s')"
  shows "script_size (rx (stream s')) < script_size (rx (stream s))"
proof -
  obtain res st where st: "tcp_read_exact COMMAND_HEADER_SIZE (stream s) = (res, st)"
    by (cases "tcp_read_exact COMMAND_HEADER_SIZE (stream s)")
  have "script_size (rx st) < script_size (rx (stream s))"
    using assms st
    by (intro read_progress [OF st]) (auto simp: master_begin_def Let_def split: if_splits)
  moreover have "stream s' = st"
    using assms st
    by (auto simp: master_begin_def Let_def decrypt_command_def add_log_def
        split: prod.splits sum.splits option.splits if_splits)
  ultimately show ?thesis by simp
qed

lemma exit_stops_commands:
  "should_exit r \<Longrightarrow> master_begin env r s = (fl, cmd, s') \<Longrightarrow> cmd = None"
  by (auto simp: master_begin_def Let_def split: prod.splits sum.splits if_splits)

lemma control_step_exit_progress:
  assumes "control_step env r pc s = Some (pc', s')" and "should_exit r"
  shows "pc_weight pc' + script_size (rx (stream s')) < pc_weight pc + script_size (rx (stream s))"
proof (cases pc)
  case Ready
  obtain fl cmd s1 where b: "master_begin env r s = (fl, cmd, s1)" by (cases "master_begin env r s")
  from exit_stops_commands [OF assms(2) b] have "cmd = None" .
  with b Ready assms(1) master_begin_frame(6) [OF b] master_begin_progress [of env r s None s1]
  show ?thesis by (cases fl) (auto simp: control_step_def round_step_def)
next
  case Exchanging
  with assms(1) have "pc_weight pc' < 3"
    by (auto simp: control_step_def exchange_step_def split: option.splits sum.splits prod.splits)
  with Exchanging control_step_keeps(5) [OF assms(1)] show ?thesis by simp
next
  case (Storing m p)
  with assms(1) have "pc' = Ready" by (auto simp: control_step_def split: option.splits)
  with Storing control_step_keeps(5) [OF assms(1)] show ?thesis by simp
next
  case ControlDone
  with assms(1) show ?thesis by (simp add: control_step_def)
qed

text \<open>A thread that has not ended can move, as long as it is in a handshake only with a key.\<close>

definition pc_ok :: "'c master_env \<Rightarrow> control_pc \<Rightarrow> bool" where
  "pc_ok env pc \<longleftrightarrow> (pc = Ready \<or> pc = ControlDone \<or> env_key env \<noteq> None)"

lemma control_step_enabled:
  assumes "pc_ok env pc" and "pc \<noteq> ControlDone"
  shows "\<exists>pc' s'. control_step env r pc s = Some (pc', s')"
proof (cases pc)
  case Ready
  then show ?thesis by (cases "round_step env r s") (simp add: control_step_def)
next
  case Exchanging
  with assms obtain key where k: "env_key env = Some key" by (auto simp: pc_ok_def)
  obtain res st where
    "server_nonce_exchange tcp_read tcp_write (draw r) key (stream s) = Some (res, st)"
    using server_nonce_exchange_total by fastforce
  with k Exchanging show ?thesis
    by (cases res) (auto simp: control_step_def exchange_step_def split: prod.splits)
qed (use assms in \<open>auto simp: control_step_def pc_ok_def\<close>)

lemma control_step_pc_ok:
  assumes "control_step env r pc s = Some (pc', s')"
  shows "pc_ok env pc'"
proof (cases pc)
  case Ready
  obtain fl cmd s1 where b: "master_begin env r s = (fl, cmd, s1)" by (cases "master_begin env r s")
  show ?thesis
  proof (cases "fl = Continue \<and> cmd \<noteq> None")
    case True
    then obtain buf where "cmd = Some buf" by blast
    with True b Ready assms have "dispatch_step env buf s1 = (pc', s')"
      by (simp add: control_step_def round_step_def)
    from dispatch_step_frame(6) [OF this] show ?thesis by (auto simp: pc_ok_def)
  next
    case False
    with b Ready assms show ?thesis
      by (cases fl) (auto simp: control_step_def round_step_def pc_ok_def)
  qed
qed (use assms in \<open>auto simp: control_step_def pc_ok_def split: option.splits\<close>)

section \<open>The steps and the round\<close>

text \<open>
  The control thread's steps are a faithful decomposition of its loop body: run one
  after the other with nobody in between, they do what a whole round does, and a round that
  breaks is the end of the thread.
\<close>

lemma control_steps_make_round:
  "finish_round 2 env r (round_step env r s) =
     map_option (\<lambda>(fl, s'). case fl of
         Continue \<Rightarrow> (Ready, s')
       | Break \<Rightarrow> (ControlDone, add_log ControlThreadExiting s'))
       (master_round env r s)"
proof -
  obtain fl cmd s' where b: "master_begin env r s = (fl, cmd, s')" by (cases "master_begin env r s")
  show ?thesis
  proof (cases cmd)
    case None
    with b show ?thesis by (cases fl) (simp_all add: round_step_def master_round_begin)
  next
    case (Some buf)
    with b have "fl = Continue" by (simp add: master_begin_command)
    with b Some show ?thesis
      by (simp add: round_step_def master_round_begin finish_dispatch option.map_comp comp_def)
  qed
qed

end
