(* ===== verification/Multi_Threads.thy ===== *)
theory Multi_Threads
  imports Fanout_Threads Master_Steps
begin

text \<open>
  Multi-client serve mode (\<open>run_serve_multi\<close> of \<open>src/main.rs\<close>) as the interleaving
  of its threads: the main thread with its reconnection loop and its shutdown, the control
  thread of the current master, the writer threads, the slave acceptor, the thread that
  reads the device, the cancel thread and the signal handler. What a thread does between
  two points where another could notice is one step; a thread that waits (for a lock, a
  join, a socket or a channel) has no step until it can go on.
\<close>

section \<open>State\<close>

text \<open>
  Where the main thread is: before \<open>accept\<close>; with a master whose writer is started, about
  to send the magic packet; waiting for the control thread of the master on a socket;
  waiting for the cancel thread; for the thread that reads the device; or at its end.
\<close>

datatype main_pc =
    Accepting
  | SendingMagic nat
  | Serving nat
  | JoiningCancel
  | JoiningReader
  | MainReturned "rtl_tcp_error + unit"
  | MainPanicked

record 'c control =
  co_pc :: control_pc
  co_state :: "'c master_state"

record ('c, 'rcvr) multi_threads =
  mt_main :: main_pc
  mt_control :: "'c control option"
  mt_fan :: "('c, 'rcvr) fanout"
  mt_ctl :: "dev_call list mutex"
  mt_agc :: agc_state
  mt_nonces :: "(bytes \<times> bytes) option"
  mt_slot :: bool
  mt_exit :: bool
  mt_cancelled :: bool
  mt_reading :: bool

record ('c, 'rcvr) mt_env =
  mt_args :: args
  mt_master :: "'c master_env"
  mt_fanout :: "('c, 'rcvr) fan_env"

definition mt_begin :: "'c multi_state \<Rightarrow> ('c, 'rcvr) multi_threads" where
  "mt_begin m =
     \<lparr>mt_main = Accepting, mt_control = None,
      mt_fan = \<lparr>conns = [], listed = \<lparr>m_data = [], m_poisoned = False\<rparr>, writers = [],
                slaves_admitted = 0, acceptor_ended = False, nonce_owner = None\<rparr>,
      mt_ctl = mu_ctl m, mt_agc = mu_agc m, mt_nonces = mu_nonces m,
      mt_slot = False, mt_exit = False, mt_cancelled = False, mt_reading = True\<rparr>"

section \<open>The signal handler, the cancel thread and the device\<close>

definition mt_try_send :: "('c, 'rcvr) multi_threads \<Rightarrow> ('c, 'rcvr) multi_threads" where
  "mt_try_send s = (if mt_slot s \<or> mt_cancelled s then s else s\<lparr>mt_slot := True\<rparr>)"

definition mt_signal :: "('c, 'rcvr) multi_threads \<Rightarrow> ('c, 'rcvr) multi_threads" where
  "mt_signal s = (mt_try_send s)\<lparr>mt_exit := True\<rparr>"

definition mt_cancel :: "('c, 'rcvr) multi_threads \<Rightarrow> ('c, 'rcvr) multi_threads" where
  "mt_cancel s =
     s\<lparr>mt_slot := False, mt_ctl := cancel_device (mt_ctl s), mt_exit := True, mt_cancelled := True\<rparr>"

text \<open>
  A batch of samples goes to the channel; the send cannot fail, because the main thread
  keeps a receiver of its own. When \<open>read_async\<close> returns, the reader thread just ends.
\<close>

definition mt_batch ::
  "('c, 'rcvr) mt_env \<Rightarrow> bytes \<Rightarrow> ('c, 'rcvr) multi_threads \<Rightarrow> ('c, 'rcvr) multi_threads" where
  "mt_batch env bs s = s\<lparr>mt_fan := broadcast_buffer (mt_fanout env) bs (mt_fan s)\<rparr>"

definition mt_read_end :: "('c, 'rcvr) multi_threads \<Rightarrow> ('c, 'rcvr) multi_threads" where
  "mt_read_end s = s\<lparr>mt_reading := False\<rparr>"

section \<open>The main thread\<close>

definition mt_return ::
  "rtl_tcp_error + unit \<Rightarrow> ('c, 'rcvr) multi_threads \<Rightarrow> ('c, 'rcvr) multi_threads" where
  "mt_return r s = s\<lparr>mt_main := MainReturned r\<rparr>"

definition mt_stop :: "('c, 'rcvr) multi_threads \<Rightarrow> ('c, 'rcvr) multi_threads" where
  "mt_stop s = (mt_try_send s)\<lparr>mt_main := JoiningCancel\<rparr>"

text \<open>A master that passed the whitelist, up to the start of its writer.\<close>

definition mt_open ::
  "('c, 'rcvr) mt_env \<Rightarrow> turn \<Rightarrow> tcp \<Rightarrow> ('c, 'rcvr) multi_threads \<Rightarrow> ('c, 'rcvr) multi_threads" where
  "mt_open env tu conn s =
     (let f = mt_fan s; i = length (conns f); args = mt_args env
      in case set_read_timeout (1000 * unat (arg_read_timeout args)) conn of
           (Inl e, _) \<Rightarrow> mt_return (Inl (Io e)) s
         | (Inr _, c1) \<Rightarrow>
         (case set_write_timeout (1000 * unat (arg_write_timeout args)) c1 of
            (Inl e, _) \<Rightarrow> mt_return (Inl (Io e)) s
          | (Inr _, c2) \<Rightarrow>
         (if m_poisoned (listed f) then s\<lparr>mt_main := MainPanicked\<rparr>
          else (case tu_clone_list tu of
             Inl e \<Rightarrow> mt_return (Inl (Io e)) s
           | Inr _ \<Rightarrow>
         (let f1 = f\<lparr>listed := (listed f)\<lparr>m_data := m_data (listed f) @ [i]\<rparr>, conns := conns f @ [c2]\<rparr>
          in case tu_clone_writer tu of
               Inl e \<Rightarrow> mt_return (Inl (Io e)) (s\<lparr>mt_fan := f1\<rparr>)
             | Inr _ \<Rightarrow>
                 s\<lparr>mt_fan := spawn_writer (mt_fanout env) i False
                     (case env_key (mt_master env) of None \<Rightarrow> PlainWriter | Some k \<Rightarrow> AwaitingNonces) f1,
                   mt_main := SendingMagic i\<rparr>)))))"

definition mt_accept ::
  "(string \<Rightarrow> 'e + 'n) \<Rightarrow> ('n \<Rightarrow> ip_addr \<Rightarrow> bool) \<Rightarrow> ('c, 'rcvr) mt_env \<Rightarrow> turn \<Rightarrow>
   ('c, 'rcvr) multi_threads \<Rightarrow> ('c, 'rcvr) multi_threads" where
  "mt_accept parse_net net_contains env tu s =
     (if mt_exit s then mt_stop s
      else (case tu_accept tu of
              Inl e \<Rightarrow>
                if err_kind e = WouldBlock then s
                else mt_return (Inl (Network (''master accept error: '' @ err_msg e))) s
            | Inr (conn, addr) \<Rightarrow>
                (case check_whitelist parse_net net_contains (show_ip_addr (to_canonical addr))
                        (whitelist (mt_args env)) of
                   Inl e \<Rightarrow> mt_return (Inl e) s
                 | Inr _ \<Rightarrow> mt_open env tu conn s)))"

definition set_conn :: "nat \<Rightarrow> tcp \<Rightarrow> ('c, 'rcvr) multi_threads \<Rightarrow> ('c, 'rcvr) multi_threads" where
  "set_conn i st s = s\<lparr>mt_fan := (mt_fan s)\<lparr>conns := (conns (mt_fan s))[i := st]\<rparr>\<rparr>"

text \<open>The magic packet, and the start of the control thread.\<close>

definition mt_magic ::
  "('c, 'rcvr) mt_env \<Rightarrow> turn \<Rightarrow> nat \<Rightarrow> ('c, 'rcvr) multi_threads \<Rightarrow> ('c, 'rcvr) multi_threads" where
  "mt_magic env tu i s =
     (case tu_clone_magic tu of
        Inl e \<Rightarrow> mt_return (Inl (Io e)) s
      | Inr _ \<Rightarrow>
          (case send_magic (unat (tcp_buffers (mt_args env))) MAGIC_PACKET (conns (mt_fan s) ! i) of
             (Inl e, st) \<Rightarrow> mt_return (Inl (Io e)) (set_conn i st s)
           | (Inr _, st) \<Rightarrow>
               (case tu_clone_control tu of
                  Inl e \<Rightarrow> mt_return (Inl (Io e)) (set_conn i st s)
                | Inr _ \<Rightarrow>
                    let m = master_start st (mt_ctl s) (mt_agc s) (mt_nonces s)
                          (1000 * unat (arg_read_timeout (mt_args env)))
                          (fst (tu_clock tu)) (snd (tu_clock tu))
                    in (set_conn i (stream m) s)
                         \<lparr>mt_control := Some \<lparr>co_pc = Ready, co_state = m\<rparr>, mt_main := Serving i\<rparr>)))"

definition mt_join_control :: "('c, 'rcvr) multi_threads \<Rightarrow> ('c, 'rcvr) multi_threads" where
  "mt_join_control s =
     (let s' = s\<lparr>mt_control := None\<rparr>
      in if mt_exit s then mt_stop s' else s'\<lparr>mt_main := Accepting\<rparr>)"

definition mt_join_cancel :: "('c, 'rcvr) multi_threads \<Rightarrow> ('c, 'rcvr) multi_threads" where
  "mt_join_cancel s = s\<lparr>mt_main := JoiningReader\<rparr>"

definition mt_join_reader :: "('c, 'rcvr) multi_threads \<Rightarrow> ('c, 'rcvr) multi_threads" where
  "mt_join_reader s =
     (if m_poisoned (listed (mt_fan s)) then s\<lparr>mt_main := MainPanicked\<rparr>
      else s\<lparr>mt_fan := shutdown_listed (mt_fan s), mt_main := MainReturned (Inr ())\<rparr>)"

section \<open>The control thread\<close>

text \<open>The control thread's state with what it shares, as it is now.\<close>

definition mt_load :: "nat \<Rightarrow> 'c master_state \<Rightarrow> ('c, 'rcvr) multi_threads \<Rightarrow> 'c master_state" where
  "mt_load i m s =
     m\<lparr>stream := conns (mt_fan s) ! i, ctl := mt_ctl s, agc_st := mt_agc s,
       encryption_nonces := mt_nonces s\<rparr>"

definition mt_store ::
  "nat \<Rightarrow> control_pc \<Rightarrow> 'c master_state \<Rightarrow> ('c, 'rcvr) multi_threads \<Rightarrow> ('c, 'rcvr) multi_threads" where
  "mt_store i pc m s =
     (set_conn i (stream m) s)\<lparr>mt_control := Some \<lparr>co_pc = pc, co_state = m\<rparr>,
       mt_ctl := ctl m, mt_agc := agc_st m, mt_nonces := encryption_nonces m\<rparr>"

definition mt_control_turn ::
  "('c, 'rcvr) mt_env \<Rightarrow> instant \<Rightarrow> (nat \<Rightarrow> bytes) \<Rightarrow> nat \<Rightarrow> 'c control \<Rightarrow> ('c, 'rcvr) multi_threads \<Rightarrow>
   ('c, 'rcvr) multi_threads" where
  "mt_control_turn env t fill i c s =
     (case control_step (mt_master env) \<lparr>should_exit = mt_exit s, now = t, draw = fill\<rparr> (co_pc c)
             (mt_load i (co_state c) s) of
        None \<Rightarrow> s
      | Some (pc, m) \<Rightarrow> mt_store i pc m s)"

definition control_enabled :: "'c control \<Rightarrow> ('c, 'rcvr) fanout \<Rightarrow> bool" where
  "control_enabled c f \<longleftrightarrow>
     (case co_pc c of
        ControlDone \<Rightarrow> False
      | Storing my_nonce peer_nonce \<Rightarrow> nonce_owner f = None
      | _ \<Rightarrow> True)"

section \<open>The writers and the acceptor\<close>

definition mt_writer ::
  "('c, 'rcvr) mt_env \<Rightarrow> nat \<Rightarrow> ('c, 'rcvr) multi_threads \<Rightarrow> ('c, 'rcvr) multi_threads" where
  "mt_writer env k s =
     s\<lparr>mt_fan := writer_turn (mt_fanout env) (env_cipher_new (mt_master env)) (env_key (mt_master env))
         (mt_nonces s) (mt_exit s) k (mt_fan s)\<rparr>"

definition multi_acceptor_env :: "args \<Rightarrow> acceptor_env" where
  "multi_acceptor_env args =
     \<lparr>acc_magic = MAGIC_PACKET, acc_whitelist = whitelist args,
      acc_max_slaves = max_slaves args, acc_tcp_buffers = unat (tcp_buffers args)\<rparr>"

definition mt_acceptor ::
  "(string \<Rightarrow> 'e + 'n) \<Rightarrow> ('n \<Rightarrow> ip_addr \<Rightarrow> bool) \<Rightarrow> ('c, 'rcvr) mt_env \<Rightarrow> accept_result \<Rightarrow>
   ('c, 'rcvr) multi_threads \<Rightarrow> ('c, 'rcvr) multi_threads" where
  "mt_acceptor parse_net net_contains env res s =
     s\<lparr>mt_fan := acceptor_turn parse_net net_contains (multi_acceptor_env (mt_args env)) (mt_fanout env)
         (mt_exit s) res (mt_fan s)\<rparr>"

section \<open>Interleavings\<close>

definition mt_running :: "('c, 'rcvr) multi_threads \<Rightarrow> bool" where
  "mt_running s \<longleftrightarrow> (case mt_main s of MainReturned r \<Rightarrow> False | MainPanicked \<Rightarrow> False | _ \<Rightarrow> True)"

datatype mt_event =
    EvSignal
  | EvCancel
  | EvBatch bytes
  | EvReadEnd
  | EvSlave accept_result
  | EvWriter nat
  | EvControl instant "nat \<Rightarrow> bytes"
  | EvAccept turn
  | EvMagic turn
  | EvJoinControl
  | EvJoinCancel
  | EvJoinReader

inductive mt_step ::
  "(string \<Rightarrow> 'e + 'n) \<Rightarrow> ('n \<Rightarrow> ip_addr \<Rightarrow> bool) \<Rightarrow> ('c, 'rcvr) mt_env \<Rightarrow> mt_event \<Rightarrow>
   ('c, 'rcvr) multi_threads \<Rightarrow> ('c, 'rcvr) multi_threads \<Rightarrow> bool" for p n env where
  mt_signal: "mt_running s \<Longrightarrow> mt_step p n env EvSignal s (mt_signal s)"
| mt_cancel: "mt_running s \<Longrightarrow> mt_slot s \<Longrightarrow> \<not> mt_cancelled s \<Longrightarrow> mt_step p n env EvCancel s (mt_cancel s)"
| mt_batch: "mt_running s \<Longrightarrow> mt_reading s \<Longrightarrow> mt_step p n env (EvBatch bs) s (mt_batch env bs s)"
| mt_read_end: "mt_running s \<Longrightarrow> mt_reading s \<Longrightarrow> mt_step p n env EvReadEnd s (mt_read_end s)"
| mt_acceptor: "mt_running s \<Longrightarrow> \<not> acceptor_ended (mt_fan s) \<Longrightarrow>
    mt_step p n env (EvSlave res) s (mt_acceptor p n env res s)"
| mt_writer: "mt_running s \<Longrightarrow> writer_enabled (mt_nonces s) k (mt_fan s) \<Longrightarrow>
    mt_step p n env (EvWriter k) s (mt_writer env k s)"
| mt_control: "mt_main s = Serving i \<Longrightarrow> mt_control s = Some c \<Longrightarrow> control_enabled c (mt_fan s) \<Longrightarrow>
    mt_step p n env (EvControl t fill) s (mt_control_turn env t fill i c s)"
| mt_accept: "mt_main s = Accepting \<Longrightarrow> mt_step p n env (EvAccept tu) s (mt_accept p n env tu s)"
| mt_magic: "mt_main s = SendingMagic i \<Longrightarrow> mt_step p n env (EvMagic tu) s (mt_magic env tu i s)"
| mt_join_control: "mt_main s = Serving i \<Longrightarrow> mt_control s = Some c \<Longrightarrow> co_pc c = ControlDone \<Longrightarrow>
    mt_step p n env EvJoinControl s (mt_join_control s)"
| mt_join_cancel: "mt_main s = JoiningCancel \<Longrightarrow> mt_cancelled s \<Longrightarrow>
    mt_step p n env EvJoinCancel s (mt_join_cancel s)"
| mt_join_reader: "mt_main s = JoiningReader \<Longrightarrow> \<not> mt_reading s \<Longrightarrow>
    mt_step p n env EvJoinReader s (mt_join_reader s)"

abbreviation mt_run ::
  "(string \<Rightarrow> 'e + 'n) \<Rightarrow> ('n \<Rightarrow> ip_addr \<Rightarrow> bool) \<Rightarrow> ('c, 'rcvr) mt_env \<Rightarrow> mt_event list \<Rightarrow>
   ('c, 'rcvr) multi_threads \<Rightarrow> ('c, 'rcvr) multi_threads \<Rightarrow> bool" where
  "mt_run p n env \<equiv> runs (mt_step p n env)"

inductive_cases mt_step_elims: "mt_step p n env ev s s'"

section \<open>The invariant\<close>

text \<open>
  The device has only been asked for what is in range, its AGC setting is the recorded one,
  and it is told to stop exactly once, by the cancel thread.
\<close>

definition mt_device_ok :: "('c, 'rcvr) multi_threads \<Rightarrow> bool" where
  "mt_device_ok s \<longleftrightarrow>
     list_all call_in_range (m_data (mt_ctl s)) \<and> \<not> m_poisoned (mt_ctl s) \<and>
     enabled (mt_agc s) = (case last_agc (m_data (mt_ctl s)) of Some b \<Rightarrow> b | None \<Rightarrow> True) \<and>
     length (filter (\<lambda>c. c = CancelAsyncRead) (m_data (mt_ctl s))) = (if mt_cancelled s then 1 else 0)"

text \<open>
  A stop request is never lost: the exit flag, and the main thread on its way out, come
  with a request that is waiting or was carried out; the main thread returns without an
  error only after the cancel thread and the reader thread have ended.
\<close>

definition mt_stop_ok :: "('c, 'rcvr) multi_threads \<Rightarrow> bool" where
  "mt_stop_ok s \<longleftrightarrow>
     (mt_exit s \<or> mt_main s \<in> {JoiningCancel, JoiningReader} \<longrightarrow> mt_slot s \<or> mt_cancelled s) \<and>
     (mt_cancelled s \<longrightarrow> mt_exit s) \<and>
     (mt_main s \<in> {JoiningReader, MainReturned (Inr ())} \<longrightarrow> mt_cancelled s) \<and>
     (mt_main s = MainReturned (Inr ()) \<longrightarrow> \<not> mt_reading s)"

text \<open>
  There is a control thread exactly while the main thread waits for it; the master being
  served has a socket that no slave's writer uses; a handshake, a waiting writer and a held
  lock exist only with a key, the latter with nonces stored; with a key no master's writer
  sends in clear.
\<close>

definition mt_threads_ok :: "('c, 'rcvr) mt_env \<Rightarrow> ('c, 'rcvr) multi_threads \<Rightarrow> bool" where
  "mt_threads_ok env s \<longleftrightarrow>
     (mt_control s \<noteq> None \<longleftrightarrow> (\<exists>i. mt_main s = Serving i)) \<and>
     (\<forall>i. mt_main s = Serving i \<or> mt_main s = SendingMagic i \<longrightarrow>
        i < length (conns (mt_fan s)) \<and>
        (\<forall>w \<in> set (writers (mt_fan s)). w_slave w \<longrightarrow> w_conn w \<noteq> i)) \<and>
     (\<forall>c. mt_control s = Some c \<longrightarrow> pc_ok (mt_master env) (co_pc c)) \<and>
     (nonce_owner (mt_fan s) \<noteq> None \<longrightarrow> mt_nonces s \<noteq> None) \<and>
     (\<forall>w \<in> set (writers (mt_fan s)).
        if env_key (mt_master env) = None then w_pc w \<noteq> Running AwaitingNonces \<and> \<not> encrypting w
        else \<not> w_slave w \<longrightarrow> w_pc w \<noteq> Running PlainWriter)"

definition mt_inv :: "('c, 'rcvr) mt_env \<Rightarrow> ('c, 'rcvr) multi_threads \<Rightarrow> bool" where
  "mt_inv env s \<longleftrightarrow>
     fanout_wf (mt_fan s) \<and> mt_device_ok s \<and> mt_stop_ok s \<and> mt_threads_ok env s"

subsection \<open>The device\<close>

lemma device_ok_updates [simp]:
  "mt_device_ok (s\<lparr>mt_main := x\<rparr>) = mt_device_ok s"
  "mt_device_ok (s\<lparr>mt_control := c\<rparr>) = mt_device_ok s"
  "mt_device_ok (s\<lparr>mt_fan := f\<rparr>) = mt_device_ok s"
  "mt_device_ok (s\<lparr>mt_slot := b\<rparr>) = mt_device_ok s"
  "mt_device_ok (s\<lparr>mt_exit := b\<rparr>) = mt_device_ok s"
  "mt_device_ok (s\<lparr>mt_reading := b\<rparr>) = mt_device_ok s"
  "mt_device_ok (set_conn i st s) = mt_device_ok s"
  "mt_device_ok (mt_try_send s) = mt_device_ok s"
  "mt_device_ok (mt_stop s) = mt_device_ok s"
  "mt_device_ok (mt_return r s) = mt_device_ok s"
  by (simp_all add: mt_device_ok_def set_conn_def mt_try_send_def mt_stop_def mt_return_def)

lemma mt_open_device [simp]: "mt_device_ok (mt_open env tu conn s) = mt_device_ok s"
  by (simp add: mt_open_def Let_def split: prod.splits sum.splits)

lemma mt_device_control:
  assumes "mt_device_ok s"
  shows "mt_device_ok (mt_control_turn env t fill i c s)"
proof (cases "control_step (mt_master env) \<lparr>should_exit = mt_exit s, now = t, draw = fill\<rparr> (co_pc c)
    (mt_load i (co_state c) s)")
  case None
  with assms show ?thesis by (simp add: mt_control_turn_def)
next
  case (Some r)
  then obtain pc m where st: "control_step (mt_master env) \<lparr>should_exit = mt_exit s, now = t, draw = fill\<rparr>
      (co_pc c) (mt_load i (co_state c) s) = Some (pc, m)" by (cases r) auto
  have "device_safe (mt_load i (co_state c) s)" "agc_tracks (mt_load i (co_state c) s)"
    using assms by (simp_all add: mt_device_ok_def mt_load_def device_safe_def agc_tracks_def)
  with control_step_keeps [OF st] have "device_safe m" "agc_tracks m"
    "m_poisoned (ctl m) = m_poisoned (mt_ctl s)"
    "cancel_calls m = cancel_calls (mt_load i (co_state c) s)"
    by (simp_all add: mt_load_def)
  with assms st show ?thesis
    by (simp add: mt_control_turn_def mt_store_def set_conn_def mt_device_ok_def device_safe_def
        agc_tracks_def cancel_calls_def mt_load_def)
qed

lemma mt_step_device:
  assumes "mt_step p n env ev s s'" and "mt_device_ok s"
  shows "mt_device_ok s'"
  using assms
proof (induction rule: mt_step.induct)
  case (mt_cancel s)
  then show ?case
    by (auto simp: mt_cancel_def mt_device_ok_def cancel_device_def last_agc_append)
qed (auto simp: mt_signal_def mt_batch_def mt_read_end_def mt_acceptor_def mt_writer_def
    mt_device_control mt_accept_def mt_magic_def mt_join_control_def mt_join_cancel_def
    mt_join_reader_def Let_def split: sum.splits prod.splits)

subsection \<open>Stop requests\<close>

lemma mt_step_stop:
  assumes "mt_step p n env ev s s'" and "mt_stop_ok s"
  shows "mt_stop_ok s'"
  using assms
proof (induction rule: mt_step.induct)
  case (mt_control s i c t fill)
  then show ?case
    by (auto simp: mt_control_turn_def mt_store_def set_conn_def mt_stop_ok_def split: option.splits)
next
  case (mt_accept s tu)
  then show ?case
    by (auto simp: mt_accept_def mt_open_def mt_stop_def mt_try_send_def mt_return_def mt_stop_ok_def
        Let_def split: sum.splits prod.splits option.splits)
next
  case (mt_magic s i tu)
  then show ?case
    by (auto simp: mt_magic_def mt_return_def set_conn_def mt_stop_ok_def Let_def
        split: sum.splits prod.splits)
next
  case (mt_join_control s i c)
  then show ?case
    by (auto simp: mt_join_control_def mt_stop_def mt_try_send_def mt_stop_ok_def Let_def)
qed (auto simp: mt_signal_def mt_try_send_def mt_cancel_def mt_batch_def mt_read_end_def mt_acceptor_def
    mt_writer_def mt_join_cancel_def mt_join_reader_def mt_stop_ok_def mt_running_def)

subsection \<open>Sockets, writers and the lock\<close>

lemma fan_updates [simp]:
  "mt_fan (mt_try_send s) = mt_fan s" "mt_fan (mt_stop s) = mt_fan s" "mt_fan (mt_return r s) = mt_fan s"
  "mt_fan (set_conn i st s) = (mt_fan s)\<lparr>conns := (conns (mt_fan s))[i := st]\<rparr>"
  by (simp_all add: mt_try_send_def mt_stop_def mt_return_def set_conn_def)

lemma wf_shutdown_listed: "fanout_wf f \<Longrightarrow> fanout_wf (shutdown_listed f)"
proof -
  have "length (fold (\<lambda>i cs. cs[i := shutdown_both (cs ! i)]) is cs) = length cs" for "is" cs
    by (induction "is" arbitrary: cs) auto
  then show "fanout_wf f \<Longrightarrow> fanout_wf (shutdown_listed f)"
    by (simp add: fanout_wf_def shutdown_listed_def)
qed

text \<open>What accepting a master comes to for the clients' side.\<close>

lemma mt_open_cases:
  obtains (out) r where "mt_open env tu conn s = s\<lparr>mt_main := r\<rparr>" "r = MainPanicked \<or> (\<exists>e. r = MainReturned (Inl e))"
  | (listed_only) e st where "mt_open env tu conn s =
      s\<lparr>mt_fan := (mt_fan s)\<lparr>listed := (listed (mt_fan s))\<lparr>m_data := m_data (listed (mt_fan s)) @
          [length (conns (mt_fan s))]\<rparr>, conns := conns (mt_fan s) @ [st]\<rparr>,
        mt_main := MainReturned (Inl e)\<rparr>"
  | (opened) st where "mt_open env tu conn s =
      s\<lparr>mt_fan := spawn_writer (mt_fanout env) (length (conns (mt_fan s))) False
          (case env_key (mt_master env) of None \<Rightarrow> PlainWriter | Some k \<Rightarrow> AwaitingNonces)
          ((mt_fan s)\<lparr>listed := (listed (mt_fan s))\<lparr>m_data := m_data (listed (mt_fan s)) @
             [length (conns (mt_fan s))]\<rparr>, conns := conns (mt_fan s) @ [st]\<rparr>),
        mt_main := SendingMagic (length (conns (mt_fan s)))\<rparr>"
      "rx st = rx conn" "tx st = tx conn" "tx_script st = tx_script conn"
proof -
  obtain r1 c1 where r1: "set_read_timeout (1000 * unat (arg_read_timeout (mt_args env))) conn = (r1, c1)"
    by fastforce
  obtain r2 c2 where r2: "set_write_timeout (1000 * unat (arg_write_timeout (mt_args env))) c1 = (r2, c2)"
    by fastforce
  from r1 r2 have same: "rx c2 = rx conn" "tx c2 = tx conn" "tx_script c2 = tx_script conn"
    by (auto simp: set_read_timeout_def set_write_timeout_def split: if_splits)
  show ?thesis
  proof (cases "(\<exists>e. r1 = Inl e) \<or> (\<exists>e. r2 = Inl e) \<or> m_poisoned (listed (mt_fan s)) \<or>
      (\<exists>e. tu_clone_list tu = Inl e)")
    case True
    with r1 r2 have "\<exists>r. mt_open env tu conn s = s\<lparr>mt_main := r\<rparr> \<and>
        (r = MainPanicked \<or> (\<exists>e. r = MainReturned (Inl e)))"
      by (auto simp: mt_open_def Let_def mt_return_def split: sum.splits)
    with out show ?thesis by blast
  next
    case False
    then have ok: "r1 = Inr ()" "r2 = Inr ()" "\<not> m_poisoned (listed (mt_fan s))" "tu_clone_list tu = Inr ()"
      by (cases r1; cases r2; cases "tu_clone_list tu"; auto)+
    show ?thesis
    proof (cases "tu_clone_writer tu")
      case (Inl e)
      with ok r1 r2 listed_only [of "Io e" c2] show ?thesis
        by (simp add: mt_open_def Let_def mt_return_def)
    next
      case (Inr u)
      with ok r1 r2 opened [of c2] same show ?thesis
        by (simp add: mt_open_def Let_def)
    qed
  qed
qed

lemma wf_open:
  assumes "fanout_wf (mt_fan s)"
  shows "fanout_wf (mt_fan (mt_open env tu conn s))"
proof (cases rule: mt_open_cases [of env tu conn s])
  case (out r)
  with assms show ?thesis by simp
next
  case (listed_only e st)
  with wf_new_listed [OF assms, of st] show ?thesis by simp
next
  case (opened st)
  from wf_new_listed [OF assms, of st] wf_fresh [OF assms] opened(1) show ?thesis
    by (auto intro!: wf_spawn split: option.splits)
qed

lemma mt_step_wf:
  assumes "mt_step p n env ev s s'" and "fanout_wf (mt_fan s)"
  shows "fanout_wf (mt_fan s')"
  using assms
proof (induction rule: mt_step.induct)
  case (mt_control s i c t fill)
  then show ?case
    by (auto simp: mt_control_turn_def mt_store_def wf_set_conn split: option.splits)
next
  case (mt_accept s tu)
  then show ?case by (auto simp: mt_accept_def wf_open split: sum.splits prod.splits)
next
  case (mt_magic s i tu)
  then show ?case by (auto simp: mt_magic_def Let_def wf_set_conn split: sum.splits prod.splits)
next
  case (mt_writer s k)
  then show ?case by (simp add: mt_writer_def wf_writer_turn writer_enabled_def)
qed (simp_all add: mt_signal_def mt_cancel_def mt_batch_def wf_broadcast mt_read_end_def mt_acceptor_def
    wf_acceptor_turn mt_join_control_def Let_def mt_join_cancel_def mt_join_reader_def wf_shutdown_listed)

subsection \<open>Threads\<close>

lemma threads_ok_same:
  assumes "mt_threads_ok env s" and "mt_main s' = mt_main s" and "mt_control s' = mt_control s"
    and "mt_nonces s \<noteq> None \<Longrightarrow> mt_nonces s' \<noteq> None"
    and "length (conns (mt_fan s)) \<le> length (conns (mt_fan s'))"
    and "nonce_owner (mt_fan s') \<noteq> None \<Longrightarrow> nonce_owner (mt_fan s) \<noteq> None \<or> mt_nonces s' \<noteq> None"
    and "\<And>w. w \<in> set (writers (mt_fan s')) \<Longrightarrow>
      (\<exists>v \<in> set (writers (mt_fan s)). w_conn w = w_conn v \<and> w_slave w = w_slave v \<and>
        (w_pc w = w_pc v \<or> (\<exists>e. w_pc w = Ended e) \<or>
         encrypting w \<and> (encrypting v \<or> w_pc v = Running AwaitingNonces))) \<or>
      w_slave w \<and> w_pc w = Running PlainWriter \<and> length (conns (mt_fan s)) \<le> w_conn w"
  shows "mt_threads_ok env s'"
proof -
  have w: "(if env_key (mt_master env) = None then w_pc w \<noteq> Running AwaitingNonces \<and> \<not> encrypting w
        else \<not> w_slave w \<longrightarrow> w_pc w \<noteq> Running PlainWriter) \<and>
      (w_slave w \<longrightarrow> (\<forall>i. mt_main s = Serving i \<or> mt_main s = SendingMagic i \<longrightarrow> w_conn w \<noteq> i))"
    if w: "w \<in> set (writers (mt_fan s'))" for w
    using assms(7) [OF w]
  proof
    assume "\<exists>v \<in> set (writers (mt_fan s)). w_conn w = w_conn v \<and> w_slave w = w_slave v \<and>
        (w_pc w = w_pc v \<or> (\<exists>e. w_pc w = Ended e) \<or>
         encrypting w \<and> (encrypting v \<or> w_pc v = Running AwaitingNonces))"
    then obtain v where v: "v \<in> set (writers (mt_fan s))" "w_conn w = w_conn v" "w_slave w = w_slave v"
      "w_pc w = w_pc v \<or> (\<exists>e. w_pc w = Ended e) \<or>
         encrypting w \<and> (encrypting v \<or> w_pc v = Running AwaitingNonces)" by blast
    from assms(1) v(1) have "(if env_key (mt_master env) = None
        then w_pc v \<noteq> Running AwaitingNonces \<and> \<not> encrypting v
        else \<not> w_slave v \<longrightarrow> w_pc v \<noteq> Running PlainWriter) \<and>
      (w_slave v \<longrightarrow> (\<forall>i. mt_main s = Serving i \<or> mt_main s = SendingMagic i \<longrightarrow> w_conn v \<noteq> i))"
      by (auto simp: mt_threads_ok_def)
    with v(2,3,4) show ?thesis by (auto simp: encrypting_def split: if_splits)
  next
    assume "w_slave w \<and> w_pc w = Running PlainWriter \<and> length (conns (mt_fan s)) \<le> w_conn w"
    moreover have "i < length (conns (mt_fan s))" if "mt_main s = Serving i \<or> mt_main s = SendingMagic i" for i
      using assms(1) that by (auto simp: mt_threads_ok_def)
    ultimately show ?thesis by (fastforce simp: encrypting_def)
  qed
  have "mt_control s' \<noteq> None \<longleftrightarrow> (\<exists>i. mt_main s' = Serving i)"
    "\<forall>c. mt_control s' = Some c \<longrightarrow> pc_ok (mt_master env) (co_pc c)"
    using assms(1-3) by (auto simp: mt_threads_ok_def)
  moreover have "nonce_owner (mt_fan s') \<noteq> None \<longrightarrow> mt_nonces s' \<noteq> None"
    using assms(1,4,6) unfolding mt_threads_ok_def by blast
  moreover have "i < length (conns (mt_fan s')) \<and>
      (\<forall>w \<in> set (writers (mt_fan s')). w_slave w \<longrightarrow> w_conn w \<noteq> i)"
    if i: "mt_main s' = Serving i \<or> mt_main s' = SendingMagic i" for i
  proof -
    from i assms(1,2) have "i < length (conns (mt_fan s))" by (auto simp: mt_threads_ok_def)
    with assms(5) have "i < length (conns (mt_fan s'))" by simp
    moreover have "w_conn v \<noteq> i" if "v \<in> set (writers (mt_fan s'))" "w_slave v" for v
      using w [OF that(1)] that(2) i assms(2) by auto
    ultimately show ?thesis by blast
  qed
  ultimately show ?thesis using w unfolding mt_threads_ok_def by blast
qed

lemma control_step_nonces:
  assumes "control_step env r pc s = Some (pc', s')" and "encryption_nonces s \<noteq> None"
  shows "encryption_nonces s' \<noteq> None"
proof (cases pc)
  case Ready
  obtain fl cmd s1 where b: "master_begin env r s = (fl, cmd, s1)" by (cases "master_begin env r s")
  with Ready assms(1) have "encryption_nonces s' = encryption_nonces s1"
    by (auto simp: control_step_def round_step_def dispatch_step_eq
        split: flow.splits option.splits if_splits)
  with master_begin_frame(3) [OF b] assms(2) show ?thesis by simp
next
  case Exchanging
  with assms show ?thesis
    by (auto simp: control_step_def exchange_step_def split: option.splits sum.splits prod.splits)
qed (use assms in \<open>auto simp: control_step_def store_step_def split: option.splits\<close>)

lemma mt_threads_control:
  assumes "mt_threads_ok env s" and "mt_main s = Serving i"
  shows "mt_threads_ok env (mt_control_turn env t fill i c s)"
proof (cases "control_step (mt_master env) \<lparr>should_exit = mt_exit s, now = t, draw = fill\<rparr> (co_pc c)
    (mt_load i (co_state c) s)")
  case None
  with assms show ?thesis by (simp add: mt_control_turn_def)
next
  case (Some r)
  then obtain pc m where st: "control_step (mt_master env) \<lparr>should_exit = mt_exit s, now = t, draw = fill\<rparr>
      (co_pc c) (mt_load i (co_state c) s) = Some (pc, m)" by (cases r) auto
  have "mt_nonces s \<noteq> None \<Longrightarrow> encryption_nonces m \<noteq> None"
    using control_step_nonces [OF st] by (simp add: mt_load_def)
  with assms st control_step_pc_ok [OF st] show ?thesis
    by (auto simp: mt_control_turn_def mt_store_def set_conn_def mt_threads_ok_def simp del: not_None_eq)
qed

lemma mt_threads_open:
  assumes "mt_threads_ok env s" and "mt_main s = Accepting" and "fanout_wf (mt_fan s)"
  shows "mt_threads_ok env (mt_open env tu conn s)"
proof (cases rule: mt_open_cases [of env tu conn s])
  case (out r)
  with assms show ?thesis by (auto simp: mt_threads_ok_def)
next
  case (listed_only e st)
  with assms show ?thesis by (auto simp: mt_threads_ok_def simp del: not_None_eq)
next
  case (opened st)
  have "w_conn w \<noteq> length (conns (mt_fan s))" if "w \<in> set (writers (mt_fan s))" for w
    using wf_fresh [OF assms(3)] that by (metis imageI)
  with assms(1,2) show ?thesis
    unfolding opened(1) mt_threads_ok_def
    by (auto simp: spawn_writer_def encrypting_def simp del: not_None_eq split: option.splits)
qed

lemma mt_step_threads:
  assumes "mt_step p n env ev s s'" and "fanout_wf (mt_fan s)" and "mt_threads_ok env s"
  shows "mt_threads_ok env s'"
  using assms
proof (induction rule: mt_step.induct)
  case (mt_signal s)
  then show ?case by (simp add: mt_signal_def mt_try_send_def mt_threads_ok_def)
next
  case (mt_cancel s)
  then show ?case by (simp add: mt_cancel_def mt_threads_ok_def)
next
  case (mt_batch s bs)
  then show ?case by (simp add: mt_batch_def mt_threads_ok_def broadcast_buffer_def)
next
  case (mt_read_end s)
  then show ?case by (simp add: mt_read_end_def mt_threads_ok_def)
next
  case (mt_acceptor s res)
  show ?case
  proof (rule threads_ok_same [OF mt_acceptor(4)])
    fix w assume "w \<in> set (writers (mt_fan (mt_acceptor p n env res s)))"
    then have "w \<in> set (writers (mt_fan s)) \<or>
        w_slave w \<and> w_pc w = Running PlainWriter \<and> w_conn w = length (conns (mt_fan s))"
      using acceptor_turn_set by (simp add: mt_acceptor_def) blast
    then show "(\<exists>v \<in> set (writers (mt_fan s)). w_conn w = w_conn v \<and> w_slave w = w_slave v \<and>
        (w_pc w = w_pc v \<or> (\<exists>e. w_pc w = Ended e) \<or>
         encrypting w \<and> (encrypting v \<or> w_pc v = Running AwaitingNonces))) \<or>
      w_slave w \<and> w_pc w = Running PlainWriter \<and> length (conns (mt_fan s)) \<le> w_conn w" by force
  qed (simp_all add: mt_acceptor_def)
next
  case (mt_writer s k)
  show ?case
  proof (rule threads_ok_same [OF mt_writer(4)])
    show "nonce_owner (mt_fan s) \<noteq> None \<or> mt_nonces (mt_writer env k s) \<noteq> None"
      if "nonce_owner (mt_fan (mt_writer env k s)) \<noteq> None"
      using that writer_turn_owner by (simp add: mt_writer_def del: not_None_eq) blast
    show "(\<exists>v \<in> set (writers (mt_fan s)). w_conn w = w_conn v \<and> w_slave w = w_slave v \<and>
        (w_pc w = w_pc v \<or> (\<exists>e. w_pc w = Ended e) \<or>
         encrypting w \<and> (encrypting v \<or> w_pc v = Running AwaitingNonces))) \<or>
      w_slave w \<and> w_pc w = Running PlainWriter \<and> length (conns (mt_fan s)) \<le> w_conn w"
      if "w \<in> set (writers (mt_fan (mt_writer env k s)))" for w
      using that writer_turn_set mt_writer(2) by (simp add: mt_writer_def writer_enabled_def) blast
  qed (simp_all add: mt_writer_def)
next
  case (mt_control s i c t fill)
  then show ?case by (simp add: mt_threads_control)
next
  case (mt_accept s tu)
  have "mt_threads_ok env (mt_return r s)" "mt_threads_ok env (mt_stop s)" for r
    using mt_accept(1,3) by (simp_all add: mt_return_def mt_stop_def mt_try_send_def mt_threads_ok_def)
  with mt_accept mt_threads_open show ?case
    by (auto simp: mt_accept_def split: sum.splits prod.splits)
next
  case (mt_magic s i tu)
  then show ?case
    by (auto simp: mt_magic_def mt_threads_ok_def mt_return_def set_conn_def pc_ok_def Let_def
        simp del: not_None_eq split: sum.splits prod.splits)
next
  case (mt_join_control s i c)
  then show ?case
    by (auto simp: mt_join_control_def mt_stop_def mt_try_send_def mt_threads_ok_def Let_def
        simp del: not_None_eq)
next
  case (mt_join_cancel s)
  then show ?case by (auto simp: mt_join_cancel_def mt_threads_ok_def)
next
  case (mt_join_reader s)
  then show ?case
    by (auto simp: mt_join_reader_def shutdown_listed_def mt_threads_ok_def simp del: not_None_eq)
qed

lemma mt_step_inv: "mt_step p n env ev s s' \<Longrightarrow> mt_inv env s \<Longrightarrow> mt_inv env s'"
  by (auto simp: mt_inv_def intro: mt_step_wf mt_step_device mt_step_stop mt_step_threads)

interpretation mt: step_system "mt_step p n env" "mt_inv env" for p n env
  by unfold_locales (rule mt_step_inv)

end
