(* ===== verification/Multi_Liveness.thy ===== *)
theory Multi_Liveness
  imports Multi_Threads
begin

text \<open>
  What the interleavings of multi-client mode (\<open>Multi_Threads\<close>) come to: the server never
  gets stuck and ends after a stop request, slaves receive the samples, and a handshake has
  to wait for the writer that holds the nonces.
\<close>

section \<open>Shutting down\<close>

text \<open>The steps of the program's own threads, as opposed to signals and samples.\<close>

definition own_step :: "mt_event \<Rightarrow> bool" where
  "own_step ev \<longleftrightarrow> (case ev of EvSignal \<Rightarrow> False | EvBatch bs \<Rightarrow> False | _ \<Rightarrow> True)"

text \<open>How many of them are left at most once the exit flag is set.\<close>

definition main_weight :: "('c, 'rcvr) multi_threads \<Rightarrow> nat" where
  "main_weight s =
     (case mt_main s of
        Accepting \<Rightarrow> 3
      | SendingMagic i \<Rightarrow> 6 + script_size (rx (conns (mt_fan s) ! i))
      | Serving i \<Rightarrow> 3 + script_size (rx (conns (mt_fan s) ! i)) +
          (case mt_control s of None \<Rightarrow> 0 | Some c \<Rightarrow> pc_weight (co_pc c))
      | JoiningCancel \<Rightarrow> 2
      | JoiningReader \<Rightarrow> 1
      | _ \<Rightarrow> 0)"

definition mt_remaining :: "('c, 'rcvr) multi_threads \<Rightarrow> nat" where
  "mt_remaining s =
     main_weight s + fan_weight (mt_fan s) + (if mt_cancelled s then 0 else 1) +
     (if mt_reading s then 1 else 0)"

lemma main_weight_cong:
  assumes "mt_main s' = mt_main s" and "mt_control s' = mt_control s"
    and "\<And>i. rx (conns (mt_fan s') ! i) = rx (conns (mt_fan s) ! i)"
  shows "main_weight s' = main_weight s"
  using assms by (simp add: main_weight_def split: main_pc.splits)

lemma send_magic_rx:
  assumes "send_magic cap magic st = (r, st')"
  shows "rx st' = rx st"
proof -
  have fl: "rx s' = rx s" if "flush_buf p s = (r, p', s')" for p s r p' s'
    using flush_buf_conserves(3) [OF that] .
  have "rx (buf_drop p s) = rx s" for p s
    by (cases "flush_buf p s") (simp add: buf_drop_def fl)
  moreover have "rx s' = rx s" if "buf_write_all cap magic [] s = (r, p', s')" for s r p' s'
    using that by (auto simp: buf_write_all_def dest: fl split: if_splits prod.splits sum.splits)
      (metis snd_conv tcp_write_all_rx fl)+
  ultimately show ?thesis
    using assms fl by (fastforce simp: send_magic_def split: prod.splits sum.splits)
qed

lemma mt_control_exit_weight:
  assumes "mt_exit s" and "mt_main s = Serving i" and "mt_control s = Some c"
    and "i < length (conns (mt_fan s))" and "pc_ok (mt_master env) (co_pc c)" and "co_pc c \<noteq> ControlDone"
  shows "mt_remaining (mt_control_turn env t fill i c s) < mt_remaining s"
proof -
  obtain pc m where st: "control_step (mt_master env) \<lparr>should_exit = mt_exit s, now = t, draw = fill\<rparr>
      (co_pc c) (mt_load i (co_state c) s) = Some (pc, m)"
    using control_step_enabled [OF assms(5,6)] by blast
  have "pc_weight pc + script_size (rx (stream m)) <
      pc_weight (co_pc c) + script_size (rx (conns (mt_fan s) ! i))"
    using control_step_exit_progress [OF st] assms(1) by (simp add: mt_load_def)
  with st assms show ?thesis
    by (simp add: mt_control_turn_def mt_store_def set_conn_def mt_remaining_def main_weight_def)
qed

lemma mt_exit_stays: "mt_step p n env ev s s' \<Longrightarrow> mt_exit s \<Longrightarrow> mt_exit s'"
proof (induction rule: mt_step.induct)
  case (mt_control s i c t fill)
  then show ?case
    by (auto simp: mt_control_turn_def mt_store_def set_conn_def split: option.splits)
next
  case (mt_magic s i tu)
  then show ?case
    by (auto simp: mt_magic_def mt_return_def set_conn_def Let_def split: sum.splits prod.splits)
qed (auto simp: mt_signal_def mt_cancel_def mt_batch_def mt_read_end_def mt_acceptor_def mt_writer_def
    mt_accept_def mt_join_control_def mt_join_cancel_def mt_join_reader_def mt_stop_def mt_try_send_def
    Let_def)

lemma mt_step_decreases:
  assumes "mt_step p n env ev s s'" and "mt_exit s" and "mt_inv env s" and "own_step ev"
  shows "mt_remaining s' < mt_remaining s"
  using assms
proof (induction rule: mt_step.induct)
  case (mt_acceptor s res)
  then have "acceptor_turn p n (multi_acceptor_env (mt_args env)) (mt_fanout env) True res (mt_fan s) =
      (mt_fan s)\<lparr>acceptor_ended := True\<rparr>"
    by (cases rule: acceptor_turn_cases [of p n "multi_acceptor_env (mt_args env)" "mt_fanout env" True
          res "mt_fan s"]) auto
  with mt_acceptor main_weight_cong [of "mt_acceptor p n env res s" s] show ?case
    by (simp add: mt_acceptor_def mt_remaining_def fan_weight_def)
next
  case (mt_writer s k)
  have "env_key (mt_master env) \<noteq> None \<or> w_pc (writers (mt_fan s) ! k) \<noteq> Running AwaitingNonces"
    using mt_writer(2,4) nth_mem [of k "writers (mt_fan s)"]
    by (fastforce simp: mt_inv_def mt_threads_ok_def writer_enabled_def split: if_splits)
  from writer_turn_weight [OF mt_writer(2) this, of "mt_fanout env" "env_cipher_new (mt_master env)"]
    mt_writer(3) main_weight_cong [of "mt_writer env k s" s]
  show ?case by (simp add: mt_writer_def mt_remaining_def writer_turn_conns)
next
  case (mt_control s i c t fill)
  then have "i < length (conns (mt_fan s))" "pc_ok (mt_master env) (co_pc c)"
    by (auto simp: mt_inv_def mt_threads_ok_def)
  moreover have "co_pc c \<noteq> ControlDone" using mt_control(3) by (auto simp: control_enabled_def)
  ultimately show ?case using mt_control mt_control_exit_weight by blast
next
  case (mt_accept s tu)
  then show ?case
    by (simp add: mt_accept_def mt_stop_def mt_try_send_def mt_remaining_def main_weight_def)
next
  case (mt_magic s i tu)
  then have "i < length (conns (mt_fan s))" by (auto simp: mt_inv_def mt_threads_ok_def)
  with mt_magic send_magic_rx show ?case
    by (auto simp: mt_magic_def mt_return_def set_conn_def mt_remaining_def main_weight_def master_start_def
        set_read_timeout_def Let_def split: sum.splits prod.splits)
next
  case (mt_join_control s i c)
  then show ?case
    by (simp add: mt_join_control_def mt_stop_def mt_try_send_def mt_remaining_def main_weight_def Let_def)
next
  case (mt_cancel s)
  with main_weight_cong [of "mt_cancel s" s] show ?case
    by (simp add: mt_cancel_def mt_remaining_def)
next
  case (mt_read_end s)
  with main_weight_cong [of "mt_read_end s" s] show ?case
    by (simp add: mt_read_end_def mt_remaining_def)
qed (simp_all add: own_step_def mt_join_cancel_def mt_join_reader_def mt_remaining_def main_weight_def)

text \<open>Nobody waits for something that cannot come.\<close>

lemma mt_progress:
  assumes "mt_inv env s" and "mt_running s"
  shows "\<exists>ev s'. own_step ev \<and> mt_step p n env ev s s'"
proof -
  have own: "own_step EvCancel" "own_step EvReadEnd" "own_step (EvWriter k)" "own_step (EvControl t fill)"
    "own_step (EvAccept tu)" "own_step (EvMagic tu)" "own_step EvJoinControl" "own_step EvJoinCancel"
    "own_step EvJoinReader" for k t tu
    by (simp_all add: own_step_def)
  show ?thesis
  proof (cases "mt_main s")
    case Accepting
    from mt_step.mt_accept [OF Accepting] own(5) show ?thesis by blast
  next
    case (SendingMagic i)
    from mt_step.mt_magic [OF SendingMagic] own(6) show ?thesis by blast
  next
    case (Serving i)
    with assms(1) obtain c where c: "mt_control s = Some c"
      by (auto simp: mt_inv_def mt_threads_ok_def)
    consider "co_pc c = ControlDone" | "control_enabled c (mt_fan s)"
      | "co_pc c \<noteq> ControlDone" "\<not> control_enabled c (mt_fan s)" by blast
    then show ?thesis
    proof cases
      case 1
      from mt_step.mt_join_control [OF Serving c 1] own(7) show ?thesis by blast
    next
      case 2
      from mt_step.mt_control [OF Serving c 2] own(4) show ?thesis by blast
    next
      case 3
      then obtain k where k: "nonce_owner (mt_fan s) = Some k"
        by (auto simp: control_enabled_def split: control_pc.splits)
      with assms(1) wf_owner [of "mt_fan s" k]
      have "k < length (writers (mt_fan s))" "encrypting (writers (mt_fan s) ! k)"
        by (simp_all add: mt_inv_def)
      then have "writer_enabled (mt_nonces s) k (mt_fan s)"
        by (auto simp: writer_enabled_def encrypting_def split: writer_pc.splits writer_start.splits)
      from mt_step.mt_writer [OF assms(2) this] own(3) show ?thesis by blast
    qed
  next
    case JoiningCancel
    with assms have "mt_slot s \<or> mt_cancelled s" by (auto simp: mt_inv_def mt_stop_ok_def)
    then show ?thesis
    proof (cases "mt_cancelled s")
      case True
      from mt_step.mt_join_cancel [OF JoiningCancel True] own(8) show ?thesis by blast
    next
      case False
      with \<open>mt_slot s \<or> mt_cancelled s\<close> have "mt_slot s" by simp
      from mt_step.mt_cancel [OF assms(2) this False] own(1) show ?thesis by blast
    qed
  next
    case JoiningReader
    show ?thesis
    proof (cases "mt_reading s")
      case True
      from mt_step.mt_read_end [OF assms(2) True] own(2) show ?thesis by blast
    next
      case False
      from mt_step.mt_join_reader [OF JoiningReader False] own(9) show ?thesis by blast
    qed
  qed (use assms(2) in \<open>auto simp: mt_running_def\<close>)
qed

interpretation mt_shutdown: stopping_system "mt_step p n env" "mt_inv env" own_step mt_exit mt_running mt_remaining
  for p n env
  by unfold_locales (blast intro: mt_exit_stays mt_step_decreases mt_progress)+

section \<open>A handshake behind a writer\<close>

text \<open>
  The writers in the list stay there, on their sockets, as what they are; only their own
  steps move them.
\<close>

lemma writers_stay:
  assumes "mt_step p n env ev s s'" and "k < length (writers (mt_fan s))"
  shows "k < length (writers (mt_fan s')) \<and>
    w_conn (writers (mt_fan s') ! k) = w_conn (writers (mt_fan s) ! k) \<and>
    w_slave (writers (mt_fan s') ! k) = w_slave (writers (mt_fan s) ! k) \<and>
    (ev \<noteq> EvWriter k \<longrightarrow> w_pc (writers (mt_fan s') ! k) = w_pc (writers (mt_fan s) ! k))"
  using assms
proof (induction rule: mt_step.induct)
  case (mt_writer s j)
  then show ?case by (simp add: mt_writer_def)
next
  case (mt_acceptor s res)
  then show ?case
    by (cases rule: acceptor_turn_cases [of p n "multi_acceptor_env (mt_args env)" "mt_fanout env"
          "mt_exit s" res "mt_fan s"]) (simp_all add: mt_acceptor_def)
next
  case (mt_control s i c t fill)
  then show ?case by (simp add: mt_control_turn_def mt_store_def split: option.splits prod.splits)
next
  case (mt_accept s tu)
  have "k < length (writers (mt_fan (mt_open env tu conn s))) \<and>
      writers (mt_fan (mt_open env tu conn s)) ! k = writers (mt_fan s) ! k" for conn
    using mt_accept by (cases rule: mt_open_cases [of env tu conn s]) simp_all
  with mt_accept show ?case by (simp add: mt_accept_def split: sum.splits prod.splits)
next
  case (mt_magic s i tu)
  then show ?case by (auto simp: mt_magic_def Let_def split: sum.splits prod.splits)
qed (simp_all add: mt_signal_def mt_cancel_def mt_batch_def mt_read_end_def mt_join_control_def
    mt_join_cancel_def mt_join_reader_def shutdown_listed_def Let_def)

lemma writer_ended_stays:
  assumes "mt_step p n env ev s s'" and "k < length (writers (mt_fan s))"
    and "w_pc (writers (mt_fan s) ! k) = Ended e"
  shows "w_pc (writers (mt_fan s') ! k) = Ended e"
proof (cases "ev = EvWriter k")
  case True
  with assms(1) have "writer_enabled (mt_nonces s) k (mt_fan s)" by (auto elim: mt_step_elims)
  with assms(3) show ?thesis by (simp add: writer_enabled_def)
next
  case False
  with writers_stay [OF assms(1,2)] assms(3) show ?thesis by simp
qed

text \<open>
  The control thread on socket \<open>i\<close> has exchanged nonces and waits for the lock, which
  writer \<open>k\<close> holds; \<open>calls\<close> are the calls made on the device so far, the cancel
  thread's apart.
\<close>

definition handshake_waits ::
  "nat \<Rightarrow> 'c control \<Rightarrow> nat \<Rightarrow> dev_call list \<Rightarrow> ('c, 'rcvr) multi_threads \<Rightarrow> bool" where
  "handshake_waits i c k calls s \<longleftrightarrow>
     mt_main s = Serving i \<and> mt_control s = Some c \<and> (\<exists>m q. co_pc c = Storing m q) \<and>
     nonce_owner (mt_fan s) = Some k \<and>
     filter (\<lambda>d. d \<noteq> CancelAsyncRead) (m_data (mt_ctl s)) = calls"

lemma handshake_waits_step:
  assumes "mt_step p n env ev s s'" and "handshake_waits i c k calls s" and "fanout_wf (mt_fan s)"
  shows "handshake_waits i c k calls s' \<or> (\<exists>e. w_pc (writers (mt_fan s') ! k) = Ended e)"
  using assms
proof (induction rule: mt_step.induct)
  case (mt_writer s j)
  from wf_owner [OF mt_writer(4), of k] mt_writer(3)
  have k: "k < length (writers (mt_fan s))" "encrypting (writers (mt_fan s) ! k)"
    by (simp_all add: handshake_waits_def)
  show ?case
  proof (cases rule: writer_turn_cases [of "mt_fanout env" "env_cipher_new (mt_master env)"
        "env_key (mt_master env)" "mt_nonces s" "mt_exit s" j "mt_fan s"])
    case idle
    with mt_writer show ?thesis by (simp add: mt_writer_def handshake_waits_def)
  next
    case (locking c')
    with mt_writer(3) show ?thesis by (simp add: handshake_waits_def)
  next
    case (plain pc rcvr st)
    with mt_writer show ?thesis by (simp add: mt_writer_def handshake_waits_def)
  next
    case (encrypted c' pc rcvr st)
    with mt_writer(4) have "encrypting (writers (mt_fan s) ! j)" "j < length (writers (mt_fan s))"
      using mt_writer(2) by (auto simp: encrypting_def writer_enabled_def)
    with mt_writer(3,4) have "j = k" by (auto simp: fanout_wf_def handshake_waits_def)
    with encrypted mt_writer k show ?thesis
      by (auto simp: mt_writer_def handshake_waits_def release_if_ended_def split: writer_pc.splits)
  qed
next
  case (mt_control s j c' t)
  then show ?case by (auto simp: handshake_waits_def control_enabled_def)
next
  case (mt_cancel s)
  then show ?case by (simp add: handshake_waits_def mt_cancel_def cancel_device_def)
qed (auto simp: handshake_waits_def mt_signal_def mt_try_send_def mt_batch_def mt_read_end_def
    mt_acceptor_def)

lemma handshake_waits_run:
  assumes "mt_run p n env evs s s'" and "handshake_waits i c k calls s" and "mt_inv env s"
  shows "k < length (writers (mt_fan s')) \<and>
    (handshake_waits i c k calls s' \<or> (\<exists>e. w_pc (writers (mt_fan s') ! k) = Ended e))"
  using assms
proof (induction rule: runs.induct)
  case (runs_none s)
  then show ?case using wf_owner [of "mt_fan s" k] by (simp add: handshake_waits_def mt_inv_def)
next
  case (runs_more evs s s' ev s'')
  from mt.run_inv [OF runs_more(1) runs_more(5)]
  have wf: "fanout_wf (mt_fan s')" by (simp add: mt_inv_def)
  from runs_more(3) [OF runs_more(4,5)] have
    k: "k < length (writers (mt_fan s'))" and
    or: "handshake_waits i c k calls s' \<or> (\<exists>e. w_pc (writers (mt_fan s') ! k) = Ended e)" by simp_all
  from or have "handshake_waits i c k calls s'' \<or> (\<exists>e. w_pc (writers (mt_fan s'') ! k) = Ended e)"
    using handshake_waits_step [OF runs_more(2) _ wf] writer_ended_stays [OF runs_more(2) k] by blast
  with writers_stay [OF runs_more(2) k] show ?case by simp
qed

section \<open>What a slave receives\<close>

fun batches :: "mt_event list \<Rightarrow> bytes list" where
  "batches [] = []"
| "batches (ev # evs) = (case ev of EvBatch bs \<Rightarrow> bs # batches evs | _ \<Rightarrow> batches evs)"

lemma batches_append [simp]: "batches (xs @ ys) = batches xs @ batches ys"
  by (induction xs) (auto split: mt_event.splits)

text \<open>The sockets that a step of the main or the control thread can touch.\<close>

lemma slave_not_master:
  assumes "mt_inv env s" and "k < length (writers (mt_fan s))" and "w_slave (writers (mt_fan s) ! k)"
    and "mt_main s = Serving i \<or> mt_main s = SendingMagic i"
  shows "w_conn (writers (mt_fan s) ! k) \<noteq> i"
proof -
  have "writers (mt_fan s) ! k \<in> set (writers (mt_fan s))" using assms(2) by simp
  with assms(1,3,4) show ?thesis unfolding mt_inv_def mt_threads_ok_def by blast
qed

context broadcast_receiver
begin

lemma feeds_set_conn:
  assumes "feeds cap up k out bufs (mt_fan s)" and "w_conn (writers (mt_fan s) ! k) \<noteq> i"
  shows "feeds cap up k out bufs ((mt_fan s)\<lparr>conns := (conns (mt_fan s))[i := st]\<rparr>)"
  using assms by (simp add: feeds_def)

lemma feeds_open:
  assumes "feeds cap up k out bufs (mt_fan s)" and "fanout_wf (mt_fan s)"
  shows "feeds cap up k out bufs (mt_fan (mt_open env tu conn s))"
proof -
  have grown: "feeds cap up k out bufs ((mt_fan s)\<lparr>listed := l, conns := conns (mt_fan s) @ [st]\<rparr>)" for l st
    using assms wf_conn [of "mt_fan s" k] by (simp add: feeds_def nth_append)
  show ?thesis
    using assms(1) grown
    by (cases rule: mt_open_cases [of env tu conn s]) (simp_all add: feeds_spawn)
qed

lemma feeds_step_other:
  assumes "mt_step p n env ev s s'" and "mt_inv env s" and "feeds cap up k out bufs (mt_fan s)"
    and "w_slave (writers (mt_fan s) ! k)" and "mt_running s'"
    and "fe_try_recv (mt_fanout env) = try_recv_fn" and "fe_send (mt_fanout env) = send_fn"
    and "ev \<noteq> EvWriter k"
  shows "feeds cap up k out (bufs @ batches [ev]) (mt_fan s')"
  using assms
proof (induction rule: mt_step.induct)
  case (mt_batch s bs)
  then show ?case by (simp add: mt_batch_def feeds_broadcast)
next
  case (mt_acceptor s res)
  then show ?case by (simp add: mt_acceptor_def feeds_acceptor mt_inv_def)
next
  case (mt_writer s j)
  have k: "k < length (writers (mt_fan s))" and wf: "fanout_wf (mt_fan s)"
    using mt_writer(3,4) by (simp_all add: feeds_def mt_inv_def)
  from feeds_other_turn [OF mt_writer(4) wf, of j] mt_writer(2,9) show ?case
    by (simp add: mt_writer_def writer_enabled_def)
next
  case (mt_control s i c t fill)
  have "w_conn (writers (mt_fan s) ! k) \<noteq> i"
    using slave_not_master [OF mt_control(4) _ mt_control(6)] mt_control(1,5) by (simp add: feeds_def)
  with mt_control(5) feeds_set_conn show ?case
    by (auto simp: mt_control_turn_def mt_store_def split: option.splits)
next
  case (mt_accept s tu)
  then show ?case
    by (auto simp: mt_accept_def mt_inv_def intro!: feeds_open split: sum.splits prod.splits)
next
  case (mt_magic s i tu)
  have "w_conn (writers (mt_fan s) ! k) \<noteq> i"
    using slave_not_master [OF mt_magic(2) _ mt_magic(4)] mt_magic(1,3) by (simp add: feeds_def)
  with mt_magic(3) feeds_set_conn show ?case
    by (auto simp: mt_magic_def Let_def split: sum.splits prod.splits)
next
  case (mt_join_reader s)
  then show ?case by (simp add: mt_join_reader_def mt_running_def split: if_splits)
qed (simp_all add: mt_signal_def mt_cancel_def mt_read_end_def mt_join_control_def mt_join_cancel_def
    Let_def)

lemma feeds_step:
  assumes "mt_step p n env ev s s'" and "mt_inv env s" and "feeds cap up k out bufs (mt_fan s)"
    and "w_slave (writers (mt_fan s) ! k)" and "mt_running s'"
    and "fe_try_recv (mt_fanout env) = try_recv_fn" and "fe_send (mt_fanout env) = send_fn"
  shows "feeds cap (up \<and> waiting_for k (mt_fan s) \<le> cap) k out (bufs @ batches [ev]) (mt_fan s')"
proof (cases "ev = EvWriter k")
  case True
  with assms(1) have s': "s' = mt_writer env k s" by (auto elim: mt_step.cases)
  have k: "k < length (writers (mt_fan s))" and wf: "fanout_wf (mt_fan s)"
    using assms(2,3) by (simp_all add: feeds_def mt_inv_def)
  with assms(4) have "w_pc (writers (mt_fan s) ! k) = Running PlainWriter \<or>
      (\<exists>e. w_pc (writers (mt_fan s) ! k) = Ended e)" by (simp add: fanout_wf_def)
  from feeds_plain_turn [OF assms(3,6) wf this] True show ?thesis by (simp add: s' mt_writer_def)
next
  case False
  from feeds_step_other [OF assms False] show ?thesis by (rule feeds_weaken) simp
qed

end

lemma mt_step_running: "mt_step p n env ev s s' \<Longrightarrow> mt_running s"
  by (auto simp: mt_running_def elim!: mt_step.cases split: main_pc.splits)

lemma writers_stay_run:
  assumes "mt_run p n env evs s s'" and "k < length (writers (mt_fan s))"
  shows "k < length (writers (mt_fan s')) \<and>
    w_conn (writers (mt_fan s') ! k) = w_conn (writers (mt_fan s) ! k) \<and>
    w_slave (writers (mt_fan s') ! k) = w_slave (writers (mt_fan s) ! k)"
  using assms
proof (induction rule: runs.induct)
  case (runs_more evs s s' ev s'')
  then show ?case using writers_stay [OF runs_more(2), of k] by auto
qed simp

text \<open>Nobody reads what a slave sends.\<close>

lemma slave_unread_step:
  assumes "mt_step p n env ev s s'" and "mt_inv env s" and "k < length (writers (mt_fan s))"
    and "w_slave (writers (mt_fan s) ! k)" and "mt_running s'"
  shows "rx (conns (mt_fan s') ! w_conn (writers (mt_fan s) ! k)) =
    rx (conns (mt_fan s) ! w_conn (writers (mt_fan s) ! k))"
  using assms
proof (induction rule: mt_step.induct)
  case (mt_acceptor s res)
  then have "w_conn (writers (mt_fan s) ! k) < length (conns (mt_fan s))"
    using wf_conn [of "mt_fan s" k] by (simp add: mt_inv_def)
  then show ?case
    by (cases rule: acceptor_turn_cases [of p n "multi_acceptor_env (mt_args env)" "mt_fanout env"
          "mt_exit s" res "mt_fan s"]) (simp_all add: mt_acceptor_def nth_append)
next
  case (mt_control s i c t fill)
  then have "w_conn (writers (mt_fan s) ! k) \<noteq> i" using slave_not_master by blast
  then show ?case by (simp add: mt_control_turn_def mt_store_def split: option.splits prod.splits)
next
  case (mt_accept s tu)
  then have "w_conn (writers (mt_fan s) ! k) < length (conns (mt_fan s))"
    using wf_conn [of "mt_fan s" k] by (simp add: mt_inv_def)
  then have "rx (conns (mt_fan (mt_open env tu conn s)) ! w_conn (writers (mt_fan s) ! k)) =
      rx (conns (mt_fan s) ! w_conn (writers (mt_fan s) ! k))" for conn
    by (cases rule: mt_open_cases [of env tu conn s]) (simp_all add: nth_append)
  then show ?case by (simp add: mt_accept_def split: sum.splits prod.splits)
next
  case (mt_magic s i tu)
  then have "w_conn (writers (mt_fan s) ! k) \<noteq> i" using slave_not_master by blast
  then show ?case by (auto simp: mt_magic_def Let_def split: sum.splits prod.splits)
next
  case (mt_join_reader s)
  then show ?case by (simp add: mt_join_reader_def mt_running_def split: if_splits)
qed (simp_all add: mt_signal_def mt_cancel_def mt_batch_def mt_read_end_def mt_writer_def writer_turn_conns
    mt_join_control_def mt_join_cancel_def Let_def)

lemma slave_unread_run:
  assumes "mt_run p n env evs s s'" and "mt_inv env s" and "k < length (writers (mt_fan s))"
    and "w_slave (writers (mt_fan s) ! k)" and "mt_running s'"
  shows "rx (conns (mt_fan s') ! w_conn (writers (mt_fan s') ! k)) =
    rx (conns (mt_fan s) ! w_conn (writers (mt_fan s) ! k))"
  using assms
proof (induction rule: runs.induct)
  case (runs_more evs s s' ev s'')
  note stay = writers_stay_run [OF runs_more(1,5)]
  have "k < length (writers (mt_fan s'))" "w_slave (writers (mt_fan s') ! k)"
    using stay runs_more(6) by simp_all
  from slave_unread_step [OF runs_more(2) mt.run_inv [OF runs_more(1,4)] this runs_more(7)]
    writers_stay [OF runs_more(2) this(1)] runs_more(3) [OF runs_more(4-6)] mt_step_running [OF runs_more(2)]
  show ?case by simp
qed simp

context broadcast_receiver
begin

lemma feeds_run:
  assumes "mt_run p n env evs s s'" and "mt_inv env s" and "feeds cap up k out bufs (mt_fan s)"
    and "w_slave (writers (mt_fan s) ! k)" and "mt_running s'"
    and "fe_try_recv (mt_fanout env) = try_recv_fn" and "fe_send (mt_fanout env) = send_fn"
  shows "feeds cap (up \<and> stays_within (mt_step p n env) (\<lambda>t. waiting_for k (mt_fan t)) cap evs s)
    k out (bufs @ batches evs) (mt_fan s')"
  using assms
proof (induction rule: runs.induct)
  case (runs_none s)
  from feeds_weaken [OF runs_none(2)] show ?case by simp
next
  case (runs_more evs s s' ev s'')
  let ?up = "\<lambda>evs. up \<and> stays_within (mt_step p n env) (\<lambda>t. waiting_for k (mt_fan t)) cap evs s"
  have "feeds cap (?up evs) k out (bufs @ batches evs) (mt_fan s')"
    using runs_more mt_step_running by blast
  moreover have "w_slave (writers (mt_fan s') ! k)"
    using writers_stay_run [OF runs_more(1), of k] runs_more(5,6) by (simp add: feeds_def)
  ultimately have "feeds cap (?up evs \<and> waiting_for k (mt_fan s') \<le> cap) k out
      ((bufs @ batches evs) @ batches [ev]) (mt_fan s'')"
    using feeds_step [OF runs_more(2) mt.run_inv [OF runs_more(1,4)]] runs_more(7-9) by blast
  then have "feeds cap (?up (evs @ [ev])) k out ((bufs @ batches evs) @ batches [ev]) (mt_fan s'')"
    by (rule feeds_weaken) (use runs_more(1) in \<open>auto dest: stays_within_snoc\<close>)
  then show ?case by (simp only: append_assoc batches_append)
qed

text \<open>What waits for a writer grows with the buffers that are sent and with nothing else.\<close>

lemma waiting_step:
  assumes "mt_step p n env ev s s'" and "k < length (writers (mt_fan s))"
    and "fe_try_recv (mt_fanout env) = try_recv_fn" and "fe_send (mt_fanout env) = send_fn"
  shows "waiting_for k (mt_fan s') \<le> waiting_for k (mt_fan s) + length (batches [ev])"
  using assms
proof (induction rule: mt_step.induct)
  case (mt_batch s bs)
  then show ?case by (simp add: mt_batch_def waiting_broadcast)
next
  case (mt_writer s j)
  then show ?case by (simp add: mt_writer_def waiting_turn writer_enabled_def)
next
  case (mt_acceptor s res)
  then show ?case
    by (cases rule: acceptor_turn_cases [of p n "multi_acceptor_env (mt_args env)" "mt_fanout env"
          "mt_exit s" res "mt_fan s"]) (simp_all add: mt_acceptor_def waiting_for_def)
next
  case (mt_control s i c t fill)
  then show ?case
    by (simp add: mt_control_turn_def mt_store_def waiting_for_def split: option.splits prod.splits)
next
  case (mt_accept s tu)
  have "writers (mt_fan (mt_open env tu conn s)) ! k = writers (mt_fan s) ! k" for conn
    using mt_accept(2) by (cases rule: mt_open_cases [of env tu conn s]) simp_all
  then show ?case by (simp add: mt_accept_def waiting_for_def split: sum.splits prod.splits)
next
  case (mt_magic s i tu)
  then show ?case by (auto simp: mt_magic_def Let_def waiting_for_def split: sum.splits prod.splits)
qed (simp_all add: mt_signal_def mt_cancel_def mt_read_end_def mt_join_control_def mt_join_cancel_def
    mt_join_reader_def shutdown_listed_def Let_def waiting_for_def)

lemma waiting_run:
  assumes "mt_run p n env evs s s'" and "k < length (writers (mt_fan s))"
    and "fe_try_recv (mt_fanout env) = try_recv_fn" and "fe_send (mt_fanout env) = send_fn"
  shows "waiting_for k (mt_fan s') \<le> waiting_for k (mt_fan s) + length (batches evs)"
  using assms
proof (induction rule: runs.induct)
  case (runs_more evs s s' ev s'')
  have "k < length (writers (mt_fan s'))" using writers_stay_run [OF runs_more(1,4)] by simp
  from waiting_step [OF runs_more(2) this runs_more(5,6)] runs_more.IH [OF runs_more(4-6)] show ?case
    unfolding batches_append by simp
qed simp

text \<open>So a run with no more buffers than the channel retains is one a writer keeps up with.\<close>

lemma few_buffers_within:
  assumes "k < length (writers (mt_fan s))" and "waiting_for k (mt_fan s) + length (batches evs) \<le> cap"
    and "fe_try_recv (mt_fanout env) = try_recv_fn" and "fe_send (mt_fanout env) = send_fn"
  shows "stays_within (mt_step p n env) (\<lambda>t. waiting_for k (mt_fan t)) cap evs s"
  unfolding stays_within_def
proof (intro allI impI)
  fix evs' s'
  assume pre: "prefix evs' evs" and run: "mt_run p n env evs' s s'"
  from pre have "length (batches evs') \<le> length (batches evs)" by (auto simp: prefix_def)
  with waiting_run [OF run assms(1,3,4)] assms(2) show "waiting_for k (mt_fan s') \<le> cap" by simp
qed

end

section \<open>Reachable states\<close>

text \<open>The states the threads can be in after a start-up that succeeded.\<close>

definition mt_started :: "('c, 'rcvr) mt_env \<Rightarrow> 'c multi_state \<Rightarrow> bool" where
  "mt_started env m \<longleftrightarrow>
     (\<exists>opened enc_key handler bound bind_slave nonblocking.
        serve_multi_start (mt_args env) opened enc_key handler bound bind_slave nonblocking =
          Some (Inr (env_key (mt_master env), m)))"

definition mt_reachable ::
  "(string \<Rightarrow> 'e + 'n) \<Rightarrow> ('n \<Rightarrow> ip_addr \<Rightarrow> bool) \<Rightarrow> ('c, 'rcvr) mt_env \<Rightarrow> ('c, 'rcvr) multi_threads \<Rightarrow> bool" where
  "mt_reachable p n env s \<longleftrightarrow> (\<exists>m evs. mt_started env m \<and> mt_run p n env evs (mt_begin m) s)"

lemma mt_started_fresh:
  assumes "mt_started env m"
  shows "m = \<lparr>mu_ctl = \<lparr>m_data = [], m_poisoned = False\<rparr>, mu_agc = agc_new, mu_nonces = None,
    mu_streams = \<lparr>m_data = [], m_poisoned = False\<rparr>, mu_masters = []\<rparr>"
  using assms
  unfolding mt_started_def serve_multi_start_def
  by (elim exE) (simp split: sum.split_asm option.split_asm)

lemma mt_begin_inv: "mt_started env m \<Longrightarrow> mt_inv env (mt_begin m)"
  by (drule mt_started_fresh)
    (simp add: mt_begin_def mt_inv_def fanout_wf_def mt_device_ok_def mt_stop_ok_def mt_threads_ok_def
      agc_new_def agc_default_def)

lemma mt_reachable_inv: "mt_reachable p n env s \<Longrightarrow> mt_inv env s"
  by (auto simp: mt_reachable_def intro: mt.run_inv mt_begin_inv)

section \<open>Going on without a stop request\<close>

text \<open>Nobody has asked the server to stop, and its main thread is not on its way out.\<close>

definition mt_unstopped :: "('c, 'rcvr) multi_threads \<Rightarrow> bool" where
  "mt_unstopped s \<longleftrightarrow>
     \<not> mt_exit s \<and> \<not> mt_slot s \<and> \<not> mt_cancelled s \<and>
     mt_main s \<notin> {JoiningCancel, JoiningReader, MainReturned (Inr ())}"

lemma mt_step_unstopped:
  assumes "mt_step p n env ev s s'" and "mt_unstopped s" and "ev \<noteq> EvSignal"
  shows "mt_unstopped s'"
  using assms
proof (induction rule: mt_step.induct)
  case (mt_accept s tu)
  have "mt_unstopped (mt_open env tu conn s)" for conn
    using mt_accept by (cases rule: mt_open_cases [of env tu conn s]) (auto simp: mt_unstopped_def)
  with mt_accept show ?case
    by (auto simp: mt_accept_def mt_return_def mt_unstopped_def split: sum.splits prod.splits)
qed (auto simp: mt_unstopped_def mt_batch_def mt_read_end_def mt_acceptor_def mt_writer_def
    mt_control_turn_def mt_store_def mt_magic_def set_conn_def mt_join_control_def mt_return_def Let_def
    split: prod.splits sum.splits option.splits)

lemma mt_run_unstopped:
  "mt_run p n env evs s s' \<Longrightarrow> mt_unstopped s \<Longrightarrow> EvSignal \<notin> set evs \<Longrightarrow> mt_unstopped s'"
  by (induction rule: runs.induct) (auto intro: mt_step_unstopped)

lemma mt_begin_unstopped: "mt_started env m \<Longrightarrow> mt_unstopped (mt_begin m)"
  by (simp add: mt_begin_def mt_unstopped_def)

text \<open>
  What can still end the server: the admission of a master, when \<open>accept\<close> fails, the
  whitelist refuses the address, a timeout is zero, a slave's acceptor has poisoned the list
  of connections, a socket cannot be cloned, or the magic packet cannot be sent.
\<close>

definition accept_fails ::
  "(string \<Rightarrow> 'e + 'n) \<Rightarrow> ('n \<Rightarrow> ip_addr \<Rightarrow> bool) \<Rightarrow> args \<Rightarrow> bool \<Rightarrow> turn \<Rightarrow> bool" where
  "accept_fails p n args list_poisoned tu \<longleftrightarrow>
     (case tu_accept tu of
        Inl e \<Rightarrow> err_kind e \<noteq> WouldBlock
      | Inr (conn, addr) \<Rightarrow>
          check_whitelist p n (show_ip_addr (to_canonical addr)) (whitelist args) \<noteq> Inr () \<or>
          arg_read_timeout args = 0 \<or> arg_write_timeout args = 0 \<or> list_poisoned \<or>
          tu_clone_list tu \<noteq> Inr () \<or> tu_clone_writer tu \<noteq> Inr ())"

definition magic_fails :: "args \<Rightarrow> tcp \<Rightarrow> turn \<Rightarrow> bool" where
  "magic_fails args conn tu \<longleftrightarrow>
     tu_clone_magic tu \<noteq> Inr () \<or> tu_clone_control tu \<noteq> Inr () \<or>
     fst (send_magic (unat (tcp_buffers args)) MAGIC_PACKET conn) \<noteq> Inr ()"

lemma accept_ok_running:
  assumes "\<not> accept_fails p n (mt_args env) (m_poisoned (listed (mt_fan s))) tu" and "\<not> mt_exit s"
    and "mt_running s"
  shows "mt_running (mt_accept p n env tu s)"
proof (cases "tu_accept tu")
  case (Inl e)
  with assms show ?thesis by (simp add: mt_accept_def accept_fails_def)
next
  case (Inr ca)
  then obtain conn addr where ca: "tu_accept tu = Inr (conn, addr)" by (cases ca) simp
  with assms(1) have ok: "check_whitelist p n (show_ip_addr (to_canonical addr)) (whitelist (mt_args env)) = Inr ()"
    "unat (arg_read_timeout (mt_args env)) \<noteq> 0" "unat (arg_write_timeout (mt_args env)) \<noteq> 0"
    "\<not> m_poisoned (listed (mt_fan s))" "tu_clone_list tu = Inr ()" "tu_clone_writer tu = Inr ()"
    by (simp_all add: accept_fails_def unat_eq_0)
  with assms(2) ca show ?thesis
    by (simp add: mt_accept_def mt_open_def set_read_timeout_def set_write_timeout_def mt_running_def Let_def)
qed

lemma magic_ok_running:
  assumes "\<not> magic_fails (mt_args env) (conns (mt_fan s) ! i) tu"
  shows "mt_running (mt_magic env tu i s)"
proof -
  obtain st where "send_magic (unat (tcp_buffers (mt_args env))) MAGIC_PACKET (conns (mt_fan s) ! i) = (Inr (), st)"
    using assms by (cases "send_magic (unat (tcp_buffers (mt_args env))) MAGIC_PACKET (conns (mt_fan s) ! i)")
      (simp add: magic_fails_def)
  with assms show ?thesis
    by (simp add: mt_magic_def magic_fails_def mt_running_def set_conn_def Let_def)
qed

lemma mt_step_ends:
  assumes "mt_step p n env ev s s'" and "mt_unstopped s" and "ev \<noteq> EvSignal" and "\<not> mt_running s'"
  shows "(\<exists>tu. ev = EvAccept tu \<and> accept_fails p n (mt_args env) (m_poisoned (listed (mt_fan s))) tu) \<or>
    (\<exists>tu i. ev = EvMagic tu \<and> mt_main s = SendingMagic i \<and> magic_fails (mt_args env) (conns (mt_fan s) ! i) tu)"
  using assms
proof (induction rule: mt_step.induct)
  case (mt_accept s tu)
  then have "mt_running s" "\<not> mt_exit s" by (simp_all add: mt_running_def mt_unstopped_def)
  with accept_ok_running mt_accept(4) show ?case by blast
next
  case (mt_magic s i tu)
  with magic_ok_running show ?case by blast
qed (auto simp: mt_unstopped_def mt_running_def mt_cancel_def mt_batch_def mt_read_end_def mt_acceptor_def
    mt_writer_def mt_control_turn_def mt_store_def set_conn_def mt_join_control_def mt_join_cancel_def Let_def
    split: option.splits prod.splits if_splits main_pc.splits)

end
