(* ===== verification/Multi_Properties.thy ===== *)
theory Multi_Properties
  imports Multi_Liveness
begin

text \<open>
  The properties of multi-client mode over all interleavings of its threads, and concrete
  runs at which they are applied.
\<close>

section \<open>A concrete server\<close>

text \<open>
  A server with a key; a master that probes it, shakes hands, and probes again. Its second
  probe is encrypted with the demonstration cipher, whose keystream is constant.
\<close>

definition demo_mt_env :: "((nat \<Rightarrow> u8) \<times> nat, subscription) mt_env" where
  "demo_mt_env =
     \<lparr>mt_args = demo_multi_args, mt_master = demo_master_env, mt_fanout = demo_fan_env\<rparr>"

definition demo_second :: "read_event list" where
  "demo_second = [Data ([0xAA, 0x5A, 0x5A, 0x5A, 0x5A] @ replicate 12 4)]"

definition demo_first :: "read_event list" where
  "demo_first = Data ([0xF0, 0, 0, 0, 0] @ replicate 12 3) # demo_second"

definition demo_master :: turn where
  "demo_master = demo_turn\<lparr>tu_accept := Inr (fresh_tcp demo_first, V4 10 0 0 1)\<rparr>"

definition demo_conn :: "read_event list \<Rightarrow> bytes \<Rightarrow> tcp" where
  "demo_conn es out =
     \<lparr>rx = es, tx = out, tx_script = [], read_timeout = Some 30000, write_timeout = Some 30000\<rparr>"

definition demo_control ::
  "control_pc \<Rightarrow> read_event list \<Rightarrow> bytes \<Rightarrow> instant \<Rightarrow> log_event list \<Rightarrow> ((nat \<Rightarrow> u8) \<times> nat) option \<Rightarrow>
   ((nat \<Rightarrow> u8) \<times> nat) option \<Rightarrow> (bytes \<times> bytes) option \<Rightarrow> ((nat \<Rightarrow> u8) \<times> nat) control" where
  "demo_control pc es out t log rc wc nonces =
     \<lparr>co_pc = pc,
      co_state =
        \<lparr>stream = demo_conn es out, ctl = \<lparr>m_data = [], m_poisoned = False\<rparr>, agc_st = agc_new,
         unknown_command_count = 0, limiter = \<lparr>last_command = t, min_interval = 50000000\<rparr>,
         log_lines = log, read_cipher = rc, write_cipher = wc, encryption_nonces = nonces\<rparr>\<rparr>"

definition demo_at ::
  "main_pc \<Rightarrow> ((nat \<Rightarrow> u8) \<times> nat) control option \<Rightarrow> read_event list \<Rightarrow> bytes \<Rightarrow>
   ((nat \<Rightarrow> u8) \<times> nat) writer_start \<Rightarrow> (bytes \<times> bytes) option \<Rightarrow> nat option \<Rightarrow>
   ((nat \<Rightarrow> u8) \<times> nat, subscription) multi_threads" where
  "demo_at main c es out w nonces owner =
     \<lparr>mt_main = main, mt_control = c,
      mt_fan =
        \<lparr>conns = [demo_conn es out], listed = \<lparr>m_data = [0], m_poisoned = False\<rparr>,
         writers = [\<lparr>w_conn = 0, w_slave = False, w_pc = Running w,
                     w_rcvr = sub_new DEFAULT_BROADCAST_CAPACITY\<rparr>],
         slaves_admitted = 0, acceptor_ended = False, nonce_owner = owner\<rparr>,
      mt_ctl = \<lparr>m_data = [], m_poisoned = False\<rparr>, mt_agc = agc_new, mt_nonces = nonces,
      mt_slot = False, mt_exit = False, mt_cancelled = False, mt_reading = True\<rparr>"

definition demo_key_cipher :: "(nat \<Rightarrow> u8) \<times> nat" where
  "demo_key_cipher = ks_new (\<lambda>_ _ _. 0x5A) [] []"

definition demo_serving ::
  "control_pc \<Rightarrow> read_event list \<Rightarrow> bytes \<Rightarrow> instant \<Rightarrow> log_event list \<Rightarrow> ((nat \<Rightarrow> u8) \<times> nat) option \<Rightarrow>
   ((nat \<Rightarrow> u8) \<times> nat) option \<Rightarrow> (bytes \<times> bytes) option \<Rightarrow> ((nat \<Rightarrow> u8) \<times> nat) writer_start \<Rightarrow>
   nat option \<Rightarrow> ((nat \<Rightarrow> u8) \<times> nat, subscription) multi_threads" where
  "demo_serving pc es out t log rc wc nonces w owner =
     demo_at (Serving 0) (Some (demo_control pc es out t log rc wc nonces)) es out w nonces owner"

lemmas demo_defs =
  demo_serving_def demo_at_def demo_control_def demo_conn_def demo_mt_env_def demo_fan_env_def demo_master_env_def
  demo_multi_args_def demo_multi_def demo_master_def demo_turn_def any_net_def everybody_def
  fresh_tcp_def

lemmas demo_control_defs =
  mt_control_turn_def control_step_def round_step_def master_begin_def mt_load_def mt_store_def
  set_conn_def tcp_read_exact_def COMMAND_HEADER_SIZE_def decrypt_command_def rate_limiter_check_def
  saturating_duration_since_def dispatch_step_eq cmd_defs chain_ack_def add_log_def
  exchange_step_def store_step_def

lemma demo_accepted:
  "mt_accept any_net everybody demo_mt_env demo_master (mt_begin demo_multi) =
     demo_at (SendingMagic 0) None demo_first [] AwaitingNonces None None"
  by (simp add: demo_defs mt_accept_def mt_open_def mt_begin_def set_read_timeout_def
      set_write_timeout_def Let_def check_whitelist_def is_ip_in_whitelist_iff spawn_writer_def)

lemma demo_served:
  "mt_magic demo_mt_env demo_master 0 (demo_at (SendingMagic 0) None demo_first [] AwaitingNonces None None) =
     demo_serving Ready demo_first MAGIC_PACKET (- 50000000) [] None None None AwaitingNonces None"
  by (simp add: demo_defs mt_magic_def send_magic_def buf_write_all_def buf_drop_def MAGIC_PACKET_def
      master_start_def set_read_timeout_def set_conn_def Let_def rate_limiter_new_def
      COMMAND_RATE_LIMIT_INTERVAL_def instant_checked_sub_def)

text \<open>A step of the control thread from such a state, and what the handshake's steps give.\<close>

lemma demo_control_step:
  assumes "pc = Ready \<or> pc = Exchanging \<or> (\<exists>m q. pc = Storing m q) \<and> owner = None"
    and "mt_control_turn demo_mt_env t fill 0 (demo_control pc es out t' log rc wc nonces)
      (demo_serving pc es out t' log rc wc nonces w owner) = s'"
  shows "mt_step any_net everybody demo_mt_env (EvControl t fill)
    (demo_serving pc es out t' log rc wc nonces w owner) s'"
proof -
  let ?s = "demo_serving pc es out t' log rc wc nonces w owner"
  let ?c = "demo_control pc es out t' log rc wc nonces"
  have "mt_main ?s = Serving 0" "mt_control ?s = Some ?c"
    by (simp_all add: demo_serving_def demo_at_def)
  moreover have "control_enabled ?c (mt_fan ?s)"
    using assms(1) by (auto simp: control_enabled_def demo_control_def demo_serving_def demo_at_def)
  ultimately have "mt_step any_net everybody demo_mt_env (EvControl t fill) ?s
      (mt_control_turn demo_mt_env t fill 0 ?c ?s)"
    by (rule mt_step.mt_control)
  with assms(2) show ?thesis by simp
qed

lemma demo_probe_step:
  "mt_step any_net everybody demo_mt_env (EvControl 1 fill)
     (demo_serving Ready demo_first out (- 50000000) [] None None None w None)
     (demo_serving Exchanging (Data (replicate 12 3) # demo_second) (out @ [0xF0, 0, 0, 0, 0]) 1
       [ChainProbe, PerformingHandshake] None None None w None)"
  by (rule demo_control_step)
    (simp_all add: demo_defs demo_control_defs demo_first_def Let_def)

lemma demo_exchange_step:
  "mt_step any_net everybody demo_mt_env (EvControl t (\<lambda>n. replicate n a))
     (demo_serving Exchanging (Data (replicate 12 b) # es) out t' log rc wc nonces w owner)
     (demo_serving (Storing (replicate 12 a) (replicate 12 b)) es (out @ replicate 12 a) t'
       log rc wc nonces w owner)"
  by (rule demo_control_step)
    (simp_all add: demo_defs demo_control_defs Let_def server_nonce_exchange_def
      io_bind_def io_simps generate_nonce_def io_return_def tcp_write_all_def)

lemma demo_store_step:
  "mt_step any_net everybody demo_mt_env (EvControl t fill)
     (demo_serving (Storing m q) es out t' log rc wc nonces w None)
     (demo_serving Ready es out t' (log @ [ChainEstablished]) (Some demo_key_cipher) (Some demo_key_cipher)
       (Some (m, q)) w None)"
  by (rule demo_control_step)
    (simp_all add: demo_defs demo_control_defs demo_key_cipher_def ks_new_def)

lemma demo_lock_step:
  "mt_step any_net everybody demo_mt_env (EvWriter 0)
     (demo_serving pc es out t log rc wc (Some (m, q)) AwaitingNonces None)
     (demo_serving pc es out t log rc wc (Some (m, q)) (EncryptingWriter demo_key_cipher) (Some 0))"
proof -
  let ?s = "demo_serving pc es out t log rc wc (Some (m, q)) AwaitingNonces None"
  have "mt_running ?s" "writer_enabled (mt_nonces ?s) 0 (mt_fan ?s)"
    by (simp_all add: demo_defs mt_running_def writer_enabled_def)
  moreover have "mt_writer demo_mt_env 0 ?s =
      demo_serving pc es out t log rc wc (Some (m, q)) (EncryptingWriter demo_key_cipher) (Some 0)"
    by (simp add: demo_defs mt_writer_def writer_turn_def master_writer_def demo_key_cipher_def ks_new_def
        Let_def)
  ultimately show ?thesis using mt_step.mt_writer by metis
qed

lemma demo_second_probe_step:
  "mt_step any_net everybody demo_mt_env (EvControl 100000000 fill)
     (demo_serving Ready demo_second out 1 log (Some demo_key_cipher) wc nonces w owner)
     (demo_serving Exchanging [Data (replicate 12 4)] (out @ [0xF0, 0, 0, 0, 0]) 100000000
       (log @ [ChainProbe, PerformingHandshake]) (Some (\<lambda>_. 0x5A, 5)) wc nonces w owner)"
  by (rule demo_control_step)
    (simp_all add: demo_defs demo_control_defs demo_second_def Let_def
      demo_key_cipher_def ks_new_def ks_apply_def)

text \<open>
  The state this comes to: the second nonces are exchanged, and the writer of the first
  handshake holds the lock.
\<close>

definition demo_blocked :: "((nat \<Rightarrow> u8) \<times> nat, subscription) multi_threads" where
  "demo_blocked =
     demo_serving (Storing (replicate 12 7) (replicate 12 4)) []
       ((((MAGIC_PACKET @ [0xF0, 0, 0, 0, 0]) @ replicate 12 7) @ [0xF0, 0, 0, 0, 0]) @ replicate 12 7)
       100000000 (([ChainProbe, PerformingHandshake] @ [ChainEstablished]) @ [ChainProbe, PerformingHandshake])
       (Some (\<lambda>_. 0x5A, 5)) (Some demo_key_cipher) (Some (replicate 12 7, replicate 12 3))
       (EncryptingWriter demo_key_cipher) (Some 0)"

lemma mt_reachable_step: "mt_reachable p n env s \<Longrightarrow> mt_step p n env ev s s' \<Longrightarrow> mt_reachable p n env s'"
  by (auto simp: mt_reachable_def intro: mt.run_more)

lemma demo_started: "mt_started demo_mt_env demo_multi"
proof -
  have "serve_multi_start (mt_args demo_mt_env) (Inr ()) (Inr (Some (replicate 32 1))) (Inr ()) (Inr ())
      (\<lambda>_. Inr ()) (Inr ()) = Some (Inr (env_key (mt_master demo_mt_env), demo_multi))"
    by (simp add: serve_multi_start_def demo_defs)
  then show ?thesis unfolding mt_started_def by blast
qed

lemma demo_reachable: "mt_reachable any_net everybody demo_mt_env demo_blocked"
proof -
  let ?R = "mt_reachable any_net everybody demo_mt_env"
  have "?R (mt_begin demo_multi)"
    unfolding mt_reachable_def using demo_started mt.run_none by blast
  moreover have "mt_step any_net everybody demo_mt_env (EvAccept demo_master) (mt_begin demo_multi)
      (demo_at (SendingMagic 0) None demo_first [] AwaitingNonces None None)"
    unfolding demo_accepted [symmetric] by (rule mt_step.mt_accept) (simp add: mt_begin_def)
  ultimately have "?R (demo_at (SendingMagic 0) None demo_first [] AwaitingNonces None None)"
    by (rule mt_reachable_step)
  moreover have "mt_step any_net everybody demo_mt_env (EvMagic demo_master)
      (demo_at (SendingMagic 0) None demo_first [] AwaitingNonces None None)
      (demo_serving Ready demo_first MAGIC_PACKET (- 50000000) [] None None None AwaitingNonces None)"
    unfolding demo_served [symmetric] by (rule mt_step.mt_magic) (simp add: demo_at_def)
  ultimately have
    "?R (demo_serving Ready demo_first MAGIC_PACKET (- 50000000) [] None None None AwaitingNonces None)"
    by (rule mt_reachable_step)
  note r = mt_reachable_step [OF this demo_probe_step]
  note r = mt_reachable_step [OF r demo_exchange_step]
  note r = mt_reachable_step [OF r demo_store_step]
  note r = mt_reachable_step [OF r demo_lock_step]
  note r = mt_reachable_step [OF r demo_second_probe_step]
  note r = mt_reachable_step [OF r demo_exchange_step]
  from r show ?thesis unfolding demo_blocked_def .
qed

section \<open>Properties\<close>

text \<open>
  C14. Whatever the clients, the device and the scheduler do, the states of the multi-client
  server are well formed: every writer and every listed connection has a socket and no two
  writers share one; at most one writer encrypts, and it is the one that holds the lock on
  the nonces; there is a control thread exactly while the main thread waits for it, on a
  socket no slave uses; and with a key configured no master is sent samples in clear.
\<close>

theorem multi_threads_wf:
  assumes "mt_reachable p n env s"
  shows "fanout_wf (mt_fan s) \<and> mt_threads_ok env s"
  using mt_reachable_inv [OF assms] by (simp add: mt_inv_def)

theorem multi_threads_wf_witness:
  "fanout_wf (mt_fan demo_blocked) \<and> mt_threads_ok demo_mt_env demo_blocked"
  by (rule multi_threads_wf [OF demo_reachable])

text \<open>
  C13. Under every interleaving the multi-client server only asks the device for values in
  range, its AGC state is the one last asked for, the device is told to stop exactly once
  and only by the cancel thread, no stop request is lost, and the server returns without an
  error only after the cancel thread and the thread that reads the device have ended.
\<close>

theorem multi_threads_invariant:
  assumes "mt_reachable p n env s"
  shows "mt_device_ok s \<and> mt_stop_ok s"
  using mt_reachable_inv [OF assms] by (simp add: mt_inv_def)

theorem multi_threads_invariant_witness:
  "mt_device_ok (mt_signal demo_blocked) \<and> mt_stop_ok (mt_signal demo_blocked)"
proof (rule multi_threads_invariant)
  show "mt_reachable any_net everybody demo_mt_env (mt_signal demo_blocked)"
    by (rule mt_reachable_step [OF demo_reachable mt_step.mt_signal])
      (simp add: demo_blocked_def demo_defs mt_running_def)
qed



lemma slave_stream:
  assumes "broadcast_receiver (fe_try_recv (mt_fanout env)) (fe_send (mt_fanout env)) backlog capacity"
    and "backlog (fe_subscribe (mt_fanout env)) = []"
    and "mt_reachable p n env s0"
    and "mt_step p n env (EvSlave (Accepted conn ip True True)) s0 s"
    and "length (writers (mt_fan s)) = Suc (length (writers (mt_fan s0)))"
    and "tx conn = []" and "tx_script conn = []"
    and "mt_run p n env evs s s'" and "mt_running s'"
  shows "(\<exists>got. tx (conns (mt_fan s') ! w_conn (writers (mt_fan s') ! length (writers (mt_fan s0)))) =
        MAGIC_PACKET @ concat got \<and> subseq got (batches evs) \<and>
      (stays_within (mt_step p n env)
         (\<lambda>t. length (backlog (w_rcvr (writers (mt_fan t) ! length (writers (mt_fan s0))))))
         (capacity (fe_subscribe (mt_fanout env))) evs s \<longrightarrow>
       got @ backlog (w_rcvr (writers (mt_fan s') ! length (writers (mt_fan s0)))) = batches evs)) \<and>
    rx (conns (mt_fan s') ! w_conn (writers (mt_fan s') ! length (writers (mt_fan s0)))) = rx conn"
proof -
  let ?k = "length (writers (mt_fan s0))"
  let ?cap = "capacity (fe_subscribe (mt_fanout env))"
  have inv: "mt_inv env s" using mt_step_inv [OF assms(4) mt_reachable_inv [OF assms(3)]] .
  have s: "s = mt_acceptor p n env (Accepted conn ip True True) s0"
    using assms(4) by (auto elim: mt_step.cases)
  have start: "broadcast_receiver.feeds backlog capacity ?cap True ?k MAGIC_PACKET [] (mt_fan s) \<and>
      w_slave (writers (mt_fan s) ! ?k)"
    using broadcast_receiver.acceptor_feeds [OF assms(1), of p n "multi_acceptor_env (mt_args env)"
        "mt_fanout env" "mt_exit s0" conn ip True True "mt_fan s0"] assms(2,5-7)
    by (simp add: s mt_acceptor_def multi_acceptor_env_def)
  from broadcast_receiver.feeds_run [OF assms(1) assms(8) inv start [THEN conjunct1] start [THEN conjunct2]
      assms(9) refl refl]
  obtain got where got: "tx (conns (mt_fan s') ! w_conn (writers (mt_fan s') ! ?k)) = MAGIC_PACKET @ concat got"
    "subseq (got @ backlog (w_rcvr (writers (mt_fan s') ! ?k))) (batches evs)"
    "stays_within (mt_step p n env) (\<lambda>t. length (backlog (w_rcvr (writers (mt_fan t) ! ?k)))) ?cap evs s \<longrightarrow>
       got @ backlog (w_rcvr (writers (mt_fan s') ! ?k)) = batches evs"
    by (auto simp: broadcast_receiver.feeds_def [OF assms(1)] broadcast_receiver.waiting_for_def [OF assms(1)])
  have "subseq got (batches evs)"
    by (rule subseq_order.trans [OF _ got(2)]) (simp add: prefix_imp_subseq)
  moreover have "rx (conns (mt_fan s) ! w_conn (writers (mt_fan s) ! ?k)) = rx conn"
    using acceptor_rx [of p n "multi_acceptor_env (mt_args env)" "mt_fanout env" "mt_exit s0" conn ip True True
        "mt_fan s0"] assms(5,7) by (simp add: s mt_acceptor_def)
  ultimately show ?thesis
    using got(1,3) slave_unread_run [OF assms(8) inv _ start [THEN conjunct2] assms(9)] assms(5) by auto
qed

text \<open>
  C17. A slave that was admitted on a socket that takes what is written receives the magic
  packet and after it whole buffers only, in the order the device delivered them and none
  twice, whatever the other threads do, the encrypted writers included. It misses none as
  long as the channel never holds more buffers for it than it retains: what it has received
  and what waits for it are then together all that the device delivered since. And nobody
  reads what it sends, so a slave can neither set the device nor get an answer.
\<close>

theorem slave_receives_broadcast:
  assumes "broadcast_receiver (fe_try_recv (mt_fanout env)) (fe_send (mt_fanout env)) backlog capacity"
    and "backlog (fe_subscribe (mt_fanout env)) = []"
    and "mt_reachable p n env s0"
    and "mt_step p n env (EvSlave (Accepted conn ip True True)) s0 s"
    and "length (writers (mt_fan s)) = Suc (length (writers (mt_fan s0)))"
    and "tx conn = []" and "tx_script conn = []"
    and "mt_run p n env evs s s'" and "mt_running s'"
  shows "(\<exists>got. tx (conns (mt_fan s') ! w_conn (writers (mt_fan s') ! length (writers (mt_fan s0)))) =
        MAGIC_PACKET @ concat got \<and> subseq got (batches evs) \<and>
      (stays_within (mt_step p n env)
         (\<lambda>t. length (backlog (w_rcvr (writers (mt_fan t) ! length (writers (mt_fan s0))))))
         (capacity (fe_subscribe (mt_fanout env))) evs s \<longrightarrow>
       got @ backlog (w_rcvr (writers (mt_fan s') ! length (writers (mt_fan s0)))) = batches evs)) \<and>
    rx (conns (mt_fan s') ! w_conn (writers (mt_fan s') ! length (writers (mt_fan s0)))) = rx conn"
  using assms by (rule slave_stream)

text \<open>
  A slave of the demonstration server, which sends a command and is sent two samples while
  the handshake of the second master waits.
\<close>

definition demo_guest_slave :: accept_result where
  "demo_guest_slave = Accepted (fresh_tcp [Data [1, 0, 0, 0, 9]]) (V4 10 0 0 2) True True"

definition demo_slave :: "((nat \<Rightarrow> u8) \<times> nat, subscription) multi_threads" where
  "demo_slave = mt_acceptor any_net everybody demo_mt_env demo_guest_slave demo_blocked"

definition demo_slave_fed :: "((nat \<Rightarrow> u8) \<times> nat, subscription) multi_threads" where
  "demo_slave_fed = mt_writer demo_mt_env 1 (mt_batch demo_mt_env [7, 8] demo_slave)"

lemma demo_channel_laws:
  "broadcast_receiver (fe_try_recv (mt_fanout demo_mt_env)) (fe_send (mt_fanout demo_mt_env)) waiting retained"
  "waiting (fe_subscribe (mt_fanout demo_mt_env)) = []"
  "retained (fe_subscribe (mt_fanout demo_mt_env)) = DEFAULT_BROADCAST_CAPACITY"
  using sub_rx.broadcast_receiver_axioms by (simp_all add: demo_mt_env_def demo_fan_env_def sub_new_def)

lemma demo_slave_admitted:
  "mt_step any_net everybody demo_mt_env (EvSlave (Accepted (fresh_tcp [Data [1, 0, 0, 0, 9]]) (V4 10 0 0 2) True True))
     demo_blocked demo_slave"
  "length (writers (mt_fan demo_slave)) = Suc (length (writers (mt_fan demo_blocked)))"
  "tx (fresh_tcp [Data [1, 0, 0, 0, 9]]) = []" "tx_script (fresh_tcp [Data [1, 0, 0, 0, 9]]) = []"
  "length (writers (mt_fan demo_blocked)) = 1"
proof -
  have "mt_running demo_blocked" "\<not> acceptor_ended (mt_fan demo_blocked)"
    by (simp_all add: demo_blocked_def demo_defs mt_running_def)
  then show "mt_step any_net everybody demo_mt_env
      (EvSlave (Accepted (fresh_tcp [Data [1, 0, 0, 0, 9]]) (V4 10 0 0 2) True True)) demo_blocked demo_slave"
    unfolding demo_slave_def demo_guest_slave_def by (rule mt_step.mt_acceptor)
qed (simp_all add: demo_slave_def demo_guest_slave_def demo_blocked_def demo_defs mt_acceptor_def acceptor_turn_def
    acceptor_round_def acceptor_view_def multi_acceptor_env_def check_whitelist_def is_ip_in_whitelist_iff
    admit_slave_def spawn_writer_def Let_def)

lemma demo_slave_writer:
  "w_pc (writers (mt_fan demo_slave) ! 1) = Running PlainWriter" "waiting (w_rcvr (writers (mt_fan demo_slave) ! 1)) = []"
  by (simp_all add: demo_slave_def demo_guest_slave_def demo_blocked_def demo_defs mt_acceptor_def acceptor_turn_def
    acceptor_round_def acceptor_view_def multi_acceptor_env_def check_whitelist_def is_ip_in_whitelist_iff
    admit_slave_def spawn_writer_def sub_new_def Let_def)

lemma demo_slave_run:
  "mt_run any_net everybody demo_mt_env ([EvBatch [7, 8]] @ [EvWriter 1]) demo_slave demo_slave_fed"
  "mt_running demo_slave_fed"
proof -
  let ?b = "mt_batch demo_mt_env [7, 8] demo_slave"
  have "mt_running demo_blocked" "mt_reading demo_blocked"
    by (simp_all add: demo_blocked_def demo_defs mt_running_def)
  then have run: "mt_running demo_slave" "mt_reading demo_slave" "mt_running ?b" "mt_running demo_slave_fed"
    by (simp_all add: demo_slave_def demo_slave_fed_def mt_acceptor_def mt_batch_def mt_writer_def mt_running_def)
  have "writer_enabled (mt_nonces ?b) 1 (mt_fan ?b)"
    using demo_slave_admitted(2,5) demo_slave_writer(1) by (simp add: writer_enabled_def mt_batch_def)
  from mt.run_more [OF mt.run_one [OF mt_step.mt_batch [OF run(1,2)]] mt_step.mt_writer [OF run(3) this]] run(4)
  show "mt_run any_net everybody demo_mt_env ([EvBatch [7, 8]] @ [EvWriter 1]) demo_slave demo_slave_fed"
    "mt_running demo_slave_fed" by (simp_all add: demo_slave_fed_def)
qed

theorem slave_receives_broadcast_witness:
  "(\<exists>got. tx (conns (mt_fan demo_slave_fed) ! w_conn (writers (mt_fan demo_slave_fed) ! 1)) = MAGIC_PACKET @ concat got \<and>
      got @ waiting (w_rcvr (writers (mt_fan demo_slave_fed) ! 1)) = [[7, 8]]) \<and>
    rx (conns (mt_fan demo_slave_fed) ! w_conn (writers (mt_fan demo_slave_fed) ! 1)) = [Data [1, 0, 0, 0, 9]]"
proof -
  note rx = demo_channel_laws
  have "stays_within (mt_step any_net everybody demo_mt_env)
      (\<lambda>t. length (waiting (w_rcvr (writers (mt_fan t) ! 1)))) DEFAULT_BROADCAST_CAPACITY
      ([EvBatch [7, 8]] @ [EvWriter 1]) demo_slave"
    using broadcast_receiver.few_buffers_within [OF rx(1), of 1 demo_slave "[EvBatch [7, 8], EvWriter 1]"
        DEFAULT_BROADCAST_CAPACITY demo_mt_env any_net everybody] demo_slave_admitted(2,5) demo_slave_writer(2)
    by (simp add: broadcast_receiver.waiting_for_def [OF rx(1)] DEFAULT_BROADCAST_CAPACITY_def)
  with slave_receives_broadcast [OF rx(1,2) demo_reachable demo_slave_admitted(1-4) demo_slave_run]
  show ?thesis by (auto simp: rx(3) demo_slave_admitted(5))
qed

text \<open>
  C34. The encrypting writer keeps the lock on the nonces for as long as it runs: a master
  whose control thread has exchanged nonces while such a writer runs (the writer of an
  earlier master, or its own after a second probe) is not served: its control thread stays
  where it is, reads no command, and nothing is asked of the device until that writer ends.
\<close>

theorem handshake_behind_writer:
  assumes "mt_reachable p n env s" and "mt_main s = Serving i" and "mt_control s = Some c"
    and "co_pc c = Storing my_nonce peer_nonce" and "nonce_owner (mt_fan s) = Some k"
    and "mt_run p n env evs s s'" and "encrypting (writers (mt_fan s') ! k)"
  shows "mt_main s' = Serving i \<and> mt_control s' = Some c \<and> nonce_owner (mt_fan s') = Some k \<and>
    filter (\<lambda>d. d \<noteq> CancelAsyncRead) (m_data (mt_ctl s')) =
    filter (\<lambda>d. d \<noteq> CancelAsyncRead) (m_data (mt_ctl s))"
proof -
  have "handshake_waits i c k (filter (\<lambda>d. d \<noteq> CancelAsyncRead) (m_data (mt_ctl s))) s"
    using assms(2-5) by (simp add: handshake_waits_def)
  from handshake_waits_run [OF assms(6) this mt_reachable_inv [OF assms(1)]] assms(7) show ?thesis
    by (auto simp: handshake_waits_def encrypting_def)
qed

theorem handshake_behind_writer_witness:
  "mt_main (mt_batch demo_mt_env [7] demo_blocked) = Serving 0 \<and>
   mt_control (mt_batch demo_mt_env [7] demo_blocked) = mt_control demo_blocked \<and>
   nonce_owner (mt_fan (mt_batch demo_mt_env [7] demo_blocked)) = Some 0"
proof -
  obtain c where c: "mt_control demo_blocked = Some c" "co_pc c = Storing (replicate 12 7) (replicate 12 4)"
    by (simp add: demo_blocked_def demo_serving_def demo_at_def demo_control_def)
  have s: "mt_main demo_blocked = Serving 0" "nonce_owner (mt_fan demo_blocked) = Some 0"
    "mt_running demo_blocked" "mt_reading demo_blocked"
    "encrypting (writers (mt_fan (mt_batch demo_mt_env [7] demo_blocked)) ! 0)"
    by (simp_all add: demo_blocked_def demo_serving_def demo_at_def mt_running_def mt_batch_def
        broadcast_buffer_def encrypting_def)
  from handshake_behind_writer [OF demo_reachable s(1) c s(2)
      mt.run_one [OF mt_step.mt_batch [OF s(3,4)]] s(5)] c(1)
  show ?thesis by simp
qed

text \<open>
  C35. Without a signal the multi-client server is not stopped: whatever clients and scheduler
  do, and also when the device is lost and the thread that reads it has ended, no stop request
  is made, the device is not told to stop, and the main thread neither leaves its loop of
  masters nor returns without an error. The one thing that can still end the server is the
  admission of a master: no step of another thread ends it, and a step of the main thread
  only, with an error or a panic, when \<open>accept\<close> fails, the whitelist refuses the master, its
  socket cannot be set up or cloned, the list of connections is poisoned, or the magic packet
  cannot be sent.
\<close>

theorem multi_runs_without_signal:
  assumes "mt_started env m" and "mt_run p n env evs (mt_begin m) s" and "mt_step p n env ev s s'"
    and "EvSignal \<notin> set (evs @ [ev])"
  shows "\<not> mt_exit s' \<and> \<not> mt_slot s' \<and> CancelAsyncRead \<notin> set (m_data (mt_ctl s')) \<and>
    mt_main s' \<notin> {JoiningCancel, JoiningReader, MainReturned (Inr ())} \<and>
    (\<not> mt_running s' \<longrightarrow>
      (\<exists>tu. ev = EvAccept tu \<and> accept_fails p n (mt_args env) (m_poisoned (listed (mt_fan s))) tu) \<or>
      (\<exists>tu i. ev = EvMagic tu \<and> mt_main s = SendingMagic i \<and>
         magic_fails (mt_args env) (conns (mt_fan s) ! i) tu))"
proof -
  have s: "mt_unstopped s" and ev: "ev \<noteq> EvSignal"
    using mt_run_unstopped [OF assms(2) mt_begin_unstopped [OF assms(1)]] assms(4) by auto
  have "mt_device_ok s'"
    using mt_step_inv [OF assms(3) mt.run_inv [OF assms(2) mt_begin_inv [OF assms(1)]]] by (simp add: mt_inv_def)
  with mt_step_unstopped [OF assms(3) s ev] mt_step_ends [OF assms(3) s ev] show ?thesis
    by (auto simp: mt_unstopped_def mt_device_ok_def filter_empty_conv)
qed

text \<open>A device that is lost before any client has come; the next master is served all the same.\<close>

theorem multi_runs_without_signal_witness:
  "let s = mt_read_end (mt_begin demo_multi) :: ((nat \<Rightarrow> u8) \<times> nat, subscription) multi_threads;
       s' = mt_accept any_net everybody demo_mt_env demo_master s
   in \<not> mt_reading s \<and> \<not> mt_exit s' \<and> mt_running s'"
proof -
  let ?b = "mt_begin demo_multi :: ((nat \<Rightarrow> u8) \<times> nat, subscription) multi_threads"
  let ?r = "mt_read_end ?b"
  have b: "mt_running ?b" "mt_reading ?b" "mt_main ?r = Accepting" "\<not> m_poisoned (listed (mt_fan ?r))"
    by (simp_all add: mt_begin_def mt_running_def mt_read_end_def)
  have ok: "\<not> accept_fails any_net everybody (mt_args demo_mt_env) False demo_master"
    by (simp add: accept_fails_def demo_defs check_whitelist_def is_ip_in_whitelist_iff)
  have "EvSignal \<notin> set ([EvReadEnd] @ [EvAccept demo_master])" by simp
  from multi_runs_without_signal [OF demo_started mt.run_one [OF mt_step.mt_read_end [OF b(1,2)]]
      mt_step.mt_accept [OF b(3)] this] b(4) ok
  show ?thesis by (auto simp: Let_def mt_read_end_def)
qed

end
