(* ===== verification/Master_Stream.thy ===== *)
theory Master_Stream
  imports Multi_Properties
begin

text \<open>
  What a master of multi-client mode is sent: its socket is written by three threads (the
  main thread with the magic packet, the control thread with acknowledgements and nonces,
  the writer with samples), so the stream is an interleaving (\<open>shuffles\<close>) of what is said
  and of the samples, and the samples are, in clear or under one keystream, whole buffers of
  the channel in order.
\<close>

section \<open>Interleavings\<close>

lemma shuffles_snoc: "zs \<in> shuffles xs ys \<Longrightarrow> zs @ [z] \<in> shuffles (xs @ [z]) ys"
proof (induction zs arbitrary: xs ys)
  case (Cons c zs)
  from Cons.prems consider "xs \<noteq> []" "hd xs = c" "zs \<in> shuffles (tl xs) ys"
    | "ys \<noteq> []" "hd ys = c" "zs \<in> shuffles xs (tl ys)"
    by (auto simp: Cons_in_shuffles_iff)
  then show ?case
    by cases (auto simp: Cons_in_shuffles_iff dest: Cons.IH)
qed simp

lemma shuffles_snoc_right: "zs \<in> shuffles xs ys \<Longrightarrow> zs @ [z] \<in> shuffles xs (ys @ [z])"
  using shuffles_snoc [of zs ys xs z] by (simp add: shuffles_commutes)

section \<open>What a writer sends\<close>

locale sample_link =
  broadcast_receiver try_recv_fn send_fn pending capacity + stream_cipher apply_keystream
  for try_recv_fn :: "'rcvr \<Rightarrow> try_recv \<times> 'rcvr"
    and send_fn :: "bytes \<Rightarrow> 'rcvr \<Rightarrow> 'rcvr"
    and pending :: "'rcvr \<Rightarrow> bytes list"
    and capacity :: "'rcvr \<Rightarrow> nat"
    and apply_keystream :: "'c \<Rightarrow> bytes \<Rightarrow> bytes \<times> 'c"
begin

text \<open>
  \<open>out\<close> is, after what was there before, an interleaving of words and samples; the samples are the buffers \<open>got\<close>
  under the cipher the writer started with, and these buffers, with the \<open>queued\<close> ones,
  are among \<open>bufs\<close> in order.
\<close>

definition code_state :: "('c option \<Rightarrow> bool) \<Rightarrow> bytes list \<Rightarrow> 'c option \<Rightarrow> 'c writer_pc \<Rightarrow> bool" where
  "code_state codes got enc pc \<longleftrightarrow>
     (case pc of
        Running AwaitingNonces \<Rightarrow> got = []
      | Running PlainWriter \<Rightarrow> enc = None \<and> codes None
      | Running (EncryptingWriter c) \<Rightarrow> advance (length (concat got)) enc = Some c \<and> codes enc
      | Ended e \<Rightarrow> codes enc)"

text \<open>A writer past its start, by the cipher it writes through.\<close>

definition writing :: "'c option \<Rightarrow> 'c writer_pc" where
  "writing oc = Running (case oc of None \<Rightarrow> PlainWriter | Some c \<Rightarrow> EncryptingWriter c)"

lemma code_state_writing:
  "code_state codes got enc (writing oc) \<longleftrightarrow> advance (length (concat got)) enc = oc \<and> codes enc"
  by (cases oc) (auto simp: code_state_def writing_def advance_def)

definition delivers ::
  "bytes \<Rightarrow> bytes set \<Rightarrow> ('c option \<Rightarrow> bool) \<Rightarrow> bytes list \<Rightarrow> bytes \<Rightarrow> 'c writer_pc \<Rightarrow> bytes list \<Rightarrow> bool" where
  "delivers pre words codes bufs out pc queued \<longleftrightarrow>
     (\<exists>zs said samples got enc.
        out = pre @ concat zs \<and> zs \<in> shuffles said samples \<and> set said \<subseteq> words \<and>
        concat samples = coded enc (concat got) \<and> map length samples = map length got \<and>
        subseq (got @ queued) bufs \<and> code_state codes got enc pc)"

lemma deliversE:
  assumes "delivers pre words codes bufs out pc queued"
  obtains zs said samples got enc where "out = pre @ concat zs" "zs \<in> shuffles said samples"
    "set said \<subseteq> words" "concat samples = coded enc (concat got)" "map length samples = map length got"
    "subseq (got @ queued) bufs" "code_state codes got enc pc"
  using assms unfolding delivers_def by blast

text \<open>The socket of writer \<open>k\<close> takes what is written, and holds such an interleaving.\<close>

definition carries ::
  "bytes \<Rightarrow> nat \<Rightarrow> bytes set \<Rightarrow> ('c option \<Rightarrow> bool) \<Rightarrow> bytes list \<Rightarrow> ('c, 'rcvr) fanout \<Rightarrow> bool" where
  "carries pre k words codes bufs f \<longleftrightarrow>
     k < length (writers f) \<and> tx_script (conns f ! w_conn (writers f ! k)) = [] \<and>
     delivers pre words codes bufs (tx (conns f ! w_conn (writers f ! k))) (w_pc (writers f ! k))
       (pending (w_rcvr (writers f ! k)))"

lemma recv_takes:
  assumes "try_recv_fn rcvr = (res, rcvr')"
  shows "subseq ((case res of Received b \<Rightarrow> [b] | _ \<Rightarrow> []) @ pending rcvr') (pending rcvr)"
proof (cases res)
  case (Received b)
  with assms recv_received [of rcvr b rcvr'] show ?thesis by simp
next
  case Empty
  with assms recv_empty [of rcvr rcvr'] show ?thesis by simp
next
  case Closed
  with assms recv_closed [of rcvr rcvr'] show ?thesis by simp
next
  case (Lagged n)
  with assms recv_lagged [of rcvr n rcvr'] have "pending rcvr' = drop n (pending rcvr)" by simp
  with Lagged show ?thesis by (simp add: suffix_drop suffix_imp_subseq)
qed

text \<open>A round of a writer adds the coded form of at most one buffer.\<close>

lemma plain_round_sends:
  assumes "plain_round env ex rcvr st = (pc, rcvr', st')" and "fe_try_recv env = try_recv_fn"
    and "tx_script st = []"
  obtains got where "tx_script st' = []" "tx st' = tx st @ concat got" "length got \<le> 1"
    "subseq (got @ pending rcvr') (pending rcvr)" "pc = Running PlainWriter \<or> (\<exists>e. pc = Ended e)"
proof -
  obtain res r1 where r: "try_recv_fn rcvr = (res, r1)" by (cases "try_recv_fn rcvr")
  let ?got = "if ex then [] else (case res of Received b \<Rightarrow> [b] | _ \<Rightarrow> [])"
  have "tx_script st' = [] \<and> tx st' = tx st @ concat ?got \<and> rcvr' = (if ex then rcvr else r1) \<and>
      (pc = Running PlainWriter \<or> (\<exists>e. pc = Ended e))"
    using assms r by (cases res) (auto simp: plain_round_def split: if_splits)
  with recv_takes [OF r] that [of ?got] show ?thesis by (auto split: try_recv.splits if_splits)
qed

lemma encrypting_round_sends:
  assumes "encrypting_round env ex c rcvr st = (pc, rcvr', st')" and "fe_try_recv env = try_recv_fn"
    and "fe_apply_keystream env = apply_keystream" and "tx_script st = []"
  obtains got where "tx_script st' = []" "tx st' = tx st @ crypt c (concat got)" "length got \<le> 1"
    "subseq (got @ pending rcvr') (pending rcvr)"
    "pc = Running (EncryptingWriter (after c (length (concat got)))) \<or> (\<exists>e. pc = Ended e)"
proof -
  obtain res r1 where r: "try_recv_fn rcvr = (res, r1)" by (cases "try_recv_fn rcvr")
  let ?got = "if ex then [] else (case res of Received b \<Rightarrow> [b] | _ \<Rightarrow> [])"
  have "tx_script st' = [] \<and> tx st' = tx st @ crypt c (concat ?got) \<and> rcvr' = (if ex then rcvr else r1) \<and>
      (pc = Running (EncryptingWriter (after c (length (concat ?got)))) \<or> (\<exists>e. pc = Ended e))"
    using assms r encrypted_write_all_whole [of "\<lparr>ew_inner = st, ew_cipher = c\<rparr>"]
    by (cases res) (auto simp: encrypting_round_def split: if_splits)
  with recv_takes [OF r] that [of ?got] show ?thesis by (auto split: try_recv.splits if_splits)
qed

text \<open>One more piece of samples, and one more word, on the socket of the writer.\<close>

lemma delivers_samples:
  assumes "delivers pre words codes bufs out (writing oc) queued" and "length got \<le> 1"
    and "subseq (got @ queued') queued"
    and "pc' = writing (advance (length (concat got)) oc) \<or> (\<exists>e. pc' = Ended e)"
  shows "delivers pre words codes bufs (out @ coded oc (concat got)) pc' queued'"
  using assms(1)
proof (cases rule: deliversE)
  case (1 zs said samples old enc)
  from 1(7) have oc: "advance (length (concat old)) enc = oc" and enc: "codes enc"
    by (simp_all add: code_state_writing)
  define wire where "wire = coded oc (concat got)"
  have "code_state codes (old @ got) enc (writing (advance (length (concat got)) oc))"
    using enc by (simp add: code_state_writing advance_add flip: oc)
  with assms(4) enc have pc': "code_state codes (old @ got) enc pc'"
    by (auto simp: code_state_def)
  let ?zs = "if got = [] then zs else zs @ [wire]" and ?samples = "if got = [] then samples else samples @ [wire]"
  have one: "got = [] \<or> (\<exists>b. got = [b])" using assms(2) by (cases got) auto
  have "?zs \<in> shuffles said ?samples" using 1(2) shuffles_snoc_right [OF 1(2)] by simp
  moreover have "concat ?samples = coded enc (concat (old @ got))"
    using 1(4) by (cases "got = []") (simp_all add: coded_append oc wire_def)
  moreover have "map length ?samples = map length (old @ got)"
    using 1(5) one by (auto simp: wire_def)
  moreover have "out @ wire = pre @ concat ?zs" using 1(1) by (simp add: wire_def)
  moreover have "subseq ((old @ got) @ queued') bufs"
    using subseq_order.trans [OF list_emb_append_mono [OF subseq_order.refl [of old] assms(3)] 1(6)] by simp
  ultimately show ?thesis using 1(3) pc' unfolding delivers_def wire_def [symmetric] by blast
qed

lemma delivers_nothing:
  "code_state codes [] enc pc \<Longrightarrow> delivers pre words codes queued pre pc queued"
  unfolding delivers_def
  by (rule exI [of _ "[]"], rule exI [of _ "[]"], rule exI [of _ "[]"], rule exI [of _ "[]"], rule exI [of _ enc])
    simp

lemma delivers_word:
  assumes "delivers pre words codes bufs out pc queued" and "w \<in> words"
  shows "delivers pre words codes bufs (out @ w) pc queued"
  using assms(1)
proof (cases rule: deliversE)
  case (1 zs said samples got enc)
  have "zs @ [w] \<in> shuffles (said @ [w]) samples" using 1(2) by (rule shuffles_snoc)
  moreover have "set (said @ [w]) \<subseteq> words" using 1(3) assms(2) by simp
  moreover have "out @ w = pre @ concat (zs @ [w])" using 1(1) by simp
  ultimately show ?thesis using 1(4-7) unfolding delivers_def by blast
qed

lemma delivers_unlocked:
  assumes "delivers pre words codes bufs out (Running AwaitingNonces) queued" and "codes (Some c)"
  shows "delivers pre words codes bufs out (Running (EncryptingWriter c)) queued"
  using assms(1)
proof (cases rule: deliversE)
  case (1 zs said samples got enc)
  then have "got = []" by (simp add: code_state_def)
  with 1 assms(2) have "concat samples = coded (Some c) (concat got)"
    "code_state codes got (Some c) (Running (EncryptingWriter c))"
    by (simp_all add: code_state_def advance_def)
  with 1 show ?thesis unfolding delivers_def by blast
qed

lemma delivers_waiting:
  assumes "delivers pre words codes bufs out pc queued"
  shows "delivers pre words codes (bufs @ [b]) out pc (queued @ [b])"
  using assms
proof (cases rule: deliversE)
  case (1 zs said samples got enc)
  have "subseq (got @ queued @ [b]) (bufs @ [b])"
    using list_emb_append_mono [OF 1(6), of "[b]" "[b]"] by simp
  with 1 show ?thesis unfolding delivers_def by blast
qed

lemma carries_said:
  assumes "carries pre k words codes bufs f" and "writers f' = writers f"
    and "tx_script (conns f' ! w_conn (writers f ! k)) = []"
    and "tx (conns f' ! w_conn (writers f ! k)) = tx (conns f ! w_conn (writers f ! k)) \<or>
      (\<exists>w \<in> words. tx (conns f' ! w_conn (writers f ! k)) = tx (conns f ! w_conn (writers f ! k)) @ w)"
  shows "carries pre k words codes bufs f'"
  using assms delivers_word by (auto simp: carries_def)

lemma carries_turn:
  assumes "carries pre k words codes bufs f" and "fanout_wf f"
    and "fe_try_recv env = try_recv_fn" and "fe_apply_keystream env = apply_keystream"
    and "\<And>kb my peer. ekey = Some kb \<Longrightarrow> nonces = Some (my, peer) \<Longrightarrow>
      w_pc (writers f ! k) = Running AwaitingNonces \<Longrightarrow> codes (Some (cn kb my))"
  shows "carries pre k words codes bufs (writer_turn env cn ekey nonces ex k f)"
proof (cases rule: writer_turn_cases [of env cn ekey nonces ex k f])
  case idle
  with assms(1) show ?thesis by simp
next
  case (locking c)
  then obtain kb my peer where "ekey = Some kb" "nonces = Some (my, peer)" "c = cn kb my"
    by (auto simp: master_writer_def split: option.splits prod.splits)
  with assms(5) locking(1) have "codes (Some c)" by simp
  with assms(1) locking(1) delivers_unlocked show ?thesis
    unfolding locking(3) by (auto simp: carries_def)
next
  case (plain pc rcvr st)
  let ?i = "w_conn (writers f ! k)"
  have k: "k < length (writers f)" and scr: "tx_script (conns f ! ?i) = []"
    using assms(1) by (simp_all add: carries_def)
  from plain_round_sends [OF plain(2) assms(3) scr] obtain got where
    "tx_script st = []" "tx st = tx (conns f ! ?i) @ concat got" "length got \<le> 1"
    "subseq (got @ pending rcvr) (pending (w_rcvr (writers f ! k)))"
    "pc = Running PlainWriter \<or> (\<exists>e. pc = Ended e)" by blast
  with assms(1) delivers_samples [where oc = None and got = got and queued' = "pending rcvr" and pc' = pc]
    k plain(1,3) wf_conn [OF assms(2) k]
  show ?thesis by (auto simp: carries_def update_writer_def writing_def advance_def coded_def)
next
  case (encrypted c pc rcvr st)
  let ?i = "w_conn (writers f ! k)" and ?f = "update_writer k (pc, rcvr, st) f"
  have k: "k < length (writers f)" and scr: "tx_script (conns f ! ?i) = []"
    using assms(1) by (simp_all add: carries_def)
  from encrypting_round_sends [OF encrypted(2) assms(3,4) scr] obtain got where
    "tx_script st = []" "tx st = tx (conns f ! ?i) @ crypt c (concat got)" "length got \<le> 1"
    "subseq (got @ pending rcvr) (pending (w_rcvr (writers f ! k)))"
    "pc = Running (EncryptingWriter (after c (length (concat got)))) \<or> (\<exists>e. pc = Ended e)" by blast
  with assms(1) delivers_samples [where oc = "Some c" and got = got and queued' = "pending rcvr" and pc' = pc]
    k encrypted(1) wf_conn [OF assms(2) k]
  have "carries pre k words codes bufs ?f"
    by (auto simp: carries_def update_writer_def writing_def advance_def coded_def)
  then show ?thesis
    unfolding encrypted(3) by (auto simp: release_if_ended_def carries_def split: writer_pc.splits)
qed

lemma carries_other_turn:
  assumes "carries pre k words codes bufs f" and "fanout_wf f" and "j \<noteq> k" and "j < length (writers f)"
  shows "carries pre k words codes bufs (writer_turn env cn ekey nonces ex j f)"
proof -
  from assms(1) have "k < length (writers f)" by (simp add: carries_def)
  with wf_conn_inj [OF assms(2), of k j] assms(3,4)
  have "w_conn (writers f ! k) \<noteq> w_conn (writers f ! j)" by blast
  with assms(1,3) show ?thesis by (simp add: carries_def writer_turn_conns)
qed

lemma carries_broadcast:
  assumes "carries pre k words codes bufs f" and "fe_send env = send_fn"
  shows "carries pre k words codes (bufs @ [b]) (broadcast_buffer env b f)"
proof -
  have k: "k < length (writers f)" using assms(1) by (simp add: carries_def)
  with assms delivers_waiting show ?thesis
    by (simp add: carries_def broadcast_buffer_def send_pending)
qed

lemma carries_grown:
  assumes "carries pre k words codes bufs f" and "fanout_wf f"
    and "writers f' = writers f" and "conns f' = conns f @ cs"
  shows "carries pre k words codes bufs f'"
  using assms wf_conn [of f k] by (simp add: carries_def nth_append)

lemma carries_spawn:
  "carries pre k words codes bufs f \<Longrightarrow> carries pre k words codes bufs (spawn_writer env i b start f)"
  by (simp add: carries_def)

end

interpretation sub_ks: sample_link sub_try_recv sub_send waiting retained ks_apply
  by unfold_locales

section \<open>What the other threads say\<close>

text \<open>
  The nonces the control threads draw over a run, and the words a master can be sent: the
  magic packet, acknowledgements and nonces.
\<close>

definition drawn :: "mt_event list \<Rightarrow> bytes set" where
  "drawn evs =
     (\<Union>ev \<in> set evs. case ev of EvControl t fill \<Rightarrow> {generate_nonce fill} | _ \<Rightarrow> {})"

definition master_words :: "bytes set \<Rightarrow> bytes set" where
  "master_words nonces = {MAGIC_PACKET, CHAIN_ACK} \<union> nonces"

lemma drawn_append [simp]: "drawn (xs @ ys) = drawn xs \<union> drawn ys"
  by (simp add: drawn_def)

lemma drawn_control [simp]: "drawn [EvControl t fill] = {generate_nonce fill}"
  by (simp add: drawn_def)

lemma drawn_none [simp]: "drawn [] = {}"
  by (simp add: drawn_def)

text \<open>The cipher a master's writer starts with: none without a key, else one for the key.\<close>

definition master_codes :: "'c master_env \<Rightarrow> 'c option \<Rightarrow> bool" where
  "master_codes env oc \<longleftrightarrow>
     (case env_key env of
        None \<Rightarrow> oc = None
      | Some kb \<Rightarrow> \<exists>nonce. oc = Some (env_cipher_new env kb nonce))"

lemma send_magic_whole:
  assumes "tx_script st = []"
  shows "send_magic cap m st = (Inr (), st\<lparr>tx := tx st @ m\<rparr>)"
proof -
  from buffered_send_ok [OF assms, of cap m] obtain p st1 where
    "buf_write_all cap m [] st = (Inr (), p, st1)" "flush_buf p st1 = (Inr (), [], st\<lparr>tx := tx st @ m\<rparr>)"
    by blast
  then show ?thesis by (simp add: send_magic_def buf_drop_def flush_buf_def)
qed

text \<open>A step of the control thread says one of its words, or nothing.\<close>

definition says :: "bytes set \<Rightarrow> tcp \<Rightarrow> tcp \<Rightarrow> bool" where
  "says words st st' \<longleftrightarrow>
     tx_script st' = [] \<and> (tx st' = tx st \<or> (\<exists>w \<in> words. tx st' = tx st @ w))"

lemma says_mono: "says words st st' \<Longrightarrow> words \<subseteq> words' \<Longrightarrow> says words' st st'"
  by (auto simp: says_def)

lemma exchange_says:
  assumes "server_nonce_exchange tcp_read tcp_write fill kb st = Some (r, st')" and "tx_script st = []"
  shows "says {generate_nonce fill} st st'"
proof -
  obtain res st1 where st1: "tcp_read_exact 12 st = (res, st1)" by (cases "tcp_read_exact 12 st")
  from tcp_read_exact_frame [OF st1] have "tx st1 = tx st" "tx_script st1 = tx_script st"
    by (metis tcp.select_convs(2,3) tcp.surjective tcp.update_convs(1))+
  with assms st1 show ?thesis
    by (cases res) (auto simp: server_nonce_exchange_def io_bind_def io_simps Let_def says_def)
qed

lemma control_step_says:
  assumes "control_step env r pc s = Some (pc', s')" and "tx_script (stream s) = []"
  shows "says (master_words {generate_nonce (draw r)}) (stream s) (stream s')"
proof (cases pc)
  case Ready
  obtain fl cmd s1 where b: "master_begin env r s = (fl, cmd, s1)" by (cases "master_begin env r s")
  note fr = master_begin_frame(4,5) [OF b]
  have ack: "stream (chain_ack s1) = (stream s1)\<lparr>tx := tx (stream s1) @ CHAIN_ACK\<rparr>"
    using assms(2) fr(2) by (simp add: chain_ack_def CHAIN_ACK_def Let_def)
  have "stream s' = stream s1 \<or> stream s' = (stream s1)\<lparr>tx := tx (stream s1) @ CHAIN_ACK\<rparr>"
  proof (cases "fl = Continue \<and> cmd \<noteq> None")
    case True
    then obtain buf where "cmd = Some buf" by blast
    with True b Ready assms(1) have "dispatch_step env buf s1 = (pc', s')"
      by (simp add: control_step_def round_step_def)
    with ack single_dispatch_stream [of s1] assms(2) fr(2) show ?thesis
      by (auto simp: dispatch_step_eq split: if_splits option.splits)
  next
    case False
    with b Ready assms(1) show ?thesis
      by (cases fl) (auto simp: control_step_def round_step_def)
  qed
  with fr assms(2) show ?thesis by (auto simp: says_def master_words_def)
next
  case Exchanging
  with assms(1) obtain kb where "exchange_step (draw r) kb s = Some (pc', s')"
    by (auto simp: control_step_def split: option.splits)
  then obtain res st where
    st: "server_nonce_exchange tcp_read tcp_write (draw r) kb (stream s) = Some (res, st)"
    and "stream s' = st"
    by (auto simp: exchange_step_def split: option.splits sum.splits prod.splits)
  with exchange_says [OF st assms(2)] show ?thesis by (auto simp: says_def master_words_def)
qed (use assms in \<open>auto simp: control_step_def store_step_def says_def split: option.splits\<close>)

section \<open>Over a run\<close>

context sample_link
begin

lemma carries_says:
  assumes "carries pre k words codes bufs f" and "i < length (conns f)"
    and "tx_script (conns f ! i) = [] \<Longrightarrow> says words (conns f ! i) st"
  shows "carries pre k words codes bufs (f\<lparr>conns := (conns f)[i := st]\<rparr>)"
proof (cases "w_conn (writers f ! k) = i")
  case True
  with assms carries_said [OF assms(1), of "f\<lparr>conns := (conns f)[i := st]\<rparr>"] show ?thesis
    by (simp add: says_def carries_def)
next
  case False
  with assms(1) show ?thesis by (simp add: carries_def)
qed

lemma carries_acceptor:
  assumes "carries pre k words codes bufs f" and "fanout_wf f"
  shows "carries pre k words codes bufs (acceptor_turn p n aenv env ex res f)"
  by (cases rule: acceptor_turn_cases [of p n aenv env ex res f])
    (auto intro!: carries_spawn intro: carries_grown [OF assms])

lemma carries_open:
  assumes "carries pre k words codes bufs (mt_fan s)" and "fanout_wf (mt_fan s)"
  shows "carries pre k words codes bufs (mt_fan (mt_open env tu conn s))"
  using assms(1)
  by (cases rule: mt_open_cases [of env tu conn s])
    (auto intro!: carries_spawn intro: carries_grown [OF assms])

lemma carries_control:
  assumes "carries pre k words codes bufs (mt_fan s)" and "i < length (conns (mt_fan s))"
    and "master_words {generate_nonce fill} \<subseteq> words"
  shows "carries pre k words codes bufs (mt_fan (mt_control_turn env t fill i c s))"
proof (cases "control_step (mt_master env) \<lparr>should_exit = mt_exit s, now = t, draw = fill\<rparr> (co_pc c)
    (mt_load i (co_state c) s)")
  case None
  with assms(1) show ?thesis by (simp add: mt_control_turn_def)
next
  case (Some st)
  then obtain pc m where st: "control_step (mt_master env) \<lparr>should_exit = mt_exit s, now = t, draw = fill\<rparr>
    (co_pc c) (mt_load i (co_state c) s) = Some (pc, m)" by (cases st) simp
  have "says words (conns (mt_fan s) ! i) (stream m)" if "tx_script (conns (mt_fan s) ! i) = []"
    using says_mono [OF control_step_says [OF st]] that assms(3) by (simp add: mt_load_def)
  with carries_says [OF assms(1,2), of "stream m"] st show ?thesis
    by (simp add: mt_control_turn_def mt_store_def set_conn_def)
qed

lemma carries_magic:
  assumes "carries pre k words codes bufs (mt_fan s)" and "i < length (conns (mt_fan s))"
    and "MAGIC_PACKET \<in> words"
  shows "carries pre k words codes bufs (mt_fan (mt_magic env tu i s))"
proof -
  obtain r st where st: "send_magic (unat (tcp_buffers (mt_args env))) MAGIC_PACKET (conns (mt_fan s) ! i) = (r, st)"
    by fastforce
  have "says words (conns (mt_fan s) ! i) st" if "tx_script (conns (mt_fan s) ! i) = []"
    using send_magic_whole [OF that] st that assms(3) by (auto simp: says_def)
  then have "carries pre k words codes bufs ((mt_fan s)\<lparr>conns := (conns (mt_fan s))[i := st']\<rparr>)"
    if "st' = st \<or> st' = snd (set_read_timeout ms st)" for st' ms
    using that by (intro carries_says [OF assms(1,2)]) (auto simp: says_def set_read_timeout_def)
  with st assms(1) show ?thesis
    by (auto simp: mt_magic_def set_conn_def mt_return_def master_start_def Let_def
        split: sum.splits)
qed

text \<open>
  Which cipher writer \<open>k\<close> may still start with: past its start the stored nonces do not
  matter to it any more.
\<close>

definition may_start :: "('c, 'rcvr) mt_env \<Rightarrow> nat \<Rightarrow> ('c option \<Rightarrow> bool) \<Rightarrow> ('c, 'rcvr) multi_threads \<Rightarrow> bool" where
  "may_start env k codes s \<longleftrightarrow>
     w_pc (writers (mt_fan s) ! k) \<noteq> Running AwaitingNonces \<or>
     (\<forall>kb my. env_key (mt_master env) = Some kb \<longrightarrow> codes (Some (env_cipher_new (mt_master env) kb my)))"

lemma carries_step:
  assumes "mt_step p n env ev s s'" and "mt_inv env s" and "mt_running s'"
    and "carries pre k words codes bufs (mt_fan s)"
    and "fe_try_recv (mt_fanout env) = try_recv_fn" and "fe_send (mt_fanout env) = send_fn"
    and "fe_apply_keystream (mt_fanout env) = apply_keystream"
    and "master_words (drawn [ev]) \<subseteq> words" and "may_start env k codes s"
  shows "carries pre k words codes (bufs @ batches [ev]) (mt_fan s')"
  using assms
proof (induction rule: mt_step.induct)
  case (mt_batch s bs)
  then show ?case by (simp add: mt_batch_def carries_broadcast)
next
  case (mt_acceptor s res)
  then show ?case by (simp add: mt_acceptor_def carries_acceptor mt_inv_def)
next
  case (mt_writer s j)
  have wf: "fanout_wf (mt_fan s)" using mt_writer(3) by (simp add: mt_inv_def)
  have j: "j < length (writers (mt_fan s))" using mt_writer(2) by (simp add: writer_enabled_def)
  show ?case
  proof (cases "j = k")
    case True
    have "codes (Some (env_cipher_new (mt_master env) kb my))"
      if "env_key (mt_master env) = Some kb" "w_pc (writers (mt_fan s) ! k) = Running AwaitingNonces" for kb my
      using that mt_writer(10) by (auto simp: may_start_def)
    from carries_turn [OF mt_writer(5) wf mt_writer(6,8) this] True show ?thesis
      by (simp add: mt_writer_def)
  next
    case False
    with carries_other_turn [OF mt_writer(5) wf False j] show ?thesis by (simp add: mt_writer_def)
  qed
next
  case (mt_control s i c t fill)
  then have "i < length (conns (mt_fan s))" by (auto simp: mt_inv_def mt_threads_ok_def)
  from carries_control [OF mt_control(6) this] mt_control(10) show ?case by simp
next
  case (mt_accept s tu)
  then have "fanout_wf (mt_fan s)" by (simp add: mt_inv_def)
  note opened = carries_open [OF mt_accept(4) this]
  show ?case
    using opened mt_accept(4) by (simp add: mt_accept_def split: sum.split prod.split)
next
  case (mt_magic s i tu)
  then have "i < length (conns (mt_fan s))" by (auto simp: mt_inv_def mt_threads_ok_def)
  from carries_magic [OF mt_magic(4) this] mt_magic(8) show ?case by (simp add: master_words_def)
next
  case (mt_join_reader s)
  then show ?case by (simp add: mt_join_reader_def mt_running_def split: if_splits)
qed (simp_all add: mt_signal_def mt_cancel_def mt_read_end_def mt_join_control_def mt_join_cancel_def
    Let_def)

lemma may_start_step:
  assumes "mt_step p n env ev s s'" and "may_start env k codes s" and "k < length (writers (mt_fan s))"
  shows "may_start env k codes s'"
  using assms
proof (induction rule: mt_step.induct)
  case (mt_acceptor s res)
  then show ?case
    by (cases rule: acceptor_turn_cases [of p n "multi_acceptor_env (mt_args env)" "mt_fanout env" "mt_exit s" res
        "mt_fan s"]) (auto simp: mt_acceptor_def may_start_def)
next
  case (mt_writer s j)
  then show ?case
    by (cases rule: writer_turn_cases [of "mt_fanout env" "env_cipher_new (mt_master env)"
        "env_key (mt_master env)" "mt_nonces s" "mt_exit s" j "mt_fan s"]; cases "j = k")
      (auto simp: mt_writer_def may_start_def update_writer_def release_if_ended_def
        dest: plain_round_result encrypting_round_result split: writer_pc.splits)
next
  case (mt_accept s tu)
  have "may_start env k codes (mt_open env tu conn s)" for conn
    using mt_accept(2,3)
    by (cases rule: mt_open_cases [of env tu conn s]) (auto simp: may_start_def)
  with mt_accept show ?case by (simp add: mt_accept_def may_start_def split: sum.split prod.split)
qed (simp_all add: may_start_def mt_signal_def mt_cancel_def mt_batch_def mt_read_end_def mt_control_turn_def
    mt_store_def mt_magic_def mt_join_control_def mt_join_cancel_def mt_join_reader_def set_conn_def
    mt_return_def broadcast_buffer_def shutdown_listed_def Let_def split: option.split prod.split sum.split)

lemma carries_run:
  assumes "mt_run p n env evs s s'" and "mt_inv env s" and "mt_running s'"
    and "carries pre k words codes bufs (mt_fan s)"
    and "fe_try_recv (mt_fanout env) = try_recv_fn" and "fe_send (mt_fanout env) = send_fn"
    and "fe_apply_keystream (mt_fanout env) = apply_keystream"
    and "master_words (drawn evs) \<subseteq> words" and "may_start env k codes s"
  shows "carries pre k words codes (bufs @ batches evs) (mt_fan s') \<and> may_start env k codes s'"
  using assms
proof (induction rule: runs.induct)
  case (runs_more evs s s' ev s'')
  have w: "master_words (drawn evs) \<subseteq> words" "master_words (drawn [ev]) \<subseteq> words"
    using runs_more(10) by (auto simp: master_words_def)
  then have c: "carries pre k words codes (bufs @ batches evs) (mt_fan s')" "may_start env k codes s'"
    using runs_more mt_step_running by blast+
  then have "k < length (writers (mt_fan s'))" by (simp add: carries_def)
  with carries_step [OF runs_more(2) mt.run_inv [OF runs_more(1,4)] runs_more(5) c(1) runs_more(7-9) w(2) c(2)]
    may_start_step [OF runs_more(2) c(2)]
  show ?case by (simp only: batches_append append_assoc simp_thms)
qed simp

text \<open>A master's writer starts with nothing sent and nothing received.\<close>

lemma carries_opened:
  assumes "length (writers (mt_fan (mt_accept p n env tu s))) = Suc (length (writers (mt_fan s)))"
    and "tu_accept tu = Inr (conn, addr)" and "tx conn = []" and "tx_script conn = []"
    and "pending (fe_subscribe (mt_fanout env)) = []" and "env_key (mt_master env) = None \<Longrightarrow> codes None"
  shows "carries [] (length (writers (mt_fan s))) words codes [] (mt_fan (mt_accept p n env tu s))"
proof -
  have eq: "mt_accept p n env tu s = mt_open env tu conn s"
    using assms(1,2) by (auto simp: mt_accept_def split: sum.splits if_splits)
  let ?start = "case env_key (mt_master env) of None \<Rightarrow> PlainWriter | Some kb \<Rightarrow> AwaitingNonces"
  have "code_state codes [] None (Running ?start)"
    using assms(6) by (simp add: code_state_def split: option.splits)
  then have "delivers [] words codes [] [] (Running ?start) []"
    by (rule delivers_nothing)
  then show ?thesis
    using assms(1,3-5) unfolding eq
    by (cases rule: mt_open_cases [of env tu conn s]) (simp_all add: carries_def spawn_writer_def)
qed

lemma carries_delivered:
  assumes "carries [] k words codes bufs f" and "codes some"
  shows "\<exists>zs said samples got enc. tx (conns f ! w_conn (writers f ! k)) = concat zs \<and>
    zs \<in> shuffles said samples \<and> set said \<subseteq> words \<and> codes enc \<and>
    concat samples = (case enc of None \<Rightarrow> concat got | Some c \<Rightarrow> fst (apply_keystream c (concat got))) \<and>
    map length samples = map length got \<and> subseq got bufs"
proof -
  from assms(1) have "delivers [] words codes bufs
      (tx (conns f ! w_conn (writers f ! k))) (w_pc (writers f ! k)) (pending (w_rcvr (writers f ! k)))"
    by (simp add: carries_def)
  then show ?thesis
  proof (cases rule: deliversE)
    case (1 zs said samples got enc)
    have "got = [] \<or> codes enc"
      using 1(7) by (auto simp: code_state_def split: writer_pc.splits writer_start.splits)
    then obtain enc' where enc': "codes enc'" "concat samples = coded enc' (concat got)"
      using 1(4) assms(2) by auto
    moreover have "subseq got bufs"
      using 1(6) by (metis prefixI prefix_imp_subseq subseq_order.trans)
    ultimately show ?thesis
      using 1(1-3,5) unfolding coded_def crypt_def append_Nil by blast
  qed
qed

text \<open>What is on the socket stays there.\<close>

lemma sent_grows:
  assumes "mt_run p n env evs s s'" and "mt_inv env s" and "mt_running s'"
    and "k < length (writers (mt_fan s))" and "tx_script (conns (mt_fan s) ! w_conn (writers (mt_fan s) ! k)) = []"
    and "fe_try_recv (mt_fanout env) = try_recv_fn" and "fe_send (mt_fanout env) = send_fn"
    and "fe_apply_keystream (mt_fanout env) = apply_keystream"
  shows "prefix (tx (conns (mt_fan s) ! w_conn (writers (mt_fan s) ! k)))
    (tx (conns (mt_fan s') ! w_conn (writers (mt_fan s') ! k)))"
proof -
  let ?w = "writers (mt_fan s) ! k"
  have "\<exists>enc. code_state (\<lambda>_. True) [] enc (w_pc ?w)"
    by (cases "w_pc ?w" rule: writer_pc.exhaust; rename_tac st; case_tac st)
      (auto simp: code_state_def advance_def)
  then have "carries (tx (conns (mt_fan s) ! w_conn ?w)) k (master_words (drawn evs)) (\<lambda>_. True)
      (pending (w_rcvr ?w)) (mt_fan s)"
    using assms(4,5) delivers_nothing by (auto simp: carries_def)
  from carries_run [OF assms(1-3) this assms(6-8) order.refl] show ?thesis
    by (auto simp: carries_def may_start_def elim!: deliversE)
qed

end

section \<open>Properties\<close>

lemma master_stream:
  assumes "broadcast_receiver (fe_try_recv (mt_fanout env)) (fe_send (mt_fanout env)) backlog capacity"
    and "stream_cipher (fe_apply_keystream (mt_fanout env))"
    and "backlog (fe_subscribe (mt_fanout env)) = []"
    and "mt_reachable p n env s0" and "mt_step p n env (EvAccept tu) s0 s"
    and "length (writers (mt_fan s)) = Suc (length (writers (mt_fan s0)))"
    and "tu_accept tu = Inr (conn, addr)" and "tx conn = []" and "tx_script conn = []"
    and "mt_run p n env evs s s'" and "mt_running s'"
  shows "\<exists>zs said samples got enc.
    tx (conns (mt_fan s') ! w_conn (writers (mt_fan s') ! length (writers (mt_fan s0)))) = concat zs \<and>
    zs \<in> shuffles said samples \<and> set said \<subseteq> master_words (drawn evs) \<and>
    master_codes (mt_master env) enc \<and>
    concat samples =
      (case enc of
         None \<Rightarrow> concat got
       | Some c \<Rightarrow> fst (fe_apply_keystream (mt_fanout env) c (concat got))) \<and>
    map length samples = map length got \<and> subseq got (batches evs)"
proof -
  let ?k = "length (writers (mt_fan s0))"
  have link: "sample_link (fe_try_recv (mt_fanout env)) (fe_send (mt_fanout env)) backlog capacity
      (fe_apply_keystream (mt_fanout env))"
    using assms(1,2) by (rule sample_link.intro)
  have inv: "mt_inv env s" using mt_step_inv [OF assms(5) mt_reachable_inv [OF assms(4)]] .
  have s: "s = mt_accept p n env tu s0" using assms(5) by (auto elim: mt_step.cases)
  have "master_codes (mt_master env) None" if "env_key (mt_master env) = None"
    using that by (simp add: master_codes_def)
  note start = sample_link.carries_opened [where codes = "master_codes (mt_master env)",
      OF link assms(6) [unfolded s] assms(7-9,3) this, folded s]
  obtain some where some: "master_codes (mt_master env) some"
    by (cases "env_key (mt_master env)") (auto simp: master_codes_def)
  have "sample_link.may_start env ?k (master_codes (mt_master env)) s"
    by (auto simp: sample_link.may_start_def [OF link] master_codes_def)
  from sample_link.carries_run [OF link assms(10) inv assms(11) start refl refl refl order.refl this]
  have "sample_link.carries backlog (fe_apply_keystream (mt_fanout env)) [] ?k (master_words (drawn evs))
      (master_codes (mt_master env)) (batches evs) (mt_fan s')" by simp
  from sample_link.carries_delivered [OF link this some] show ?thesis .
qed

text \<open>What a master has been sent at some point of a run is the beginning of what it is sent.\<close>

lemma mt_run_running: "mt_run p n env evs s s' \<Longrightarrow> mt_running s' \<Longrightarrow> mt_running s"
  by (induction rule: runs.induct) (auto dest: mt_step_running)

lemma master_sent_grows:
  assumes "broadcast_receiver (fe_try_recv (mt_fanout env)) (fe_send (mt_fanout env)) backlog capacity"
    and "stream_cipher (fe_apply_keystream (mt_fanout env))"
    and "backlog (fe_subscribe (mt_fanout env)) = []"
    and "mt_reachable p n env s0" and "mt_step p n env (EvAccept tu) s0 s"
    and "length (writers (mt_fan s)) = Suc (length (writers (mt_fan s0)))"
    and "tu_accept tu = Inr (conn, addr)" and "tx conn = []" and "tx_script conn = []"
    and "mt_run p n env evs s s1" and "mt_run p n env evs' s1 s'" and "mt_running s'"
  shows "prefix (tx (conns (mt_fan s1) ! w_conn (writers (mt_fan s1) ! length (writers (mt_fan s0)))))
    (tx (conns (mt_fan s') ! w_conn (writers (mt_fan s') ! length (writers (mt_fan s0)))))"
proof -
  let ?k = "length (writers (mt_fan s0))"
  have link: "sample_link (fe_try_recv (mt_fanout env)) (fe_send (mt_fanout env)) backlog capacity
      (fe_apply_keystream (mt_fanout env))"
    using assms(1,2) by (rule sample_link.intro)
  have inv: "mt_inv env s" using mt_step_inv [OF assms(5) mt_reachable_inv [OF assms(4)]] .
  have s: "s = mt_accept p n env tu s0" using assms(5) by (auto elim: mt_step.cases)
  note start = sample_link.carries_opened [where codes = "\<lambda>_. True",
      OF link assms(6) [unfolded s] assms(7-9,3) TrueI, folded s]
  have may: "sample_link.may_start env ?k (\<lambda>_. True) s" by (simp add: sample_link.may_start_def [OF link])
  note run = mt_run_running [OF assms(11,12)]
  from sample_link.carries_run [OF link assms(10) inv run start refl refl refl order.refl may]
  have "?k < length (writers (mt_fan s1))" "tx_script (conns (mt_fan s1) ! w_conn (writers (mt_fan s1) ! ?k)) = []"
    by (simp_all add: sample_link.carries_def [OF link])
  from sample_link.sent_grows [OF link assms(11) mt.run_inv [OF assms(10) inv] assms(12) this refl refl refl]
  show ?thesis .
qed

text \<open>
  C9. A master of multi-client mode, from its accepted socket on (one that takes what is
  written) and whatever the other clients and threads do, is sent an interleaving of two
  streams: the words of the main and the control thread (the magic packet, acknowledgements
  of probes, nonces), each whole, and the samples, each buffer whole, in the order the
  device delivered them and none twice. Without a key the samples are in clear; with a key
  all of them, from the first, are under one keystream of a cipher for that key, without a
  gap where buffers were dropped.
\<close>

theorem master_receives:
  assumes "broadcast_receiver (fe_try_recv (mt_fanout env)) (fe_send (mt_fanout env)) backlog capacity"
    and "stream_cipher (fe_apply_keystream (mt_fanout env))"
    and "backlog (fe_subscribe (mt_fanout env)) = []"
    and "mt_reachable p n env s0" and "mt_step p n env (EvAccept tu) s0 s"
    and "length (writers (mt_fan s)) = Suc (length (writers (mt_fan s0)))"
    and "tu_accept tu = Inr (conn, addr)" and "tx conn = []" and "tx_script conn = []"
    and "mt_run p n env evs s s'" and "mt_running s'"
  shows "\<exists>zs said samples got enc.
    tx (conns (mt_fan s') ! w_conn (writers (mt_fan s') ! length (writers (mt_fan s0)))) = concat zs \<and>
    zs \<in> shuffles said samples \<and> set said \<subseteq> master_words (drawn evs) \<and>
    master_codes (mt_master env) enc \<and>
    concat samples =
      (case enc of
         None \<Rightarrow> concat got
       | Some c \<Rightarrow> fst (fe_apply_keystream (mt_fanout env) c (concat got))) \<and>
    map length samples = map length got \<and> subseq got (batches evs)"
  using assms by (rule master_stream)

text \<open>
  The demonstration server after its first handshake, its writer holding the nonces, and
  the run that leads there from the acceptance of the master.
\<close>

definition demo_encrypted :: "((nat \<Rightarrow> u8) \<times> nat, subscription) multi_threads" where
  "demo_encrypted =
     demo_serving Ready demo_second ((MAGIC_PACKET @ [0xF0, 0, 0, 0, 0]) @ replicate 12 7) 1
       ([ChainProbe, PerformingHandshake] @ [ChainEstablished]) (Some demo_key_cipher) (Some demo_key_cipher)
       (Some (replicate 12 7, replicate 12 3)) (EncryptingWriter demo_key_cipher) (Some 0)"

lemma demo_handshake_run:
  "mt_run any_net everybody demo_mt_env
     [EvMagic demo_master, EvControl 1 demo_draw, EvControl 2 demo_draw, EvControl 3 demo_draw, EvWriter 0]
     (demo_at (SendingMagic 0) None demo_first [] AwaitingNonces None None) demo_encrypted"
proof -
  let ?at = "demo_at (SendingMagic 0) None demo_first [] AwaitingNonces None None"
  have "mt_step any_net everybody demo_mt_env (EvMagic demo_master) ?at
      (demo_serving Ready demo_first MAGIC_PACKET (- 50000000) [] None None None AwaitingNonces None)"
    unfolding demo_served [symmetric] by (rule mt_step.mt_magic) (simp add: demo_at_def)
  note r = mt.run_one [OF this]
  note r = mt.run_more [OF r demo_probe_step]
  note r = mt.run_more [OF r demo_exchange_step]
  note r = mt.run_more [OF r demo_store_step]
  note r = mt.run_more [OF r demo_lock_step]
  from r show ?thesis unfolding demo_encrypted_def by simp
qed

lemma demo_link_laws:
  "mt_master demo_mt_env = demo_master_env" "fe_apply_keystream (mt_fanout demo_mt_env) = ks_apply"
  "broadcast_receiver (fe_try_recv (mt_fanout demo_mt_env)) (fe_send (mt_fanout demo_mt_env)) waiting retained"
  "stream_cipher (fe_apply_keystream (mt_fanout demo_mt_env))"
  "waiting (fe_subscribe (mt_fanout demo_mt_env)) = []"
  using sub_rx.broadcast_receiver_axioms ks.stream_cipher_axioms
  by (simp_all add: demo_mt_env_def demo_fan_env_def sub_new_def)

lemma demo_first_master:
  "mt_reachable any_net everybody demo_mt_env (mt_begin demo_multi)"
  "mt_step any_net everybody demo_mt_env (EvAccept demo_master) (mt_begin demo_multi)
     (demo_at (SendingMagic 0) None demo_first [] AwaitingNonces None None)"
  "length (writers (mt_fan (demo_at (SendingMagic 0) None demo_first [] AwaitingNonces None None))) =
     Suc (length (writers (mt_fan (mt_begin demo_multi :: ((nat \<Rightarrow> u8) \<times> nat, subscription) multi_threads))))"
  "tu_accept demo_master = Inr (fresh_tcp demo_first, V4 10 0 0 1)"
  "tx (fresh_tcp demo_first) = []" "tx_script (fresh_tcp demo_first) = []"
proof -
  show "mt_reachable any_net everybody demo_mt_env (mt_begin demo_multi)"
    unfolding mt_reachable_def using demo_started mt.run_none by blast
  show "mt_step any_net everybody demo_mt_env (EvAccept demo_master) (mt_begin demo_multi)
     (demo_at (SendingMagic 0) None demo_first [] AwaitingNonces None None)"
    unfolding demo_accepted [symmetric] by (rule mt_step.mt_accept) (simp add: mt_begin_def)
qed (simp_all add: mt_begin_def demo_at_def demo_master_def fresh_tcp_def)

text \<open>Samples for the encrypted master.\<close>

definition demo_sampled :: "((nat \<Rightarrow> u8) \<times> nat, subscription) multi_threads" where
  "demo_sampled = mt_writer demo_mt_env 0 (mt_batch demo_mt_env [7, 8] demo_encrypted)"

lemma demo_sampling:
  "mt_run any_net everybody demo_mt_env
     ([EvMagic demo_master, EvControl 1 demo_draw, EvControl 2 demo_draw, EvControl 3 demo_draw, EvWriter 0] @ [EvBatch [7, 8]] @ [EvWriter 0])
     (demo_at (SendingMagic 0) None demo_first [] AwaitingNonces None None) demo_sampled"
  "mt_running demo_sampled"
proof -
  let ?b = "mt_batch demo_mt_env [7, 8] demo_encrypted"
  have run: "mt_running demo_encrypted" "mt_reading demo_encrypted" "mt_running ?b"
    "writer_enabled (mt_nonces ?b) 0 (mt_fan ?b)"
    by (simp_all add: demo_encrypted_def demo_defs mt_running_def mt_batch_def broadcast_buffer_def
        writer_enabled_def)
  then show "mt_running demo_sampled" by (simp add: demo_sampled_def mt_writer_def mt_running_def)
  note r = mt.run_more [OF demo_handshake_run mt_step.mt_batch [OF run(1,2), where bs = "[7, 8]"]]
  from mt.run_more [OF r mt_step.mt_writer [OF run(3,4)]]
  show "mt_run any_net everybody demo_mt_env
     ([EvMagic demo_master, EvControl 1 demo_draw, EvControl 2 demo_draw, EvControl 3 demo_draw, EvWriter 0] @ [EvBatch [7, 8]] @ [EvWriter 0])
     (demo_at (SendingMagic 0) None demo_first [] AwaitingNonces None None) demo_sampled"
    by (simp add: demo_sampled_def)
qed

lemma demo_sampled_tx:
  "tx (conns (mt_fan demo_sampled) ! w_conn (writers (mt_fan demo_sampled) ! 0)) =
     MAGIC_PACKET @ [0xF0, 0, 0, 0, 0] @ replicate 12 7 @ fst (ks_apply demo_key_cipher [7, 8])"
  by (simp add: demo_sampled_def demo_encrypted_def demo_defs mt_writer_def mt_batch_def broadcast_buffer_def
      writer_turn_def encrypting_round_def demo_mt_env_def demo_fan_env_def sub_send_def sub_try_recv_def sub_new_def
      update_writer_def release_if_ended_def ks.encrypted_write_all_whole ks.crypt_def DEFAULT_BROADCAST_CAPACITY_def
      Let_def split: prod.split option.split)

theorem master_receives_witness:
  "\<exists>zs said samples got enc.
     tx (conns (mt_fan demo_sampled) ! w_conn (writers (mt_fan demo_sampled) ! 0)) = concat zs \<and>
     zs \<in> shuffles said samples \<and> set said \<subseteq> master_words {replicate 12 7} \<and>
     master_codes demo_master_env enc \<and>
     concat samples = (case enc of None \<Rightarrow> concat got | Some c \<Rightarrow> fst (ks_apply c (concat got))) \<and>
     map length samples = map length got \<and> subseq got [[7, 8]]"
  using master_receives [OF demo_link_laws(3-5) demo_first_master demo_sampling, unfolded demo_link_laws(1,2)]
  by (simp add: mt_begin_def drawn_def generate_nonce_def)

end
