(* ===== verification/Server_Refinement.thy ===== *)
theory Server_Refinement
  imports Server_Spec Serve_Single Master_Stream
begin

text \<open>
  Both serve modes of \<open>src/main.rs\<close>, in every interleaving of their threads, implement the
  abstract server (\<open>Server_Spec\<close>): the simulations of single-client and of multi-client
  mode.
\<close>

section \<open>The control thread's steps\<close>

lemma control_step_told:
  assumes "control_step env r pc s = Some (pc', s')" and "\<not> m_poisoned (ctl s)"
  shows "told_nothing s s' \<or> (\<exists>c. told c s s')"
proof (cases pc)
  case Ready
  obtain fl cmd s1 where b: "master_begin env r s = (fl, cmd, s1)" by (cases "master_begin env r s")
  note fr = master_begin_frame(1,2) [OF b]
  have ack: "told ChainDetect s1 (chain_ack s1)" using assms(2) fr(1) by (simp add: told_commands)
  have log: "told c s1 (add_log e t) = told c s1 t" for c e and t :: "'a master_state"
    by (simp add: told_def)
  have "told_nothing s1 s' \<or> (\<exists>c. told c s1 s')"
  proof (cases "fl = Continue \<and> cmd \<noteq> None")
    case True
    then obtain buf where "cmd = Some buf" by blast
    with True b Ready assms(1) have "dispatch_step env buf s1 = (pc', s')"
      by (simp add: control_step_def round_step_def)
    with ack log dispatch_told [of s1 buf] assms(2) fr(1) show ?thesis
      by (fastforce simp: dispatch_step_eq split: if_splits option.splits)
  next
    case False
    with b Ready assms(1) have "s' = s1 \<or> s' = add_log ControlThreadExiting s1"
      by (cases fl) (auto simp: control_step_def round_step_def)
    then show ?thesis by (auto simp: told_nothing_def)
  qed
  with fr show ?thesis by (simp add: told_nothing_def told_def cong: option.case_cong)
next
  case Exchanging
  with assms(1) obtain key where "exchange_step (draw r) key s = Some (pc', s')"
    by (auto simp: control_step_def split: option.splits)
  then show ?thesis
    by (auto simp: exchange_step_def told_nothing_def split: option.splits sum.splits prod.splits)
qed (use assms in \<open>auto simp: control_step_def store_step_def told_nothing_def split: option.splits\<close>)

section \<open>Single-client mode\<close>

definition single_view :: "serve_state \<Rightarrow> server_view" where
  "single_view s =
     \<lparr>sv_calls = m_data (ctl (serve_ctl s)), sv_agc = enabled (agc_st (serve_ctl s)),
      sv_asked = (slot s \<or> cancelled s), sv_stopped = cancelled s,
      sv_outcome =
        (case phase s of
           Returned r \<Rightarrow> Some (case r of Inl e \<Rightarrow> ErrorEnd e | Inr _ \<Rightarrow> CleanEnd)
         | _ \<Rightarrow> None)\<rparr>"

definition single_action :: "serve_event \<Rightarrow> server_action \<Rightarrow> bool" where
  "single_action ev a \<longleftrightarrow>
     (case ev of
        Signal \<Rightarrow> a = AskStop
      | Cancel \<Rightarrow> a = StopDevice
      | Magic \<Rightarrow> a = Stutter \<or> (\<exists>e. a = Conclude (ErrorEnd e))
      | Batch bs \<Rightarrow> a = Stutter \<or> a = AskStop
      | ReadEnd \<Rightarrow> a = AskStop
      | ControlRound t \<Rightarrow> a = Stutter \<or> (\<exists>c. a = Perform c)
      | Join \<Rightarrow> a = Conclude CleanEnd)"

lemma single_running: "sv_outcome (single_view s) = None \<longleftrightarrow> running s"
  by (simp add: single_view_def running_def split: phase.splits)

lemma single_view_updates [simp]:
  "single_view (set_socket st s) = single_view s"
  "single_view (s\<lparr>pending := p\<rparr>) = single_view s"
  "single_view (s\<lparr>total_bytes_sent := n\<rparr>) = single_view s"
  "single_view (snd (try_send s)) = (single_view s)\<lparr>sv_asked := True\<rparr>"
  by (auto simp: single_view_def set_socket_def try_send_def)

lemma single_control_refines:
  assumes "running s" and "serve_inv s"
  shows "\<exists>a. single_action (ControlRound t) a \<and> server_step a (single_view s) (single_view (on_control env t s))"
proof -
  obtain fl c where c: "single_round (serve_dev_ok env) \<lparr>should_exit = exit_flag s, now = t\<rparr>
      ((serve_ctl s)\<lparr>stream := socket s\<rparr>) = (fl, c)" by fastforce
  have view: "single_view (on_control env t s) =
      (single_view s)\<lparr>sv_calls := m_data (ctl c), sv_agc := enabled (agc_st c)\<rparr>"
    using c by (cases fl) (simp_all add: on_control_def single_view_def)
  from single_round_told [OF c] assms(2) have
    "told_nothing (serve_ctl s) c \<or> (\<exists>cmd. told cmd (serve_ctl s) c)"
    by (simp add: serve_inv_def told_def told_nothing_def cong: option.case_cong)
  then show ?thesis
  proof (elim disjE exE)
    assume "told_nothing (serve_ctl s) c"
    then have "single_view (on_control env t s) = single_view s"
      by (simp add: view told_nothing_def) (simp add: single_view_def)
    with assms(1) show ?thesis
      by (intro exI [of _ Stutter]) (simp add: single_action_def single_running)
  next
    fix cmd assume "told cmd (serve_ctl s) c"
    then have "single_view (on_control env t s) = perform cmd (single_view s)"
      by (simp add: view told_def perform_def) (simp add: single_view_def cong: option.case_cong)
    with assms(1) show ?thesis
      by (intro exI [of _ "Perform cmd"]) (simp add: single_action_def single_running)
  qed
qed

lemma single_step_refines:
  assumes "serve_step env ev s s'" and "serve_inv s"
  shows "\<exists>a. single_action ev a \<and> server_step a (single_view s) (single_view s')"
  using assms
proof (induction rule: serve_step.induct)
  case (step_signal s)
  have "single_view (on_signal s) = (single_view s)\<lparr>sv_asked := True\<rparr>"
    by (auto simp: on_signal_def try_send_def Let_def single_view_def set_socket_def)
  with step_signal show ?case
    by (intro exI [of _ AskStop]) (simp add: single_action_def single_running)
next
  case (step_cancel s)
  then have "single_view (on_cancel s) = stop_device (single_view s)" "sv_asked (single_view s)"
    "\<not> sv_stopped (single_view s)"
    by (simp_all add: on_cancel_def single_view_def stop_device_def serve_inv_def Let_def)
  with step_cancel show ?case
    by (intro exI [of _ StopDevice]) (simp add: single_action_def single_running)
next
  case (step_magic s)
  then have "single_view (on_magic env s) = single_view s \<or>
      (\<exists>e. single_view (on_magic env s) = (single_view s)\<lparr>sv_outcome := Some (ErrorEnd e)\<rparr>)"
    by (auto simp: on_magic_def split: prod.splits sum.splits) (simp_all add: single_view_def)
  moreover have "running s" using step_magic by (simp add: running_def)
  ultimately show ?case
    by (auto simp: single_action_def single_running intro: exI [of _ Stutter] exI [of _ "Conclude (ErrorEnd e)" for e])
next
  case (step_batch s bs)
  then have "single_view (on_batch env bs s) = single_view s \<or>
      single_view (on_batch env bs s) = (single_view s)\<lparr>sv_asked := True\<rparr>"
    by (auto simp: on_batch_def Let_def split: prod.splits sum.splits)
  moreover have "running s" using step_batch by (simp add: running_def)
  ultimately show ?case
    by (auto simp: single_action_def single_running intro: exI [of _ Stutter] exI [of _ AskStop])
next
  case (step_read_end s)
  then have "single_view (on_read_end s) = (single_view s)\<lparr>sv_asked := True\<rparr>" "running s"
    by (auto simp: on_read_end_def try_send_def single_view_def running_def)
  then show ?case by (intro exI [of _ AskStop]) (simp add: single_action_def single_running)
next
  case (step_control s t)
  then show ?case by (intro single_control_refines)
next
  case (step_join s)
  then have "single_view (on_join s) = (single_view s)\<lparr>sv_outcome := Some CleanEnd\<rparr>" "running s"
    "sv_stopped (single_view s)"
    by (simp_all add: on_join_def set_socket_def single_view_def running_def)
  then show ?case by (intro exI [of _ "Conclude CleanEnd"]) (simp add: single_action_def single_running)
qed

interpretation single_impl: refinement "serve_step env" serve_inv server_step single_view single_action for env
  by unfold_locales (rule single_step_refines)

section \<open>Multi-client mode\<close>

definition multi_view :: "('c, 'rcvr) multi_threads \<Rightarrow> server_view" where
  "multi_view s =
     \<lparr>sv_calls = m_data (mt_ctl s), sv_agc = enabled (mt_agc s),
      sv_asked = (mt_slot s \<or> mt_cancelled s), sv_stopped = mt_cancelled s,
      sv_outcome =
        (case mt_main s of
           MainReturned r \<Rightarrow> Some (case r of Inl e \<Rightarrow> ErrorEnd e | Inr _ \<Rightarrow> CleanEnd)
         | MainPanicked \<Rightarrow> Some PanicEnd
         | _ \<Rightarrow> None)\<rparr>"

definition multi_action :: "mt_event \<Rightarrow> server_action \<Rightarrow> bool" where
  "multi_action ev a \<longleftrightarrow>
     (case ev of
        EvSignal \<Rightarrow> a = AskStop
      | EvCancel \<Rightarrow> a = StopDevice
      | EvControl t fill \<Rightarrow> a = Stutter \<or> (\<exists>c. a = Perform c)
      | EvAccept tu \<Rightarrow> a = Stutter \<or> a = AskStop \<or> (\<exists>r. a = Conclude r \<and> r \<noteq> CleanEnd)
      | EvMagic tu \<Rightarrow> a = Stutter \<or> (\<exists>e. a = Conclude (ErrorEnd e))
      | EvJoinControl \<Rightarrow> a = Stutter \<or> a = AskStop
      | EvJoinReader \<Rightarrow> a = Conclude CleanEnd \<or> a = Conclude PanicEnd
      | _ \<Rightarrow> a = Stutter)"

lemma multi_running: "sv_outcome (multi_view s) = None \<longleftrightarrow> mt_running s"
  by (simp add: multi_view_def mt_running_def split: main_pc.splits)

lemma multi_view_updates [simp]:
  "multi_view (s\<lparr>mt_fan := f\<rparr>) = multi_view s"
  "multi_view (s\<lparr>mt_reading := b\<rparr>) = multi_view s"
  "multi_view (s\<lparr>mt_exit := b\<rparr>) = multi_view s"
  "multi_view (s\<lparr>mt_control := c\<rparr>) = multi_view s"
  "multi_view (set_conn i st s) = multi_view s"
  "multi_view (mt_try_send s) = (multi_view s)\<lparr>sv_asked := True\<rparr>"
  "multi_view (mt_return r s) =
     (multi_view s)\<lparr>sv_outcome := Some (case r of Inl e \<Rightarrow> ErrorEnd e | Inr _ \<Rightarrow> CleanEnd)\<rparr>"
  by (auto simp: multi_view_def set_conn_def mt_try_send_def mt_return_def)

text \<open>A step that only moves the main thread between places where it runs.\<close>

lemma multi_view_main:
  assumes "mt_running s" and "mt_running (s\<lparr>mt_main := pc\<rparr>)"
  shows "multi_view (s\<lparr>mt_main := pc\<rparr>) = multi_view s"
proof -
  have "sv_outcome (multi_view (s\<lparr>mt_main := pc\<rparr>)) = sv_outcome (multi_view s)"
    using assms by (simp add: multi_running [symmetric])
  then show ?thesis by (simp add: multi_view_def)
qed

lemma multi_control_refines:
  assumes "mt_running s" and "mt_inv env s"
  shows "\<exists>a. multi_action (EvControl t fill) a \<and>
    server_step a (multi_view s) (multi_view (mt_control_turn env t fill i c s))"
proof (cases "control_step (mt_master env) \<lparr>should_exit = mt_exit s, now = t, draw = fill\<rparr> (co_pc c)
    (mt_load i (co_state c) s)")
  case None
  with assms(1) show ?thesis
    by (intro exI [of _ Stutter]) (simp add: multi_action_def mt_control_turn_def multi_running)
next
  case (Some r)
  then obtain pc m where st: "control_step (mt_master env) \<lparr>should_exit = mt_exit s, now = t, draw = fill\<rparr>
      (co_pc c) (mt_load i (co_state c) s) = Some (pc, m)" by (cases r) auto
  have "\<not> m_poisoned (ctl (mt_load i (co_state c) s))"
    using assms(2) by (simp add: mt_load_def mt_inv_def mt_device_ok_def)
  note t = control_step_told [OF st this]
  have view: "multi_view (mt_control_turn env t fill i c s) =
      (multi_view s)\<lparr>sv_calls := m_data (ctl m), sv_agc := enabled (agc_st m)\<rparr>"
    by (simp add: mt_control_turn_def st mt_store_def set_conn_def multi_view_def)
  from t show ?thesis
  proof (elim disjE exE)
    assume "told_nothing (mt_load i (co_state c) s) m"
    then have "multi_view (mt_control_turn env t fill i c s) = multi_view s"
      by (simp add: view told_nothing_def mt_load_def) (simp add: multi_view_def)
    with assms(1) show ?thesis
      by (intro exI [of _ Stutter]) (simp add: multi_action_def multi_running)
  next
    fix cmd assume "told cmd (mt_load i (co_state c) s) m"
    then have "multi_view (mt_control_turn env t fill i c s) = perform cmd (multi_view s)"
      by (simp add: view told_def perform_def mt_load_def) (simp add: multi_view_def cong: option.case_cong)
    with assms(1) show ?thesis
      by (intro exI [of _ "Perform cmd"]) (simp add: multi_action_def multi_running)
  qed
qed

lemma multi_open_refines:
  assumes "mt_running s"
  shows "\<exists>a. multi_action (EvAccept tu) a \<and> server_step a (multi_view s) (multi_view (mt_open env tu conn s))"
proof (cases rule: mt_open_cases [of env tu conn s])
  case (out r)
  then obtain q where "multi_view (mt_open env tu conn s) = (multi_view s)\<lparr>sv_outcome := Some q\<rparr>" "q \<noteq> CleanEnd"
    by (auto simp: multi_view_def)
  with assms show ?thesis
    by (intro exI [of _ "Conclude q"]) (simp add: multi_action_def multi_running)
next
  case (listed_only e st)
  then have "multi_view (mt_open env tu conn s) = (multi_view s)\<lparr>sv_outcome := Some (ErrorEnd e)\<rparr>"
    by (simp add: multi_view_def)
  with assms show ?thesis
    by (intro exI [of _ "Conclude (ErrorEnd e)"]) (simp add: multi_action_def multi_running)
next
  case (opened st)
  with assms multi_view_main [of "s\<lparr>mt_fan := f\<rparr>" for f] show ?thesis
    by (intro exI [of _ Stutter]) (simp add: multi_action_def multi_running mt_running_def)
qed

lemma multi_magic_view:
  assumes "mt_main s = SendingMagic i"
  shows "multi_view (mt_magic env tu i s) = multi_view s \<or>
    (\<exists>e. multi_view (mt_magic env tu i s) = (multi_view s)\<lparr>sv_outcome := Some (ErrorEnd e)\<rparr>)"
  using assms
  by (auto simp: mt_magic_def Let_def mt_return_def set_conn_def split: prod.splits sum.splits)
    (simp_all add: multi_view_def)

lemma multi_step_refines:
  assumes "mt_step p n env ev s s'" and "mt_inv env s"
  shows "\<exists>a. multi_action ev a \<and> server_step a (multi_view s) (multi_view s')"
  using assms
proof (induction rule: mt_step.induct)
  case (mt_signal s)
  then show ?case
    by (intro exI [of _ AskStop]) (simp add: multi_action_def mt_signal_def multi_running)
next
  case (mt_cancel s)
  then have "multi_view (mt_cancel s) = stop_device (multi_view s)" "sv_asked (multi_view s)"
    "\<not> sv_stopped (multi_view s)"
    by (simp_all add: mt_cancel_def cancel_device_def multi_view_def stop_device_def mt_inv_def mt_device_ok_def)
  with mt_cancel show ?case
    by (intro exI [of _ StopDevice]) (simp add: multi_action_def multi_running)
next
  case (mt_control s i c t fill)
  then have "mt_running s" by (simp add: mt_running_def)
  with mt_control show ?case by (intro multi_control_refines)
next
  case (mt_accept s tu)
  then have run: "mt_running s" by (simp add: mt_running_def)
  have stop: "multi_view (mt_stop s) = (multi_view s)\<lparr>sv_asked := True\<rparr>"
    using mt_accept by (auto simp: mt_stop_def mt_try_send_def multi_view_def)
  from run multi_open_refines [OF run] show ?case
    by (auto simp: mt_accept_def multi_action_def multi_running stop
        intro: exI [of _ Stutter] exI [of _ AskStop] exI [of _ "Conclude (ErrorEnd e)" for e]
        split: sum.split prod.split)
next
  case (mt_magic s i tu)
  then have "mt_running s" by (simp add: mt_running_def)
  with multi_magic_view [OF mt_magic(1), of env tu] show ?case
    by (auto simp: multi_action_def multi_running intro: exI [of _ Stutter] exI [of _ "Conclude (ErrorEnd e)" for e])
next
  case (mt_join_control s i c)
  then have "mt_running s" "multi_view (mt_join_control s) = multi_view s \<or>
      multi_view (mt_join_control s) = (multi_view s)\<lparr>sv_asked := True\<rparr>"
    by (auto simp: mt_running_def mt_join_control_def mt_stop_def mt_try_send_def multi_view_def Let_def)
  then show ?case
    by (auto simp: multi_action_def multi_running intro: exI [of _ Stutter] exI [of _ AskStop])
next
  case (mt_join_cancel s)
  then have "mt_running s" "multi_view (mt_join_cancel s) = multi_view s"
    by (simp_all add: mt_running_def mt_join_cancel_def multi_view_def)
  then show ?case by (intro exI [of _ Stutter]) (simp add: multi_action_def multi_running)
next
  case (mt_join_reader s)
  then have run: "mt_running s" and stopped: "sv_stopped (multi_view s)"
    by (simp_all add: mt_running_def multi_view_def mt_inv_def mt_stop_ok_def)
  let ?r = "if m_poisoned (listed (mt_fan s)) then PanicEnd else CleanEnd"
  have "multi_view (mt_join_reader s) = (multi_view s)\<lparr>sv_outcome := Some ?r\<rparr>"
    by (simp add: mt_join_reader_def multi_view_def)
  with run stopped show ?case
    by (intro exI [of _ "Conclude ?r"]) (simp add: multi_action_def multi_running)
qed (simp_all add: multi_action_def multi_running mt_batch_def mt_read_end_def mt_acceptor_def mt_writer_def)

lemma multi_begin_view: "mt_started env m \<Longrightarrow> multi_view (mt_begin m) = server_start"
  by (drule mt_started_fresh)
    (simp add: multi_view_def mt_begin_def server_start_def agc_new_def agc_default_def)

interpretation multi_impl: refinement "mt_step p n env" "mt_inv env" server_step multi_view multi_action
  for p n env
  by unfold_locales (rule multi_step_refines)

section \<open>Properties\<close>

text \<open>
  C2. Single-client mode implements the abstract server: to every interleaving of its threads
  there is a sequence of abstract actions, one for each step (a signal asks for the stop, the
  cancel thread stops the device, a round of the control thread performs a command or does
  nothing, the end comes last), that starts with an untouched device and ends in what the
  device was told, the AGC setting on record and the state of the shutdown. So the device is
  told what the commands performed come to, in their order, and is stopped at most once.
\<close>

theorem single_refines_server:
  assumes "serve_run env evs (serve_begin st t t') s"
  shows "\<exists>as. list_all2 single_action evs as \<and> runs server_step as server_start (single_view s) \<and>
    filter (\<lambda>d. d \<noteq> CancelAsyncRead) (m_data (ctl (serve_ctl s))) =
      concat (map command_calls (performed as)) \<and> server_ok (single_view s)"
proof -
  have "single_view (serve_begin st t t') = server_start"
    by (simp add: single_view_def serve_begin_def server_start_def agc_new_def agc_default_def)
  with single_impl.run_refines [OF assms serve_begin_inv] obtain as where
    as: "list_all2 single_action evs as" "runs server_step as server_start (single_view s)" by auto
  with server_reachable [OF as(2)] show ?thesis by (auto simp: single_view_def)
qed

theorem single_refines_server_witness:
  "\<exists>as. list_all2 single_action [Magic, ControlRound 1, Signal] as \<and>
    runs server_step as server_start (single_view demo_stopped) \<and>
    filter (\<lambda>d. d \<noteq> CancelAsyncRead) (m_data (ctl (serve_ctl demo_stopped))) =
      concat (map command_calls (performed as)) \<and> server_ok (single_view demo_stopped)"
  by (rule single_refines_server [OF demo_run [unfolded demo_begin_def]])

text \<open>
  C1. Multi-client mode implements the same abstract server, whatever the masters, the
  slaves and the threads do: every step is one of its actions or none, and only the master's
  control thread performs commands, only the cancel thread stops the device, and only the
  main thread, after the cancel thread, comes to a clean end.
\<close>

theorem multi_refines_server:
  assumes "mt_started env m" and "mt_run p n env evs (mt_begin m) s"
  shows "\<exists>as. list_all2 multi_action evs as \<and> runs server_step as server_start (multi_view s) \<and>
    filter (\<lambda>d. d \<noteq> CancelAsyncRead) (m_data (mt_ctl s)) =
      concat (map command_calls (performed as)) \<and> server_ok (multi_view s)"
proof -
  from multi_impl.run_refines [OF assms(2) mt_begin_inv [OF assms(1)]] obtain as where
    as: "list_all2 multi_action evs as" "runs server_step as server_start (multi_view s)"
    by (auto simp: multi_begin_view [OF assms(1)])
  with server_reachable [OF as(2)] show ?thesis by (auto simp: multi_view_def)
qed

theorem multi_refines_server_witness:
  "let s = mt_cancel (mt_signal demo_encrypted);
       evs = [EvAccept demo_master, EvMagic demo_master, EvControl 1 demo_draw, EvControl 2 demo_draw, EvControl 3 demo_draw,
              EvWriter 0, EvSignal, EvCancel]
   in \<exists>as. list_all2 multi_action evs as \<and> runs server_step as server_start (multi_view s) \<and>
        filter (\<lambda>d. d \<noteq> CancelAsyncRead) (m_data (mt_ctl s)) =
          concat (map command_calls (performed as)) \<and> server_ok (multi_view s)"
proof -
  let ?at = "demo_at (SendingMagic 0) None demo_first [] AwaitingNonces None None"
  have "mt_step any_net everybody demo_mt_env (EvAccept demo_master) (mt_begin demo_multi) ?at"
    unfolding demo_accepted [symmetric] by (rule mt_step.mt_accept) (simp add: mt_begin_def)
  note r = runs_Cons [where step = "mt_step any_net everybody demo_mt_env", OF this demo_handshake_run]
  have run: "mt_running demo_encrypted" "mt_running (mt_signal demo_encrypted)"
    "mt_slot (mt_signal demo_encrypted)" "\<not> mt_cancelled (mt_signal demo_encrypted)"
    by (simp_all add: demo_encrypted_def demo_defs mt_running_def mt_signal_def mt_try_send_def)
  note r = mt.run_more [OF r mt_step.mt_signal [OF run(1)]]
  note r = mt.run_more [OF r mt_step.mt_cancel [OF run(2-4)]]
  from multi_refines_server [OF demo_started r] show ?thesis unfolding Let_def by simp
qed

end
