(* ===== verification/Stale_Nonces.thy ===== *)
theory Stale_Nonces
  imports Master_Stream
begin

text \<open>
  Where the nonces of multi-client mode (\<open>encryption_nonces\<close> of \<open>run_serve_multi\<close>) come
  from: the control thread of a master draws one in the handshake and stores it, nobody ever
  clears it, and the writer of the next master starts with what it finds. Nonces are named by
  the events that drew them, so that a nonce of an earlier session is one drawn before the
  master was accepted.
\<close>

section \<open>Every nonce was drawn in a handshake\<close>








section \<open>The writer of the next master\<close>









end
