(* ===== verification/Proxy.thy ===== *)
theory Proxy
  imports Errors Control Encryption
begin

text \<open>
  The upstream side of the proxy (\<open>src/proxy.rs\<close>): connecting, reading the magic
  packet, probing for a chain and, with a key, the nonce exchange. Opening the connection is
  an argument: \<open>connect\<close> gives the stream of an address or the error.
\<close>

record 'c upstream_connection =
  up_stream :: tcp
  is_chain :: bool
  up_read_cipher :: "'c option"
  up_write_cipher :: "'c option"
  magic_packet :: bytes

definition chain_probe :: bytes where
  "chain_probe = [CMD_CHAIN_DETECT, 0x50, 0x52, 0x4F, 0x58]"

text \<open>The answer to the probe: anything but five bytes that start with the opcode is plain.\<close>

definition read_chain_ack :: "tcp \<Rightarrow> rtl_tcp_error + (bool \<times> tcp)" where
  "read_chain_ack s =
     (case tcp_read_exact 5 s of
        (res, s') \<Rightarrow>
          if (case res of Inr ack \<Rightarrow> ack ! 0 = CMD_CHAIN_DETECT | Inl e \<Rightarrow> False)
          then Inr (True, s')
          else (case set_read_timeout 30000 s' of
                  (Inl e, _) \<Rightarrow> Inl (Io e)
                | (Inr _, s'') \<Rightarrow> Inr (False, s'')))"

text \<open>The key with the two nonces, when the link is to be encrypted.\<close>

definition negotiate ::
  "(nat \<Rightarrow> bytes) \<Rightarrow> bytes option \<Rightarrow> bool \<Rightarrow> tcp \<Rightarrow>
   (rtl_tcp_error + (bytes \<times> bytes \<times> bytes) option \<times> tcp) option" where
  "negotiate fill key chain s =
     (if chain
      then (case key of
              Some enc_key \<Rightarrow>
                (case nonce_exchange tcp_read tcp_write fill enc_key s of
                   None \<Rightarrow> None
                 | Some (Inl e, _) \<Rightarrow>
                     Some (Inl (Network (''nonce exchange failed: '' @ err_msg e)))
                 | Some (Inr (my_nonce, peer_nonce), s') \<Rightarrow>
                     Some (Inr (Some (enc_key, my_nonce, peer_nonce), s')))
            | None \<Rightarrow> Some (Inr (None, s)))
      else Some (Inr (None, s)))"

definition finish_connection ::
  "(bytes \<Rightarrow> bytes \<Rightarrow> 'c) \<Rightarrow> bytes \<Rightarrow> bool \<Rightarrow> (bytes \<times> bytes \<times> bytes) option \<Rightarrow> tcp \<Rightarrow>
   rtl_tcp_error + 'c upstream_connection" where
  "finish_connection cipher_new magic chain encryption_key s =
     (case set_read_timeout 30000 s of
        (Inl e, _) \<Rightarrow> Inl (Io e)
      | (Inr _, s') \<Rightarrow>
          (let ciphers =
             (case encryption_key of
                Some (enc_key, my_nonce, peer_nonce) \<Rightarrow>
                  (Some (cipher_new enc_key peer_nonce), Some (cipher_new enc_key my_nonce))
              | None \<Rightarrow> (None, None))
           in Inr \<lparr>up_stream = s', is_chain = chain, up_read_cipher = fst ciphers,
                   up_write_cipher = snd ciphers, magic_packet = magic\<rparr>))"

definition connect_upstream ::
  "(string \<Rightarrow> io_error + tcp) \<Rightarrow> (bytes \<Rightarrow> bytes \<Rightarrow> 'c) \<Rightarrow> (nat \<Rightarrow> bytes) \<Rightarrow>
   string \<Rightarrow> u16 \<Rightarrow> bytes option \<Rightarrow> nat \<Rightarrow> (rtl_tcp_error + 'c upstream_connection) option" where
  "connect_upstream connect cipher_new fill host port key timeout =
     (let addr = host @ '':'' @ show_nat (unat port)
      in case connect addr of
        Inl e \<Rightarrow> Some (Inl (Network (''failed to connect upstream: '' @ err_msg e)))
      | Inr s0 \<Rightarrow>
        (case set_read_timeout timeout s0 of
           (Inl e, _) \<Rightarrow> Some (Inl (Io e))
         | (Inr _, s1) \<Rightarrow>
        (case tcp_read_exact 12 s1 of
           (Inl e, _) \<Rightarrow> Some (Inl (Network (''failed to read upstream magic: '' @ err_msg e)))
         | (Inr magic, s2) \<Rightarrow>
        (case tcp_write_all chain_probe s2 of
           (Inl e, _) \<Rightarrow> Some (Inl (Io e))
         | (Inr _, s3) \<Rightarrow>
        (case read_chain_ack s3 of
           Inl e \<Rightarrow> Some (Inl e)
         | Inr (chain, s4) \<Rightarrow>
        (case negotiate fill key chain s4 of
           None \<Rightarrow> None
         | Some (Inl e) \<Rightarrow> Some (Inl e)
         | Some (Inr (encryption_key, s5)) \<Rightarrow>
             Some (finish_connection cipher_new magic chain encryption_key s5)))))))"

section \<open>The probe and the negotiation\<close>

lemma read_chain_ack_ok: "\<exists>chain s'. read_chain_ack s = Inr (chain, s')"
  by (auto simp: read_chain_ack_def set_read_timeout_def split: prod.splits)

lemma negotiate_total: "negotiate fill key chain s \<noteq> None"
proof (cases key)
  case (Some k)
  obtain r s' where "nonce_exchange tcp_read tcp_write fill k s = Some (r, s')"
    using nonce_exchange_total by fastforce
  with Some show ?thesis by (auto simp: negotiate_def split: sum.splits)
qed (simp add: negotiate_def)

text \<open>
  The probe reads five bytes whatever they are. On a fault-free stream these are the next
  five, and they are gone for what comes after.
\<close>

lemma read_chain_ack_bytes:
  assumes "fault_free (rx s)" and "stream_bytes (rx s) = ack @ rest" and "length ack = 5"
  shows "\<exists>es t. read_chain_ack s = Inr (ack ! 0 = CMD_CHAIN_DETECT,
      s\<lparr>rx := es, read_timeout := t\<rparr>) \<and> fault_free es \<and> stream_bytes es = rest"
proof -
  have "5 \<le> length (stream_bytes (rx s))" using assms by simp
  from tcp_read_exact_fault_free [OF assms(1) this] obtain es where
    es: "tcp_read_exact 5 s = (Inr ack, s\<lparr>rx := es\<rparr>)" "fault_free es" "stream_bytes es = rest"
    using assms(2,3) by auto
  show ?thesis
  proof (cases "ack ! 0 = CMD_CHAIN_DETECT")
    case True
    with es show ?thesis
      by (auto simp: read_chain_ack_def intro!: exI [of _ es] exI [of _ "read_timeout s"])
  next
    case False
    with es show ?thesis
      by (auto simp: read_chain_ack_def set_read_timeout_def intro!: exI [of _ es])
  qed
qed

text \<open>A probe that is not answered in time leaves a plain connection.\<close>

lemma read_chain_ack_timeout:
  assumes "rx s = Fault e # es" and "err_kind e \<noteq> Interrupted"
  shows "read_chain_ack s = Inr (False, s\<lparr>rx := es, read_timeout := Some 30000\<rparr>)"
  using assms by (simp add: read_chain_ack_def tcp_read_exact_def set_read_timeout_def)

section \<open>The connection\<close>

text \<open>Connecting always returns; what it returns on a stream that does not fail.\<close>

lemma connect_upstream_total: "connect_upstream connect cn fill host port key timeout \<noteq> None"
  using negotiate_total
  by (auto simp: connect_upstream_def Let_def simp del: not_None_eq
      split: sum.splits prod.splits option.splits)

text \<open>The stream after the magic packet was read and the probe was sent.\<close>

lemma connect_upstream_start:
  assumes "connect (host @ '':'' @ show_nat (unat port)) = Inr s" and "0 < timeout"
    and "fault_free (rx s)" and "stream_bytes (rx s) = magic @ rest" and "length magic = 12"
    and "tx_script s = []"
  shows "\<exists>es. fault_free es \<and> stream_bytes es = rest \<and>
    connect_upstream connect cn fill host port key timeout =
    (case read_chain_ack (s\<lparr>read_timeout := Some timeout, rx := es, tx := tx s @ chain_probe\<rparr>) of
       Inl e \<Rightarrow> Some (Inl e)
     | Inr (chain, s4) \<Rightarrow>
    (case negotiate fill key chain s4 of
       None \<Rightarrow> None
     | Some (Inl e) \<Rightarrow> Some (Inl e)
     | Some (Inr (encryption_key, s5)) \<Rightarrow>
         Some (finish_connection cn magic chain encryption_key s5)))"
proof -
  let ?s1 = "s\<lparr>read_timeout := Some timeout\<rparr>"
  have "12 \<le> length (stream_bytes (rx ?s1))" using assms(4,5) by simp
  from tcp_read_exact_fault_free [OF _ this] obtain es where
    es: "tcp_read_exact 12 ?s1 = (Inr magic, ?s1\<lparr>rx := es\<rparr>)" "fault_free es"
      "stream_bytes es = rest"
    using assms(3-5) by auto
  then show ?thesis
    using assms(1,2,6)
    by (intro exI [of _ es]) (simp add: connect_upstream_def Let_def set_read_timeout_def)
qed

lemma finish_connection_ok:
  "finish_connection cn magic chain ek s =
     Inr \<lparr>up_stream = s\<lparr>read_timeout := Some 30000\<rparr>, is_chain = chain,
          up_read_cipher = map_option (\<lambda>(k, my, peer). cn k peer) ek,
          up_write_cipher = map_option (\<lambda>(k, my, peer). cn k my) ek, magic_packet = magic\<rparr>"
  by (auto simp: finish_connection_def set_read_timeout_def Let_def split: option.splits)

text \<open>
  An upstream that streams samples at once, as any plain rtl\_tcp server does, loses its
  first five bytes to the proxy: they are taken for the answer to the probe and discarded, so the
  samples that follow start in the middle of an I/Q pair. When the first of them is
  \<open>0xF0\<close> the upstream is even taken for a chain.
\<close>

lemma connect_upstream_streaming:
  assumes "connect (host @ '':'' @ show_nat (unat port)) = Inr s" and "0 < timeout"
    and "fault_free (rx s)" and "stream_bytes (rx s) = magic @ ack @ rest"
    and "length magic = 12" and "length ack = 5" and "ack ! 0 \<noteq> CMD_CHAIN_DETECT \<or> key = None"
    and "tx_script s = []"
  shows "\<exists>c. connect_upstream connect cn fill host port key timeout = Some (Inr c) \<and>
    (is_chain c \<longleftrightarrow> ack ! 0 = CMD_CHAIN_DETECT) \<and> magic_packet c = magic \<and>
    up_read_cipher c = None \<and> up_write_cipher c = None \<and> fault_free (rx (up_stream c)) \<and>
    stream_bytes (rx (up_stream c)) = rest \<and> tx (up_stream c) = tx s @ chain_probe \<and>
    tx_script (up_stream c) = []"
proof -
  from connect_upstream_start [where connect = connect and key = key and cn = cn and fill = fill,
      OF assms(1-5,8)] obtain es where
    es: "fault_free es" "stream_bytes es = ack @ rest"
    and conn: "connect_upstream connect cn fill host port key timeout =
    (case read_chain_ack (s\<lparr>read_timeout := Some timeout, rx := es, tx := tx s @ chain_probe\<rparr>) of
       Inl e \<Rightarrow> Some (Inl e)
     | Inr (chain, s4) \<Rightarrow>
    (case negotiate fill key chain s4 of
       None \<Rightarrow> None
     | Some (Inl e) \<Rightarrow> Some (Inl e)
     | Some (Inr (encryption_key, s5)) \<Rightarrow>
         Some (finish_connection cn magic chain encryption_key s5)))"
    by blast
  let ?s3 = "s\<lparr>read_timeout := Some timeout, rx := es, tx := tx s @ chain_probe\<rparr>"
  from read_chain_ack_bytes [of ?s3 ack rest] es assms(6) obtain es' t where
    ack: "read_chain_ack ?s3 = Inr (ack ! 0 = CMD_CHAIN_DETECT, ?s3\<lparr>rx := es', read_timeout := t\<rparr>)"
      "fault_free es'" "stream_bytes es' = rest"
    by auto
  have "negotiate fill key (ack ! 0 = CMD_CHAIN_DETECT) s4 = Some (Inr (None, s4))" for s4
    using assms(7) by (auto simp: negotiate_def)
  with conn ack assms(8) show ?thesis
    by (simp add: finish_connection_ok)
qed

lemma connect_upstream_streaming_witness:
  "\<exists>c. connect_upstream
      (\<lambda>a. if a = ''sdr:1234'' then Inr (fresh_tcp [Data (MAGIC_PACKET @ [1, 2, 3]), Data [4, 5, 6, 7]])
           else Inl zero_timeout)
      (ks_new (\<lambda>_ _ _. 0)) (\<lambda>n. replicate n 7) ''sdr'' 1234 None 500 = Some (Inr c) \<and>
    \<not> is_chain c \<and> magic_packet c = MAGIC_PACKET \<and> stream_bytes (rx (up_stream c)) = [6, 7]"
proof -
  have addr: "''sdr'' @ '':'' @ show_nat (unat (1234 :: u16)) = ''sdr:1234''" by code_simp
  show ?thesis
    using connect_upstream_streaming
      [of "\<lambda>a. if a = ''sdr:1234'' then Inr (fresh_tcp [Data (MAGIC_PACKET @ [1, 2, 3]), Data [4, 5, 6, 7]])
           else Inl zero_timeout" "''sdr''" 1234
        "fresh_tcp [Data (MAGIC_PACKET @ [1, 2, 3]), Data [4, 5, 6, 7]]" 500 MAGIC_PACKET
        "[1, 2, 3, 4, 5]" "[6, 7]" None "ks_new (\<lambda>_ _ _. 0)" "\<lambda>n. replicate n 7"]
    unfolding addr
    by (auto simp: MAGIC_PACKET_def CMD_CHAIN_DETECT_def)
qed

text \<open>
  However the upstream behaves, a connection that is set up has taken the magic packet and
  at most seventeen bytes more from the stream: the answer to the probe and the nonce.
\<close>

lemma read_chain_ack_skips:
  assumes "read_chain_ack s = Inr (chain, s')"
  shows "\<exists>gone. stream_bytes (rx s) = gone @ stream_bytes (rx s') \<and> length gone \<le> 5"
proof -
  obtain r s1 where r: "tcp_read_exact 5 s = (r, s1)" by (cases "tcp_read_exact 5 s")
  with assms have "rx s' = rx s1"
    by (auto simp: read_chain_ack_def set_read_timeout_def split: if_splits sum.splits)
  with tcp_read_exact_bytes [OF r] show ?thesis by auto
qed

lemma negotiate_skips:
  assumes "negotiate fill key chain s = Some (Inr (ek, s'))"
  shows "\<exists>gone. stream_bytes (rx s) = gone @ stream_bytes (rx s') \<and> length gone \<le> 12"
proof (cases "chain \<and> key \<noteq> None")
  case True
  then obtain k where k: "key = Some k" by blast
  obtain w s1 where s1: "tcp_write_all (generate_nonce fill) s = (w, s1)"
    by (cases "tcp_write_all (generate_nonce fill) s")
  obtain r s2 where s2: "tcp_read_exact 12 s1 = (r, s2)" by (cases "tcp_read_exact 12 s1")
  from s1 have "rx s1 = rx s" using tcp_write_all_rx [of "generate_nonce fill" s] by simp
  moreover from True k assms s1 s2 have "rx s' = rx s2"
    by (cases w; cases r)
      (auto simp: negotiate_def nonce_exchange_def Let_def io_simps io_bind_def split: option.splits sum.splits prod.splits)
  ultimately show ?thesis using tcp_read_exact_bytes [OF s2] by auto
next
  case False
  with assms show ?thesis by (auto simp: negotiate_def split: option.splits if_splits)
qed

lemma connect_upstream_skips:
  assumes "connect_upstream connect cn fill host port key timeout = Some (Inr c)"
  obtains u gone where "connect (host @ '':'' @ show_nat (unat port)) = Inr u"
    "stream_bytes (rx u) = magic_packet c @ gone @ stream_bytes (rx (up_stream c))"
    "length (magic_packet c) = 12" "length gone \<le> 17"
proof -
  from assms obtain u s1 magic s2 s3 chain s4 ek s5 where
    u: "connect (host @ '':'' @ show_nat (unat port)) = Inr u" "set_read_timeout timeout u = (Inr (), s1)"
    and magic: "tcp_read_exact 12 s1 = (Inr magic, s2)"
    and probe: "tcp_write_all chain_probe s2 = (Inr (), s3)"
    and ack: "read_chain_ack s3 = Inr (chain, s4)"
    and neg: "negotiate fill key chain s4 = Some (Inr (ek, s5))"
    and fin: "finish_connection cn magic chain ek s5 = Inr c"
    by (auto simp: connect_upstream_def Let_def split: sum.splits prod.splits option.splits)
  have "rx s1 = rx u" using u(2) by (auto simp: set_read_timeout_def split: if_splits)
  moreover have "rx s3 = rx s2" using probe tcp_write_all_rx [of chain_probe s2] by simp
  moreover from tcp_read_exact_bytes [OF magic] have "stream_bytes (rx s1) = magic @ stream_bytes (rx s2)" by auto
  moreover from read_chain_ack_skips [OF ack] obtain a where
    "stream_bytes (rx s3) = a @ stream_bytes (rx s4)" "length a \<le> 5" by blast
  moreover from negotiate_skips [OF neg] obtain b where
    "stream_bytes (rx s4) = b @ stream_bytes (rx s5)" "length b \<le> 12" by blast
  moreover from fin have "magic_packet c = magic" "rx (up_stream c) = rx s5"
    by (auto simp: finish_connection_ok)
  ultimately show ?thesis
    using that [of u "a @ b"] u(1) tcp_read_exact_length [OF magic] by auto
qed

text \<open>
  C30. Connecting to a chain with a key: after the magic packet, an answer to the probe and the
  peer's nonce, both ciphers are set up with the right nonces, everything the upstream sends
  next is still there, and the upstream has been sent the probe and the proxy's nonce and
  nothing else.
\<close>

theorem connect_upstream_encrypted:
  assumes "connect (host @ '':'' @ show_nat (unat port)) = Inr s" and "0 < timeout"
    and "fault_free (rx s)" and "stream_bytes (rx s) = magic @ ack @ peer @ rest"
    and "length magic = 12" and "length ack = 5" and "length peer = 12"
    and "ack ! 0 = CMD_CHAIN_DETECT" and "tx_script s = []"
  shows "\<exists>c. connect_upstream connect cn fill host port (Some k) timeout = Some (Inr c) \<and>
    is_chain c \<and> magic_packet c = magic \<and>
    up_read_cipher c = Some (cn k peer) \<and> up_write_cipher c = Some (cn k (fill 12)) \<and>
    fault_free (rx (up_stream c)) \<and> stream_bytes (rx (up_stream c)) = rest \<and>
    tx (up_stream c) = tx s @ chain_probe @ fill 12 \<and> tx_script (up_stream c) = []"
proof -
  from connect_upstream_start [where connect = connect and key = "Some k" and cn = cn
      and fill = fill, OF assms(1-5,9)] obtain es where
    es: "fault_free es" "stream_bytes es = ack @ peer @ rest"
    and conn: "connect_upstream connect cn fill host port (Some k) timeout =
    (case read_chain_ack (s\<lparr>read_timeout := Some timeout, rx := es, tx := tx s @ chain_probe\<rparr>) of
       Inl e \<Rightarrow> Some (Inl e)
     | Inr (chain, s4) \<Rightarrow>
    (case negotiate fill (Some k) chain s4 of
       None \<Rightarrow> None
     | Some (Inl e) \<Rightarrow> Some (Inl e)
     | Some (Inr (encryption_key, s5)) \<Rightarrow>
         Some (finish_connection cn magic chain encryption_key s5)))"
    by blast
  let ?s3 = "s\<lparr>read_timeout := Some timeout, rx := es, tx := tx s @ chain_probe\<rparr>"
  from read_chain_ack_bytes [of ?s3 ack "peer @ rest"] es assms(6) obtain es' t where
    ack: "read_chain_ack ?s3 = Inr (ack ! 0 = CMD_CHAIN_DETECT, ?s3\<lparr>rx := es', read_timeout := t\<rparr>)"
      "fault_free es'" "stream_bytes es' = peer @ rest"
    by auto
  let ?s4 = "?s3\<lparr>rx := es', read_timeout := t\<rparr>"
  from nonce_exchange_ok [of ?s4 peer rest fill k] ack assms(7,9) obtain es'' where
    "nonce_exchange tcp_read tcp_write fill k ?s4 =
        Some (Inr (fill 12, peer), ?s4\<lparr>tx := tx ?s4 @ fill 12, rx := es''\<rparr>)"
      "fault_free es''" "stream_bytes es'' = rest"
    by auto
  with conn ack(1) assms(8,9) show ?thesis
    by (simp add: negotiate_def finish_connection_ok)
qed

theorem connect_upstream_encrypted_witness:
  "\<exists>c. connect_upstream
      (\<lambda>a. if a = ''sdr:1234'' then Inr (fresh_tcp [Data (MAGIC_PACKET @ [0xF0, 0, 0, 0, 0] @ replicate 12 3), Data [6, 7]])
           else Inl zero_timeout)
      (ks_new (\<lambda>_ _ _. 0)) (\<lambda>n. replicate n 7) ''sdr'' 1234 (Some [9]) 500 = Some (Inr c) \<and>
    is_chain c \<and> up_write_cipher c = Some (ks_new (\<lambda>_ _ _. 0) [9] (replicate 12 7)) \<and>
    stream_bytes (rx (up_stream c)) = [6, 7]"
proof -
  have addr: "''sdr'' @ '':'' @ show_nat (unat (1234 :: u16)) = ''sdr:1234''" by code_simp
  show ?thesis
    using connect_upstream_encrypted
      [of "\<lambda>a. if a = ''sdr:1234''
          then Inr (fresh_tcp [Data (MAGIC_PACKET @ [0xF0, 0, 0, 0, 0] @ replicate 12 3), Data [6, 7]])
          else Inl zero_timeout" "''sdr''" 1234
        "fresh_tcp [Data (MAGIC_PACKET @ [0xF0, 0, 0, 0, 0] @ replicate 12 3), Data [6, 7]]" 500 MAGIC_PACKET
        "[0xF0, 0, 0, 0, 0]" "replicate 12 3" "[6, 7]" "ks_new (\<lambda>_ _ _. 0)" "\<lambda>n. replicate n 7" "[9]"]
    unfolding addr
    by (auto simp: MAGIC_PACKET_def CMD_CHAIN_DETECT_def)
qed

end
