(* ===== verification/Proxy_Threads.thy ===== *)
theory Proxy_Threads
  imports Proxy Serve_Refinement Stream_Fanout
begin

text \<open>
  The two threads of the proxy mode (\<open>run_proxy_multi\<close> in \<open>src/main.rs\<close>): the one that
  reads the upstream and feeds the broadcast channel, and the one that forwards the local
  master's commands upstream.
\<close>

section \<open>Reading the upstream\<close>

text \<open>
  \<open>ur_sent\<close> is what was handed to the broadcast channel, in order; \<open>ur_signalled\<close>
  says whether a shutdown was asked for over the signal channel.
\<close>

record upstream_reader =
  ur_stream :: tcp
  ur_sent :: "bytes list"
  ur_signalled :: bool

definition UPSTREAM_BUFFER :: nat where
  "UPSTREAM_BUFFER = 512 * 1024"

definition upstream_round :: "bool \<Rightarrow> upstream_reader \<Rightarrow> flow \<times> upstream_reader" where
  "upstream_round exit_flag s =
     (if exit_flag then (Break, s)
      else (case tcp_read UPSTREAM_BUFFER (ur_stream s) of
              (Inr bs, st) \<Rightarrow>
                if bs = [] then (Break, s\<lparr>ur_stream := st\<rparr>)
                else (Continue, s\<lparr>ur_stream := st, ur_sent := ur_sent s @ [bs]\<rparr>)
            | (Inl e, st) \<Rightarrow>
                if err_kind e = WouldBlock \<or> err_kind e = TimedOut
                then (Continue, s\<lparr>ur_stream := st\<rparr>)
                else (Break, s\<lparr>ur_stream := st, ur_signalled := True\<rparr>)))"

fun upstream_loop :: "bool list \<Rightarrow> upstream_reader \<Rightarrow> flow \<times> upstream_reader" where
  "upstream_loop [] s = (Continue, s)"
| "upstream_loop (exit_flag # rest) s =
     (case upstream_round exit_flag s of
        (Break, s') \<Rightarrow> (Break, s')
      | (Continue, s') \<Rightarrow> upstream_loop rest s')"

section \<open>Forwarding commands\<close>

record 'c forwarder =
  fw_master :: tcp
  fw_upstream :: "tcp mutex"
  fw_cipher :: "'c option"
  fw_limiter :: rate_limiter

text \<open>The command as it goes on the wire: encrypted when the link is.\<close>

definition seal_command ::
  "('c \<Rightarrow> bytes \<Rightarrow> bytes \<times> 'c) \<Rightarrow> bytes \<Rightarrow> 'c forwarder \<Rightarrow> bytes \<times> 'c forwarder" where
  "seal_command apply_keystream buf s =
     (case fw_cipher s of
        None \<Rightarrow> (buf, s)
      | Some cipher \<Rightarrow>
          (case apply_keystream cipher buf of
             (coded, cipher') \<Rightarrow> (coded, s\<lparr>fw_cipher := Some cipher'\<rparr>)))"

definition send_upstream :: "bytes \<Rightarrow> 'c forwarder \<Rightarrow> flow \<times> 'c forwarder" where
  "send_upstream coded s =
     (if m_poisoned (fw_upstream s) then (Break, s)
      else (case tcp_write_all coded (m_data (fw_upstream s)) of
              (w, up) \<Rightarrow>
                let s' = s\<lparr>fw_upstream := (fw_upstream s)\<lparr>m_data := up\<rparr>\<rparr>
                in case w of Inl e \<Rightarrow> (Break, s') | Inr _ \<Rightarrow> (Continue, s')))"

definition relay_command ::
  "('c \<Rightarrow> bytes \<Rightarrow> bytes \<times> 'c) \<Rightarrow> bytes \<Rightarrow> 'c forwarder \<Rightarrow> flow \<times> 'c forwarder" where
  "relay_command apply_keystream buf s =
     (case seal_command apply_keystream buf s of (coded, s') \<Rightarrow> send_upstream coded s')"

definition forward_round ::
  "('c \<Rightarrow> bytes \<Rightarrow> bytes \<times> 'c) \<Rightarrow> 'r round_scheme \<Rightarrow> 'c forwarder \<Rightarrow> flow \<times> 'c forwarder" where
  "forward_round apply_keystream r s0 =
     (case tcp_read_exact COMMAND_HEADER_SIZE (fw_master s0) of
        (res, st) \<Rightarrow>
          let s = s0\<lparr>fw_master := st\<rparr>
          in case res of
               Inl e \<Rightarrow>
                 if err_kind e = WouldBlock \<or> err_kind e = TimedOut then (Continue, s)
                 else (Break, s)
             | Inr buf \<Rightarrow>
                 if should_exit r then (Break, s)
                 else (case rate_limiter_check (now r) (fw_limiter s) of
                         (ok, rl) \<Rightarrow>
                           let s' = s\<lparr>fw_limiter := rl\<rparr>
                           in if \<not> ok then (Continue, s')
                              else relay_command apply_keystream buf s'))"

fun forward_loop ::
  "('c \<Rightarrow> bytes \<Rightarrow> bytes \<times> 'c) \<Rightarrow> 'r round_scheme list \<Rightarrow> 'c forwarder \<Rightarrow> flow \<times> 'c forwarder" where
  "forward_loop apply_keystream [] s = (Continue, s)"
| "forward_loop apply_keystream (r # rs) s =
     (case forward_round apply_keystream r s of
        (Break, s') \<Rightarrow> (Break, s')
      | (Continue, s') \<Rightarrow> forward_loop apply_keystream rs s')"

section \<open>The loops end\<close>

lemma upstream_round_progress:
  assumes "upstream_round x s = (Continue, s')"
  shows "script_size (rx (ur_stream s')) < script_size (rx (ur_stream s))"
proof -
  obtain res st where st: "tcp_read UPSTREAM_BUFFER (ur_stream s) = (res, st)"
    by (cases "tcp_read UPSTREAM_BUFFER (ur_stream s)")
  show ?thesis
  proof (cases res)
    case (Inl e)
    with assms st tcp_rd.read_error_progress [of UPSTREAM_BUFFER "ur_stream s" e st] show ?thesis
      by (auto simp: upstream_round_def split: if_splits)
  next
    case (Inr bs)
    with assms st tcp_rd.read_bytes_progress [of UPSTREAM_BUFFER "ur_stream s" bs st] show ?thesis
      by (cases bs) (auto simp: upstream_round_def split: if_splits)
  qed
qed

interpretation upstream_thread: thread_loop
  "\<lambda>x s. Some (upstream_round x s)" "\<lambda>s. s" "\<lambda>xs s. Some (upstream_loop xs s)"
  "\<lambda>s. script_size (rx (ur_stream s))"
  by unfold_locales (auto simp: upstream_round_progress split: flow.splits prod.splits)

lemma seal_command_frame [simp]:
  "fw_master (snd (seal_command k b s)) = fw_master s"
  "fw_upstream (snd (seal_command k b s)) = fw_upstream s"
  "fw_limiter (snd (seal_command k b s)) = fw_limiter s"
  by (auto simp: seal_command_def split: option.splits prod.splits)

lemma send_upstream_frame [simp]:
  "fw_master (snd (send_upstream b s)) = fw_master s"
  "fw_limiter (snd (send_upstream b s)) = fw_limiter s"
  "fw_cipher (snd (send_upstream b s)) = fw_cipher s"
  by (auto simp: send_upstream_def Let_def split: sum.splits prod.splits)

lemma relay_command_frame [simp]:
  "fw_master (snd (relay_command k b s)) = fw_master s"
  "fw_limiter (snd (relay_command k b s)) = fw_limiter s"
  by (simp_all add: relay_command_def case_prod_beta)

lemma forward_round_progress:
  assumes "forward_round k r s = (Continue, s')"
  shows "script_size (rx (fw_master s')) < script_size (rx (fw_master s))"
proof -
  obtain res st where st: "tcp_read_exact COMMAND_HEADER_SIZE (fw_master s) = (res, st)"
    by (cases "tcp_read_exact COMMAND_HEADER_SIZE (fw_master s)")
  have "script_size (rx st) < script_size (rx (fw_master s))"
    using assms st
    by (intro read_progress [OF st]) (auto simp: forward_round_def Let_def split: if_splits)
  moreover have "fw_master s' = st"
  proof (cases res)
    case (Inr buf)
    obtain ok rl where chk: "rate_limiter_check (now r) (fw_limiter s) = (ok, rl)"
      by (cases "rate_limiter_check (now r) (fw_limiter s)")
    let ?t = "s\<lparr>fw_master := st, fw_limiter := rl\<rparr>"
    from assms st Inr chk have "s' = ?t \<or> s' = snd (relay_command k buf ?t)"
      by (auto simp: forward_round_def Let_def split: if_splits)
    then show ?thesis by auto
  qed (use assms st in \<open>auto simp: forward_round_def Let_def split: if_splits\<close>)
  ultimately show ?thesis by simp
qed

interpretation forward_thread: thread_loop
  "\<lambda>r s. Some (forward_round k r s)" "\<lambda>s. s" "\<lambda>rs s. Some (forward_loop k rs s)"
  "\<lambda>s. script_size (rx (fw_master s))" for k
  by unfold_locales (auto simp: forward_round_progress split: flow.splits prod.splits)

section \<open>What is relayed\<close>

text \<open>The reader hands over the stream it reads, in order, cut into non-empty buffers.\<close>

definition relayed :: "upstream_reader \<Rightarrow> upstream_reader \<Rightarrow> bytes list \<Rightarrow> bool" where
  "relayed s s' bufs \<longleftrightarrow>
     ur_sent s' = ur_sent s @ bufs \<and>
     stream_bytes (rx (ur_stream s)) = concat bufs @ stream_bytes (rx (ur_stream s')) \<and>
     list_all (\<lambda>b. b \<noteq> [] \<and> length b \<le> UPSTREAM_BUFFER) bufs"

lemma upstream_round_relays:
  assumes "upstream_round x s = (fl, s')"
  shows "\<exists>bufs. relayed s s' bufs"
proof (cases x)
  case True
  with assms have "relayed s s' []" by (simp add: upstream_round_def relayed_def)
  then show ?thesis ..
next
  case False
  obtain res st where st: "tcp_read UPSTREAM_BUFFER (ur_stream s) = (res, st)"
    by (cases "tcp_read UPSTREAM_BUFFER (ur_stream s)")
  note sb = tcp_read_stream [OF st]
  have fits: "res = Inr bs \<Longrightarrow> length bs \<le> UPSTREAM_BUFFER" for bs
    using st tcp_rd.read_fits [of UPSTREAM_BUFFER "ur_stream s" bs st] by simp
  from assms False st sb fits
  have "relayed s s' (case res of Inr bs \<Rightarrow> if bs = [] then [] else [bs] | Inl e \<Rightarrow> [])"
    by (auto simp: upstream_round_def relayed_def split: sum.splits if_splits)
  then show ?thesis ..
qed

lemma upstream_loop_relays: "\<exists>bufs. relayed s (snd (upstream_loop xs s)) bufs"
proof (induction xs arbitrary: s)
  case Nil
  then show ?case by (auto simp: relayed_def intro!: exI [of _ "[]"])
next
  case (Cons x xs)
  obtain fl s1 where s1: "upstream_round x s = (fl, s1)" by (cases "upstream_round x s")
  from upstream_round_relays [OF s1] obtain b1 where b1: "relayed s s1 b1" ..
  show ?case
  proof (cases fl)
    case Break
    with s1 b1 show ?thesis by auto
  next
    case Continue
    from Cons.IH [of s1] obtain b2 where "relayed s1 (snd (upstream_loop xs s1)) b2" ..
    with b1 s1 Continue have "relayed s (snd (upstream_loop (x # xs) s)) (b1 @ b2)"
      by (auto simp: relayed_def)
    then show ?thesis ..
  qed
qed

section \<open>Properties\<close>

text \<open>
  The proxy broadcasts what it reads from its upstream byte for byte: the buffers handed
  to the channel are non-empty pieces of the stream, in order, nothing left out and nothing
  added, up to the point where the reading stops. No cipher is applied on the way, so from an
  encrypting upstream the local clients get the encrypted bytes.
\<close>

lemma upstream_relays_verbatim:
  "\<exists>bufs. ur_sent (snd (upstream_loop xs s)) = ur_sent s @ bufs \<and>
     stream_bytes (rx (ur_stream s)) =
       concat bufs @ stream_bytes (rx (ur_stream (snd (upstream_loop xs s)))) \<and>
     list_all (\<lambda>b. b \<noteq> [] \<and> length b \<le> UPSTREAM_BUFFER) bufs"
  using upstream_loop_relays [of s xs] by (simp add: relayed_def)

text \<open>
  Both threads of the proxy end when their connection does: given more rounds than the
  connection has events left, the upstream reader and the forwarder have left their loops.
\<close>

lemma proxy_threads_end:
  assumes "script_size (rx (ur_stream u)) < length xs" and "script_size (rx (fw_master f)) < length rs"
  shows "(\<exists>u'. upstream_loop xs u = (Break, u')) \<and> (\<exists>f'. forward_loop apply_keystream rs f = (Break, f'))"
  using upstream_thread.run_ends [OF assms(1)] forward_thread.run_ends [OF assms(2), of apply_keystream]
  by simp

end
