(* ===== verification/Chain.thy ===== *)
theory Chain
  imports Proxy_Threads
begin

text \<open>
  The proxy chain end to end: what the local master of a proxy sends, the proxy's
  forwarding thread puts on the upstream wire (in code, when the link is encrypted), and the
  control thread of the upstream server decodes and applies. Both ends drop what their rate
  limiter refuses, and the two keystreams stay in step all the same, because each end
  advances its cipher exactly over the commands that are on the wire.
\<close>

section \<open>The proxy's end\<close>

context stream_cipher
begin

lemma relay_command_ok:
  assumes "\<not> m_poisoned (fw_upstream s)" and "tx_script (m_data (fw_upstream s)) = []"
  shows "relay_command apply_keystream buf s =
    (Continue, s\<lparr>fw_cipher := advance (length buf) (fw_cipher s),
       fw_upstream := (fw_upstream s)\<lparr>m_data := (m_data (fw_upstream s))\<lparr>tx :=
         tx (m_data (fw_upstream s)) @ coded (fw_cipher s) buf\<rparr>\<rparr>\<rparr>)"
  using assms
  by (cases "fw_cipher s")
    (simp_all add: relay_command_def seal_command_def send_upstream_def coded_def advance_def
      apply_eq Let_def)

lemma forward_round_ok:
  assumes "fault_free (rx (fw_master s))" and "stream_bytes (rx (fw_master s)) = buf @ rest"
    and "length buf = 5" and "\<not> should_exit r"
    and "rate_limiter_check (now r) (fw_limiter s) = (ok, rl)"
  shows "\<exists>es. fault_free es \<and> stream_bytes es = rest \<and>
    forward_round apply_keystream r s =
      (let s' = s\<lparr>fw_master := (fw_master s)\<lparr>rx := es\<rparr>, fw_limiter := rl\<rparr>
       in if ok then relay_command apply_keystream buf s' else (Continue, s'))"
proof -
  have "5 \<le> length (stream_bytes (rx (fw_master s)))" using assms(2,3) by simp
  from tcp_read_exact_fault_free [OF assms(1) this] obtain es where
    es: "tcp_read_exact 5 (fw_master s) = (Inr buf, (fw_master s)\<lparr>rx := es\<rparr>)"
      "fault_free es" "stream_bytes es = rest"
    using assms(2,3) by auto
  with assms(4,5) show ?thesis
    by (auto simp: forward_round_def COMMAND_HEADER_SIZE_def Let_def)
qed

lemma forward_loop_wire:
  assumes "length rs = length cmds" and "fault_free (rx (fw_master s))"
    and "stream_bytes (rx (fw_master s)) = concat cmds" and "list_all (\<lambda>c. length c = 5) cmds"
    and "list_all (\<lambda>r. \<not> should_exit r) rs"
    and "\<not> m_poisoned (fw_upstream s)" and "tx_script (m_data (fw_upstream s)) = []"
  shows "\<exists>s'. forward_loop apply_keystream rs s = (Continue, s') \<and>
    tx (m_data (fw_upstream s')) = tx (m_data (fw_upstream s)) @
      coded (fw_cipher s) (concat (admitted (fw_limiter s) (zip (map now rs) cmds)))"
  using assms
proof (induction rs cmds arbitrary: s rule: list_induct2)
  case Nil
  then show ?case by simp
next
  case (Cons r rs buf cmds)
  obtain ok rl where chk: "rate_limiter_check (now r) (fw_limiter s) = (ok, rl)"
    by (cases "rate_limiter_check (now r) (fw_limiter s)")
  from forward_round_ok [of s buf "concat cmds" r ok rl] Cons.prems chk obtain es where
    es: "fault_free es" "stream_bytes es = concat cmds"
    and round: "forward_round apply_keystream r s =
      (let s' = s\<lparr>fw_master := (fw_master s)\<lparr>rx := es\<rparr>, fw_limiter := rl\<rparr>
       in if ok then relay_command apply_keystream buf s' else (Continue, s'))"
    by auto
  let ?s = "s\<lparr>fw_master := (fw_master s)\<lparr>rx := es\<rparr>, fw_limiter := rl\<rparr>"
  show ?case
  proof (cases ok)
    case False
    with Cons.IH [of ?s] es round Cons.prems chk show ?thesis by (simp add: Let_def)
  next
    case True
    define t where "t = snd (relay_command apply_keystream buf ?s)"
    have t: "relay_command apply_keystream buf ?s = (Continue, t)"
      "fw_cipher t = advance (length buf) (fw_cipher s)" "fw_limiter t = rl"
      "fw_master t = (fw_master s)\<lparr>rx := es\<rparr>" "\<not> m_poisoned (fw_upstream t)"
      "tx_script (m_data (fw_upstream t)) = []"
      "tx (m_data (fw_upstream t)) = tx (m_data (fw_upstream s)) @ coded (fw_cipher s) buf"
      using Cons.prems(5,6) by (simp_all add: t_def relay_command_ok)
    from Cons.IH [of t] t es Cons.prems obtain s' where
      "forward_loop apply_keystream rs t = (Continue, s')"
      "tx (m_data (fw_upstream s')) = tx (m_data (fw_upstream t)) @
        coded (fw_cipher t) (concat (admitted rl (zip (map now rs) cmds)))"
      by auto
    with t round True chk show ?thesis by (simp add: Let_def coded_append)
  qed
qed

section \<open>The server's end\<close>

lemma master_round_ok:
  assumes "env_apply_keystream env = apply_keystream" and "fault_free (rx (stream s))"
    and "stream_bytes (rx (stream s)) = coded (read_cipher s) buf @ rest"
    and "length buf = 5" and "\<not> should_exit r" and "buf ! 0 \<noteq> CMD_CHAIN_DETECT"
    and "rate_limiter_check (now r) (limiter s) = (ok, rl)"
  shows "\<exists>es. fault_free es \<and> stream_bytes es = rest \<and>
    master_round env r s =
      (let s' = s\<lparr>stream := (stream s)\<lparr>rx := es\<rparr>, read_cipher := advance 5 (read_cipher s),
                  limiter := rl\<rparr>
       in Some (Continue, if ok then single_dispatch (env_dev_ok env) buf s'
                          else add_log RateLimited s'))"
proof -
  have "5 \<le> length (stream_bytes (rx (stream s)))" using assms(3,4) by simp
  from tcp_read_exact_fault_free [OF assms(2) this] obtain es where
    es: "tcp_read_exact 5 (stream s) = (Inr (coded (read_cipher s) buf), (stream s)\<lparr>rx := es\<rparr>)"
      "fault_free es" "stream_bytes es = rest"
    using assms(3,4) by auto
  have "decrypt_command env (coded (read_cipher s) buf) (s\<lparr>stream := (stream s)\<lparr>rx := es\<rparr>\<rparr>) =
      (buf, s\<lparr>stream := (stream s)\<lparr>rx := es\<rparr>, read_cipher := advance 5 (read_cipher s)\<rparr>)"
    using assms(1,4)
    by (cases "read_cipher s") (simp_all add: decrypt_command_def coded_def advance_def apply_eq)
  with es assms(5-7) show ?thesis
    by (auto simp: master_round_def COMMAND_HEADER_SIZE_def Let_def master_dispatch_other)
qed

lemma view_master_updates:
  "view (s\<lparr>stream := (stream s)\<lparr>rx := es\<rparr>, read_cipher := oc, limiter := rl\<rparr>) = view s"
  "healthy (s\<lparr>stream := (stream s)\<lparr>rx := es\<rparr>, read_cipher := oc, limiter := rl\<rparr>) = healthy s"
  by (simp_all add: view_def healthy_def)

lemma master_loop_refines:
  assumes "length rs = length cmds" and "env_apply_keystream env = apply_keystream"
    and "fault_free (rx (stream s))"
    and "stream_bytes (rx (stream s)) = coded (read_cipher s) (concat cmds)"
    and "list_all (\<lambda>c. length c = 5 \<and> c ! 0 \<noteq> CMD_CHAIN_DETECT) cmds"
    and "list_all (\<lambda>r. \<not> should_exit r) rs" and "healthy s"
  shows "\<exists>s'. master_loop env rs s = Some (Continue, s') \<and> healthy s' \<and>
    view s' = fold spec_command
      (map decode_command (admitted (limiter s) (zip (map now rs) cmds))) (view s)"
  using assms
proof (induction rs cmds arbitrary: s rule: list_induct2)
  case Nil
  then show ?case by simp
next
  case (Cons r rs buf cmds)
  obtain ok rl where chk: "rate_limiter_check (now r) (limiter s) = (ok, rl)"
    by (cases "rate_limiter_check (now r) (limiter s)")
  have len: "length buf = 5" and nc: "buf ! 0 \<noteq> CMD_CHAIN_DETECT" using Cons.prems(4) by auto
  from master_round_ok [of env s buf "coded (advance 5 (read_cipher s)) (concat cmds)" r ok rl]
    Cons.prems chk len nc obtain es where
    es: "fault_free es" "stream_bytes es = coded (advance 5 (read_cipher s)) (concat cmds)"
    and round: "master_round env r s =
      (let s' = s\<lparr>stream := (stream s)\<lparr>rx := es\<rparr>, read_cipher := advance 5 (read_cipher s),
                  limiter := rl\<rparr>
       in Some (Continue, if ok then single_dispatch (env_dev_ok env) buf s'
                          else add_log RateLimited s'))"
    by (auto simp: coded_append)
  let ?s = "s\<lparr>stream := (stream s)\<lparr>rx := es\<rparr>, read_cipher := advance 5 (read_cipher s),
              limiter := rl\<rparr>"
  let ?t = "if ok then single_dispatch (env_dev_ok env) buf ?s else add_log RateLimited ?s"
  have h: "healthy ?s" using Cons.prems(6) by (simp only: view_master_updates)
  have v: "view ?s = view s" by (rule view_master_updates)
  have t: "fault_free (rx (stream ?t))" "read_cipher ?t = advance 5 (read_cipher s)"
      "stream_bytes (rx (stream ?t)) = coded (advance 5 (read_cipher s)) (concat cmds)"
      "limiter ?t = rl" "healthy ?t"
      "view ?t = (if ok then spec_command (decode_command buf) (view s) else view s)"
    using es h v dispatch_refines [OF h len, of "env_dev_ok env"]
    by auto
  from Cons.IH [of ?t] t Cons.prems obtain s' where
    s': "master_loop env rs ?t = Some (Continue, s')" "healthy s'"
      "view s' = fold spec_command
        (map decode_command (admitted rl (zip (map now rs) cmds))) (view ?t)"
    by auto
  from round s'(1) have "master_loop env (r # rs) s = Some (Continue, s')"
    by (simp add: Let_def)
  with s' t chk show ?case by (cases ok) auto
qed

end

lemma admitted_subset: "set (admitted rl (zip ts cmds)) \<subseteq> set cmds"
proof (induction ts arbitrary: rl cmds)
  case (Cons t ts)
  show ?case
  proof (cases cmds)
    case (Cons c cs)
    obtain ok rl' where "rate_limiter_check t rl = (ok, rl')" by (cases "rate_limiter_check t rl")
    with Cons.IH [of rl' cs] Cons show ?thesis by (cases ok) auto
  qed simp
qed simp

section \<open>Properties\<close>

text \<open>
  C4. A proxy chain, end to end: what the local master of a proxy sends reaches the device
  of the upstream server command for command, in order and with the protocol's effect, each
  end leaving out what its own rate limiter refuses. This holds with and without encryption,
  for any cipher that behaves as documented, when the two ends start with the same cipher state
  (as the nonce exchange gives them) and neither connection fails. A probe is not among the commands.
\<close>

theorem chain_end_to_end:
  assumes "stream_cipher apply_keystream" and "env_apply_keystream env = apply_keystream"
    and "read_cipher s = fw_cipher f"
    and "fault_free (rx (fw_master f))" and "stream_bytes (rx (fw_master f)) = concat cmds"
    and "list_all (\<lambda>c. length c = 5 \<and> c ! 0 \<noteq> CMD_CHAIN_DETECT) cmds"
    and "length rs = length cmds" and "list_all (\<lambda>r. \<not> should_exit r) rs"
    and "\<not> m_poisoned (fw_upstream f)" and "tx_script (m_data (fw_upstream f)) = []"
    and "forward_loop apply_keystream rs f = (fl, f')"
    and "tx (m_data (fw_upstream f')) = tx (m_data (fw_upstream f)) @ stream_bytes (rx (stream s))"
    and "fault_free (rx (stream s))" and "healthy s"
    and "length rs' = length (admitted (fw_limiter f) (zip (map now rs) cmds))"
    and "list_all (\<lambda>r. \<not> should_exit r) rs'"
  shows "fl = Continue \<and> (\<exists>s'. master_loop env rs' s = Some (Continue, s') \<and>
    view s' = fold spec_command (map decode_command
      (admitted (limiter s) (zip (map now rs')
        (admitted (fw_limiter f) (zip (map now rs) cmds))))) (view s))"
proof -
  let ?adm = "admitted (fw_limiter f) (zip (map now rs) cmds)"
  have five: "list_all (\<lambda>c. length c = 5) cmds" using assms(6) by (simp add: list_all_iff)
  from stream_cipher.forward_loop_wire [OF assms(1,7,4,5) five assms(8-10)] assms(11,12)
  have fl: "fl = Continue"
    and wire: "stream_bytes (rx (stream s)) =
      stream_cipher.coded apply_keystream (read_cipher s) (concat ?adm)"
    using assms(3) by auto
  have "list_all (\<lambda>c. length c = 5 \<and> c ! 0 \<noteq> CMD_CHAIN_DETECT) ?adm"
    using assms(6) admitted_subset [of "fw_limiter f" "map now rs" cmds] by (auto simp: list_all_iff)
  from stream_cipher.master_loop_refines [OF assms(1,15,2,13) wire this assms(16,14)] fl show ?thesis
    by blast
qed

text \<open>
  The chain of the witness: an encrypted link, two commands of the local master, the second
  of which the proxy's limiter refuses.
\<close>

definition demo_cipher :: "(nat \<Rightarrow> u8) \<times> nat" where
  "demo_cipher = ks_new (\<lambda>_ _ p. of_nat p) [9] [7]"

definition demo_forwarder :: "((nat \<Rightarrow> u8) \<times> nat) forwarder" where
  "demo_forwarder =
     \<lparr>fw_master = fresh_tcp [Data [1, 0, 0, 0, 9, 2, 0, 0], Data [0, 5]],
      fw_upstream = \<lparr>m_data = fresh_tcp [], m_poisoned = False\<rparr>,
      fw_cipher = Some demo_cipher,
      fw_limiter = rate_limiter_new 0 0 COMMAND_RATE_LIMIT_INTERVAL\<rparr>"

definition demo_upstream :: "((nat \<Rightarrow> u8) \<times> nat) master_state" where
  "demo_upstream =
     (master_start (fresh_tcp [Data (ks.crypt demo_cipher [1, 0, 0, 0, 9])])
       \<lparr>m_data = [], m_poisoned = False\<rparr> agc_new None 30000 0 0)\<lparr>read_cipher := Some demo_cipher\<rparr>"

definition demo_tick :: "instant \<Rightarrow> master_input" where
  "demo_tick t = \<lparr>should_exit = False, now = t, draw = demo_draw\<rparr>"

theorem chain_end_to_end_witness:
  "\<exists>f' s'. forward_loop ks_apply [demo_tick 0, demo_tick 1] demo_forwarder = (Continue, f') \<and>
     master_loop demo_master_env [demo_tick 2] demo_upstream = Some (Continue, s') \<and>
     v_calls (view s') = [SetCenterFreq 9]"
proof -
  let ?cmds = "[[1, 0, 0, 0, 9], [2, 0, 0, 0, 5]] :: bytes list"
  let ?rs = "[demo_tick 0, demo_tick 1]"
  have adm: "admitted (fw_limiter demo_forwarder) (zip (map now ?rs) ?cmds) = [[1, 0, 0, 0, 9]]"
    by (simp add: demo_forwarder_def demo_tick_def rate_limiter_new_def instant_checked_sub_def
        COMMAND_RATE_LIMIT_INTERVAL_def rate_limiter_check_def saturating_duration_since_def)
  have adm2: "admitted (limiter demo_upstream) (zip (map now [demo_tick 2]) [[1, 0, 0, 0, 9]]) =
      [[1, 0, 0, 0, 9]]"
    by (simp add: demo_upstream_def demo_tick_def master_start_def rate_limiter_new_def
        instant_checked_sub_def COMMAND_RATE_LIMIT_INTERVAL_def rate_limiter_check_def
        saturating_duration_since_def)
  have f: "fault_free (rx (fw_master demo_forwarder))"
    "stream_bytes (rx (fw_master demo_forwarder)) = concat ?cmds"
    "\<not> m_poisoned (fw_upstream demo_forwarder)" "tx_script (m_data (fw_upstream demo_forwarder)) = []"
    by (simp_all add: demo_forwarder_def)
  from ks.forward_loop_wire [of ?rs ?cmds demo_forwarder, OF _ f(1,2) _ _ f(3,4)] obtain f' where
    f': "forward_loop ks_apply ?rs demo_forwarder = (Continue, f')"
      "tx (m_data (fw_upstream f')) = tx (m_data (fw_upstream demo_forwarder)) @
        ks.coded (fw_cipher demo_forwarder) [1, 0, 0, 0, 9]"
    unfolding adm by (auto simp: demo_tick_def)
  have s: "stream_bytes (rx (stream demo_upstream)) = ks.coded (fw_cipher demo_forwarder) [1, 0, 0, 0, 9]"
    "fault_free (rx (stream demo_upstream))" "healthy demo_upstream"
    "read_cipher demo_upstream = fw_cipher demo_forwarder"
    by (simp_all add: demo_upstream_def master_start_def set_read_timeout_def demo_forwarder_def
        ks.coded_def healthy_def)
  from chain_end_to_end [OF ks.stream_cipher_axioms _ s(4) f(1,2) _ _ _ f(3,4) f'(1) _ s(2,3),
      of demo_master_env "[demo_tick 2]"] f' s(1) adm adm2
  show ?thesis
    by (auto simp: demo_tick_def demo_master_env_def CMD_CHAIN_DETECT_def spec_command_def
        from_be_def from_le_def view_def demo_upstream_def master_start_def)
qed

end
