(* ===== verification/Proxy_Multi.thy ===== *)
theory Proxy_Multi
  imports Chain Serve_Multi
begin

text \<open>
  Proxy mode (\<open>run_proxy_multi\<close> of \<open>src/main.rs\<close>): the start-up with the connection to
  the upstream, and the loop that accepts one local master after the other and forwards its
  commands. The connection to the upstream and its cipher outlive the masters.
\<close>

section \<open>State and start-up\<close>

record 'c proxy_state =
  px_upstream :: "tcp mutex"
  px_cipher :: "'c option"
  px_magic :: bytes
  px_masters :: "(ip_addr \<times> tcp) list"

text \<open>
  The start-up, given what installing the handler, binding the ports, parsing the key,
  cloning and switching to non-blocking mode return, and the function that opens the
  upstream connection. The result has the upstream as the reader thread gets it.
\<close>

definition proxy_start ::
  "(string \<Rightarrow> io_error + tcp) \<Rightarrow> (bytes \<Rightarrow> bytes \<Rightarrow> 'c) \<Rightarrow> (nat \<Rightarrow> bytes) \<Rightarrow> args \<Rightarrow>
   (string + unit) \<Rightarrow> (rtl_tcp_error + unit) \<Rightarrow> (string \<Rightarrow> io_error + unit) \<Rightarrow>
   (rtl_tcp_error + bytes option) \<Rightarrow> (io_error + unit) \<Rightarrow> (io_error + unit) \<Rightarrow>
   (rtl_tcp_error + tcp \<times> 'c proxy_state) option" where
  "proxy_start connect cipher_new fill args handler bound bind_slave enc_key cloned nonblocking =
     (case required_upstream args of
        Inl e \<Rightarrow> Some (Inl e)
      | Inr u \<Rightarrow>
     (case map_err (\<lambda>e. Config (''could not set signal handler: '' @ e)) handler of
        Inl e \<Rightarrow> Some (Inl e)
      | Inr _ \<Rightarrow>
     (case bound of
        Inl e \<Rightarrow> Some (Inl e)
      | Inr _ \<Rightarrow>
     (case (case slave_port args of
              None \<Rightarrow> Inr ()
            | Some sp \<Rightarrow> lift_io (bind_slave (address args @ '':'' @ show_nat (unat sp)))) of
        Inl e \<Rightarrow> Some (Inl e)
      | Inr _ \<Rightarrow>
     (case parse_upstream u of
        Inl e \<Rightarrow> Some (Inl e)
      | Inr (host, port) \<Rightarrow>
     (case enc_key of
        Inl e \<Rightarrow> Some (Inl e)
      | Inr k \<Rightarrow>
     (case connect_upstream connect cipher_new fill host port k 500 of
        None \<Rightarrow> None
      | Some (Inl e) \<Rightarrow> Some (Inl e)
      | Some (Inr conn) \<Rightarrow>
     (case lift_io cloned of
        Inl e \<Rightarrow> Some (Inl e)
      | Inr _ \<Rightarrow>
     (case lift_io nonblocking of
        Inl e \<Rightarrow> Some (Inl e)
      | Inr _ \<Rightarrow>
          Some (Inr (up_stream conn,
            \<lparr>px_upstream = \<lparr>m_data = up_stream conn, m_poisoned = False\<rparr>,
             px_cipher = up_write_cipher conn, px_magic = magic_packet conn,
             px_masters = []\<rparr>)))))))))))"

lemma proxy_start_skips:
  assumes "proxy_start connect cn fill args handler bound bind_slave enc_key cloned nonblocking = Some (Inr (st, px))"
  obtains u addr gone where "connect addr = Inr u"
    "stream_bytes (rx u) = px_magic px @ gone @ stream_bytes (rx (m_data (px_upstream px)))"
    "length (px_magic px) = 12" "length gone \<le> 17"
proof -
  from assms obtain host port k c where c: "connect_upstream connect cn fill host port k 500 = Some (Inr c)"
    "px_magic px = magic_packet c" "m_data (px_upstream px) = up_stream c"
    by (auto simp: proxy_start_def split: sum.splits prod.splits option.splits)
  show ?thesis
    by (rule connect_upstream_skips [OF c(1)]) (use that c(2,3) in auto)
qed

section \<open>A local master's session\<close>

definition forward_session ::
  "('c \<Rightarrow> bytes \<Rightarrow> bytes \<times> 'c) \<Rightarrow> turn \<Rightarrow> tcp \<Rightarrow> ip_addr \<Rightarrow> 'c proxy_state \<Rightarrow> 'c proxy_state outcome" where
  "forward_session apply_keystream tu st addr s =
     (case forward_loop apply_keystream (tu_rounds tu)
             \<lparr>fw_master = st, fw_upstream = px_upstream s, fw_cipher = px_cipher s,
              fw_limiter = rate_limiter_new (fst (tu_clock tu)) (snd (tu_clock tu))
                COMMAND_RATE_LIMIT_INTERVAL\<rparr> of
        (fl, f) \<Rightarrow>
          let s' = s\<lparr>px_upstream := fw_upstream f, px_cipher := fw_cipher f\<rparr>
          in case fl of
               Continue \<Rightarrow> Waiting s'
             | Break \<Rightarrow> Going (s'\<lparr>px_masters := px_masters s' @ [(addr, fw_master f)]\<rparr>))"

definition proxy_session ::
  "('c \<Rightarrow> bytes \<Rightarrow> bytes \<times> 'c) \<Rightarrow> args \<Rightarrow> turn \<Rightarrow> tcp \<Rightarrow> ip_addr \<Rightarrow> 'c proxy_state \<Rightarrow>
   'c proxy_state outcome" where
  "proxy_session apply_keystream args tu conn addr s =
     (case set_read_timeout (1000 * unat (arg_read_timeout args)) conn of
        (Inl e, _) \<Rightarrow> Finished (Inl (Io e)) s
      | (Inr _, c1) \<Rightarrow>
     (case set_write_timeout (1000 * unat (arg_write_timeout args)) c1 of
        (Inl e, _) \<Rightarrow> Finished (Inl (Io e)) s
      | (Inr _, c2) \<Rightarrow>
     (case tu_clone_magic tu of
        Inl e \<Rightarrow> Finished (Inl (Io e)) s
      | Inr _ \<Rightarrow>
     (case send_magic (unat (tcp_buffers args)) (px_magic s) c2 of
        (Inl e, _) \<Rightarrow> Finished (Inl (Io e)) s
      | (Inr _, c3) \<Rightarrow>
     (case tu_clone_writer tu of
        Inl e \<Rightarrow> Finished (Inl (Io e)) s
      | Inr _ \<Rightarrow> forward_session apply_keystream tu c3 addr s)))))"

definition proxy_turn ::
  "(string \<Rightarrow> 'e + 'n) \<Rightarrow> ('n \<Rightarrow> ip_addr \<Rightarrow> bool) \<Rightarrow> ('c \<Rightarrow> bytes \<Rightarrow> bytes \<times> 'c) \<Rightarrow> args \<Rightarrow> turn \<Rightarrow>
   'c proxy_state \<Rightarrow> 'c proxy_state outcome" where
  "proxy_turn parse_net net_contains apply_keystream args tu s =
     (if tu_exit tu then Finished (Inr ()) s
      else (case tu_accept tu of
              Inl e \<Rightarrow>
                if err_kind e = WouldBlock then Going s
                else Finished (Inl (Network (''master accept error: '' @ err_msg e))) s
            | Inr (conn, addr) \<Rightarrow>
                (case check_whitelist parse_net net_contains (show_ip_addr (to_canonical addr))
                        (whitelist args) of
                   Inl e \<Rightarrow> Finished (Inl e) s
                 | Inr _ \<Rightarrow>
                     (case proxy_session apply_keystream args tu conn addr s of
                        Going s' \<Rightarrow> (if tu_exit_after tu then Finished (Inr ()) s' else Going s')
                      | r \<Rightarrow> r))))"

fun proxy_loop ::
  "(string \<Rightarrow> 'e + 'n) \<Rightarrow> ('n \<Rightarrow> ip_addr \<Rightarrow> bool) \<Rightarrow> ('c \<Rightarrow> bytes \<Rightarrow> bytes \<times> 'c) \<Rightarrow> args \<Rightarrow> turn list \<Rightarrow>
   'c proxy_state \<Rightarrow> 'c proxy_state outcome" where
  "proxy_loop parse_net net_contains apply_keystream args [] s = Going s"
| "proxy_loop parse_net net_contains apply_keystream args (tu # tus) s =
     (case proxy_turn parse_net net_contains apply_keystream args tu s of
        Going s' \<Rightarrow> proxy_loop parse_net net_contains apply_keystream args tus s'
      | r \<Rightarrow> r)"

section \<open>The wire to the upstream\<close>

text \<open>
  The upstream takes what is written, and what it has been sent since the beginning is one
  stretch of the coded stream, of whole commands.
\<close>

context stream_cipher
begin

definition wire :: "bytes \<Rightarrow> 'c option \<Rightarrow> tcp mutex \<Rightarrow> 'c option \<Rightarrow> bool" where
  "wire sent0 c0 up c \<longleftrightarrow>
     \<not> m_poisoned up \<and> tx_script (m_data up) = [] \<and>
     (\<exists>cmds. list_all (\<lambda>b. length b = 5) cmds \<and> tx (m_data up) = sent0 @ coded c0 (concat cmds) \<and>
        c = advance (length (concat cmds)) c0)"

lemma wire_start:
  assumes "\<not> m_poisoned up" and "tx_script (m_data up) = []"
  shows "wire (tx (m_data up)) c up c"
proof -
  show ?thesis
    using assms unfolding wire_def by (intro conjI exI [of _ "[]"]) simp_all
qed

lemma wire_sent:
  assumes "wire sent0 c0 up c"
  shows "\<exists>cmds. list_all (\<lambda>b. length b = 5) cmds \<and>
    tx (m_data up) = sent0 @ (case c0 of None \<Rightarrow> concat cmds | Some k \<Rightarrow> fst (apply_keystream k (concat cmds)))"
  using assms by (auto simp: wire_def coded_def crypt_def split: option.splits)

lemma relay_command_wire:
  assumes "wire sent0 c0 (fw_upstream f) (fw_cipher f)" and "length buf = 5"
    and "relay_command apply_keystream buf f = (fl, f')"
  shows "wire sent0 c0 (fw_upstream f') (fw_cipher f')"
proof -
  from assms(1) obtain cmds where
    w: "\<not> m_poisoned (fw_upstream f)" "tx_script (m_data (fw_upstream f)) = []"
      "list_all (\<lambda>b. length b = 5) cmds"
      "tx (m_data (fw_upstream f)) = sent0 @ coded c0 (concat cmds)"
      "fw_cipher f = advance (length (concat cmds)) c0"
    by (auto simp: wire_def)
  from relay_command_ok [OF w(1,2), of buf] assms(3) w have f':
    "\<not> m_poisoned (fw_upstream f')" "tx_script (m_data (fw_upstream f')) = []"
    "tx (m_data (fw_upstream f')) = sent0 @ coded c0 (concat (cmds @ [buf]))"
    "fw_cipher f' = advance (length (concat (cmds @ [buf]))) c0"
    by (auto simp: coded_append advance_add)
  with w(3) assms(2) show ?thesis
    unfolding wire_def by (intro conjI exI [of _ "cmds @ [buf]"]) auto
qed

lemma forward_round_wire:
  assumes "forward_round apply_keystream r f = (fl, f')"
    and "wire sent0 c0 (fw_upstream f) (fw_cipher f)"
  shows "wire sent0 c0 (fw_upstream f') (fw_cipher f')"
proof -
  obtain res st where st: "tcp_read_exact COMMAND_HEADER_SIZE (fw_master f) = (res, st)"
    by (cases "tcp_read_exact COMMAND_HEADER_SIZE (fw_master f)")
  show ?thesis
  proof (cases "\<exists>buf rl. res = Inr buf \<and>
      relay_command apply_keystream buf (f\<lparr>fw_master := st, fw_limiter := rl\<rparr>) = (fl, f')")
    case True
    then obtain buf rl where b: "res = Inr buf"
      "relay_command apply_keystream buf (f\<lparr>fw_master := st, fw_limiter := rl\<rparr>) = (fl, f')" by blast
    have "length buf = 5"
      using tcp_read_exact_length [of COMMAND_HEADER_SIZE "fw_master f" buf st] st b
      by (simp add: COMMAND_HEADER_SIZE_def)
    from relay_command_wire [OF _ this b(2)] assms(2) show ?thesis by simp
  next
    case False
    with assms st have "fw_upstream f' = fw_upstream f" "fw_cipher f' = fw_cipher f"
      by (auto simp: forward_round_def Let_def split: sum.splits prod.splits if_splits)
    with assms(2) show ?thesis by simp
  qed
qed

lemma forward_session_wire:
  assumes "wire sent0 c0 (px_upstream s) (px_cipher s)"
  shows "wire sent0 c0 (px_upstream (outcome_state (forward_session apply_keystream tu st addr s)))
    (px_cipher (outcome_state (forward_session apply_keystream tu st addr s)))"
proof -
  let ?f = "\<lparr>fw_master = st, fw_upstream = px_upstream s, fw_cipher = px_cipher s,
    fw_limiter = rate_limiter_new (fst (tu_clock tu)) (snd (tu_clock tu)) COMMAND_RATE_LIMIT_INTERVAL\<rparr>"
  obtain fl f where f: "forward_loop apply_keystream (tu_rounds tu) ?f = (fl, f)"
    by (cases "forward_loop apply_keystream (tu_rounds tu) ?f")
  then have "Some (forward_loop apply_keystream (tu_rounds tu) ?f) = Some (fl, f)" by simp
  from forward_thread.run_invariant [where I = "\<lambda>f. wire sent0 c0 (fw_upstream f) (fw_cipher f)", OF this]
  have "wire sent0 c0 (fw_upstream f) (fw_cipher f)"
    using assms by (auto intro: forward_round_wire)
  with f show ?thesis by (cases fl) (simp_all add: forward_session_def Let_def)
qed

lemma proxy_turn_wire:
  assumes "wire sent0 c0 (px_upstream s) (px_cipher s)"
  shows "wire sent0 c0 (px_upstream (outcome_state (proxy_turn p n apply_keystream args tu s)))
    (px_cipher (outcome_state (proxy_turn p n apply_keystream args tu s)))"
proof -
  have ses: "wire sent0 c0 (px_upstream (outcome_state (proxy_session apply_keystream args tu conn addr s)))
    (px_cipher (outcome_state (proxy_session apply_keystream args tu conn addr s)))" for conn addr
    using assms forward_session_wire [OF assms, of tu]
    by (auto simp: proxy_session_def split: sum.splits prod.splits)
  show ?thesis
  proof (cases "tu_accept tu")
    case (Inr ca)
    obtain conn addr where ca: "ca = (conn, addr)" by (cases ca)
    from ses [of conn addr] assms Inr ca show ?thesis
      by (cases "proxy_session apply_keystream args tu conn addr s")
        (auto simp: proxy_turn_def split: sum.splits)
  qed (use assms in \<open>simp add: proxy_turn_def\<close>)
qed

lemma proxy_loop_wire:
  "wire sent0 c0 (px_upstream s) (px_cipher s) \<Longrightarrow>
   wire sent0 c0 (px_upstream (outcome_state (proxy_loop p n apply_keystream args tus s)))
    (px_cipher (outcome_state (proxy_loop p n apply_keystream args tus s)))"
proof (induction tus arbitrary: s)
  case (Cons tu tus)
  from proxy_turn_wire [OF Cons.prems, of p n args tu] Cons.IH show ?case
    by (cases "proxy_turn p n apply_keystream args tu s") simp_all
qed simp

end

section \<open>What a local master gets\<close>

lemma forward_round_master:
  assumes "forward_round k r f = (fl, f')"
  shows "tx (fw_master f') = tx (fw_master f)" "tx_script (fw_master f') = tx_script (fw_master f)"
    "script_size (rx (fw_master f')) \<le> script_size (rx (fw_master f))"
proof -
  obtain res st where st: "tcp_read_exact COMMAND_HEADER_SIZE (fw_master f) = (res, st)"
    by (cases "tcp_read_exact COMMAND_HEADER_SIZE (fw_master f)")
  have "fw_master f' = st"
  proof (cases "\<exists>buf rl. relay_command k buf (f\<lparr>fw_master := st, fw_limiter := rl\<rparr>) = (fl, f')")
    case True
    then show ?thesis
      using relay_command_frame(1) by (metis forwarder.select_convs(1) forwarder.surjective
          forwarder.update_convs(1,4) snd_conv)
  next
    case False
    with assms st show ?thesis
      by (auto simp: forward_round_def Let_def split: sum.splits prod.splits if_splits)
  qed
  moreover have "tx st = tx (fw_master f)" "tx_script st = tx_script (fw_master f)"
    using tcp_read_exact_frame(1) [OF st] by (metis tcp.select_convs(2,3) tcp.surjective tcp.update_convs(1))+
  ultimately show "tx (fw_master f') = tx (fw_master f)"
    "tx_script (fw_master f') = tx_script (fw_master f)"
    "script_size (rx (fw_master f')) \<le> script_size (rx (fw_master f))"
    using tcp_read_exact_frame(2) [OF st] by simp_all
qed

lemma forward_loop_master_tx:
  fixes rs :: "'r round_scheme list"
  assumes "forward_loop k rs f = (fl, f')"
  shows "tx (fw_master f') = tx (fw_master f)"
proof -
  have round: "tx (fw_master g') = tx (fw_master g)" if "forward_round k r g = (fl, g')"
    for r :: "'r round_scheme" and g g' fl
    by (rule forward_round_master(1) [OF that])
  have "Some (forward_loop k rs f) = Some (fl, f')" using assms by simp
  from forward_thread.run_invariant [where I = "\<lambda>g. tx (fw_master g) = tx (fw_master f)", OF this]
  show ?thesis using round by auto
qed

section \<open>Properties\<close>

text \<open>
  Over any number of local masters, in whatever way they connect, misbehave and
  disconnect, the proxy sends its upstream nothing but whole five-byte commands, coded by
  one continuous keystream across all of them (or in clear, without encryption), as long as
  the upstream takes what is written.
\<close>

lemma proxy_wire_continuous:
  assumes "stream_cipher apply_keystream" and "\<not> m_poisoned (px_upstream s)"
    and "tx_script (m_data (px_upstream s)) = []"
  shows "\<exists>cmds. list_all (\<lambda>c. length c = 5) cmds \<and>
    tx (m_data (px_upstream (outcome_state
      (proxy_loop parse_net net_contains apply_keystream args tus s)))) =
    tx (m_data (px_upstream s)) @
      (case px_cipher s of None \<Rightarrow> concat cmds | Some c \<Rightarrow> fst (apply_keystream c (concat cmds)))"
proof -
  note c = assms(1)
  from stream_cipher.wire_sent [OF c stream_cipher.proxy_loop_wire [OF c
      stream_cipher.wire_start [OF c assms(2,3)], of parse_net net_contains args tus]]
  show ?thesis by blast
qed

text \<open>A proxy just connected, over an encrypted link.\<close>

definition demo_proxy :: "((nat \<Rightarrow> u8) \<times> nat) proxy_state" where
  "demo_proxy =
     \<lparr>px_upstream = \<lparr>m_data = fresh_tcp [], m_poisoned = False\<rparr>, px_cipher = Some demo_cipher,
      px_magic = MAGIC_PACKET, px_masters = []\<rparr>"

lemma proxy_wire_continuous_witness:
  "\<exists>cmds. list_all (\<lambda>c. length c = 5) cmds \<and>
    tx (m_data (px_upstream (outcome_state
      (proxy_loop (\<lambda>_. Inr () :: unit + unit) (\<lambda>_ _. True) ks_apply demo_multi_args [demo_turn, demo_turn]
        demo_proxy)))) = fst (ks_apply demo_cipher (concat cmds))"
  using proxy_wire_continuous [OF ks.stream_cipher_axioms, of demo_proxy
      "\<lambda>_. Inr () :: unit + unit" "\<lambda>_ _. True" demo_multi_args "[demo_turn, demo_turn]"]
  by (simp add: demo_proxy_def del: proxy_loop.simps)

text \<open>
  A local master of the proxy that was served has received the upstream's magic packet
  before anything else: it is sent before the master is subscribed to the samples, and the
  thread that reads the master's commands sends it nothing.
\<close>

lemma proxy_master_gets_magic:
  assumes "proxy_session apply_keystream args tu conn addr s = Going s'" and "args_ok args"
  shows "\<exists>st. px_masters s' = px_masters s @ [(addr, st)] \<and> tx st = tx conn @ px_magic s"
proof -
  let ?c = "conn\<lparr>read_timeout := Some (1000 * unat (arg_read_timeout args)),
    write_timeout := Some (1000 * unat (arg_write_timeout args))\<rparr>"
  have "unat (arg_read_timeout args) \<noteq> 0" "unat (arg_write_timeout args) \<noteq> 0"
    and cap: "0 < unat (tcp_buffers args)"
    using assms(2) by (simp_all add: args_ok_def)
  with assms(1) obtain c3 where c3: "send_magic (unat (tcp_buffers args)) (px_magic s) ?c = (Inr (), c3)"
    "forward_session apply_keystream tu c3 addr s = Going s'"
    by (auto simp: proxy_session_def set_read_timeout_def set_write_timeout_def
        split: sum.splits prod.splits)
  from send_magic_ok [OF c3(1) cap] have "tx c3 = tx conn @ px_magic s" by simp
  moreover from c3(2) obtain f fl where "forward_loop apply_keystream (tu_rounds tu)
      \<lparr>fw_master = c3, fw_upstream = px_upstream s, fw_cipher = px_cipher s,
       fw_limiter = rate_limiter_new (fst (tu_clock tu)) (snd (tu_clock tu)) COMMAND_RATE_LIMIT_INTERVAL\<rparr> =
        (fl, f)" "px_masters s' = px_masters s @ [(addr, fw_master f)]"
    by (auto simp: forward_session_def Let_def split: prod.splits flow.splits)
  ultimately show ?thesis using forward_loop_master_tx by fastforce
qed

lemma proxy_master_gets_magic_witness:
  "\<exists>s' st. proxy_session ks_apply demo_multi_args demo_turn (fresh_tcp [Data [1, 0, 0, 0, 9]])
      (V4 10 0 0 1) demo_proxy = Going s' \<and>
    px_masters s' = [(V4 10 0 0 1, st)] \<and> tx st = MAGIC_PACKET"
proof -
  have ok: "args_ok demo_multi_args" by (simp add: args_ok_def demo_multi_args_def)
  let ?c = "(fresh_tcp [Data [1, 0, 0, 0, 9]])\<lparr>read_timeout := Some 30000, write_timeout := Some 30000\<rparr>"
  obtain c3 where c3: "send_magic 512000 MAGIC_PACKET ?c = (Inr (), c3)" "rx c3 = [Data [1, 0, 0, 0, 9]]"
    by (simp add: send_magic_def buf_write_all_def MAGIC_PACKET_def buf_drop_def)
  let ?f = "\<lparr>fw_master = c3, fw_upstream = px_upstream demo_proxy, fw_cipher = px_cipher demo_proxy,
    fw_limiter = rate_limiter_new (fst (tu_clock demo_turn)) (snd (tu_clock demo_turn))
      COMMAND_RATE_LIMIT_INTERVAL\<rparr>"
  have "script_size (rx (fw_master ?f)) < length (tu_rounds demo_turn)"
    using c3(2) by (simp add: demo_turn_def)
  from forward_thread.run_ends [OF this, of ks_apply] obtain f where
    "forward_loop ks_apply (tu_rounds demo_turn) ?f = (Break, f)" by auto
  with c3(1) obtain s' where s': "proxy_session ks_apply demo_multi_args demo_turn
      (fresh_tcp [Data [1, 0, 0, 0, 9]]) (V4 10 0 0 1) demo_proxy = Going s'"
    by (simp add: proxy_session_def demo_multi_args_def set_read_timeout_def set_write_timeout_def
        demo_turn_def [THEN arg_cong [where f = tu_clone_magic]]
        demo_turn_def [THEN arg_cong [where f = tu_clone_writer]]
        demo_proxy_def [THEN arg_cong [where f = px_magic]] forward_session_def Let_def)
  from proxy_master_gets_magic [OF s' ok] s' show ?thesis by (auto simp: demo_proxy_def)
qed

end
