(* ===== verification/Proxy_Steps.thy ===== *)
theory Proxy_Steps
  imports Fanout_Threads Proxy_Multi
begin

text \<open>
  Proxy mode (\<open>run_proxy_multi\<close> of \<open>src/main.rs\<close>) as the interleaving of its threads:
  the main thread, the thread that reads the upstream and feeds the channel, the thread
  that forwards the current master's commands, the writers, the slave acceptor and the
  signal handler. The reader and the forwarder work on clones of the one upstream socket.
\<close>

section \<open>State\<close>

datatype proxy_pc =
    PxAccepting
  | PxServing nat
  | PxJoining
  | PxReturned "rtl_tcp_error + unit"

record forward_thread =
  ft_limiter :: rate_limiter
  ft_done :: bool

text \<open>
  \<open>pt_relayed\<close> is what was handed to the channel so far. The channel on which the
  reader reports a failure has no receiver that is ever read; its one place is
  \<open>pt_slot\<close>.
\<close>

record ('c, 'rcvr) proxy_threads =
  pt_main :: proxy_pc
  pt_forward :: "forward_thread option"
  pt_fan :: "('c, 'rcvr) fanout"
  pt_upstream :: "tcp mutex"
  pt_cipher :: "'c option"
  pt_magic :: bytes
  pt_slot :: bool
  pt_exit :: bool
  pt_reader_done :: bool
  pt_relayed :: "bytes list"

record ('c, 'rcvr) pt_env =
  pt_args :: args
  pt_fanout :: "('c, 'rcvr) fan_env"
  pt_cipher_new :: "bytes \<Rightarrow> bytes \<Rightarrow> 'c"

definition pt_begin :: "'c proxy_state \<Rightarrow> ('c, 'rcvr) proxy_threads" where
  "pt_begin s =
     \<lparr>pt_main = PxAccepting, pt_forward = None,
      pt_fan = \<lparr>conns = [], listed = \<lparr>m_data = [], m_poisoned = False\<rparr>, writers = [],
                slaves_admitted = 0, acceptor_ended = False, nonce_owner = None\<rparr>,
      pt_upstream = px_upstream s, pt_cipher = px_cipher s, pt_magic = px_magic s,
      pt_slot = False, pt_exit = False, pt_reader_done = False, pt_relayed = []\<rparr>"

section \<open>The steps\<close>

definition pt_signal :: "('c, 'rcvr) proxy_threads \<Rightarrow> ('c, 'rcvr) proxy_threads" where
  "pt_signal s = s\<lparr>pt_slot := True, pt_exit := True\<rparr>"

text \<open>A round of the thread that reads the upstream; what it reads goes to the channel.\<close>

definition pt_reader ::
  "('c, 'rcvr) pt_env \<Rightarrow> ('c, 'rcvr) proxy_threads \<Rightarrow> ('c, 'rcvr) proxy_threads" where
  "pt_reader env s =
     (case upstream_round (pt_exit s)
             \<lparr>ur_stream = m_data (pt_upstream s), ur_sent = [], ur_signalled = False\<rparr> of
        (fl, u) \<Rightarrow>
          s\<lparr>pt_upstream := (pt_upstream s)\<lparr>m_data := ur_stream u\<rparr>,
            pt_fan := fold (broadcast_buffer (pt_fanout env)) (ur_sent u) (pt_fan s),
            pt_relayed := pt_relayed s @ ur_sent u,
            pt_slot := pt_slot s \<or> ur_signalled u,
            pt_reader_done := (fl = Break)\<rparr>)"

text \<open>A round of the thread that forwards the commands of the master on socket \<open>i\<close>.\<close>

definition pt_forwarder ::
  "('c, 'rcvr) pt_env \<Rightarrow> instant \<Rightarrow> nat \<Rightarrow> forward_thread \<Rightarrow> ('c, 'rcvr) proxy_threads \<Rightarrow>
   ('c, 'rcvr) proxy_threads" where
  "pt_forwarder env t i ft s =
     (case forward_round (fe_apply_keystream (pt_fanout env)) \<lparr>should_exit = pt_exit s, now = t\<rparr>
             \<lparr>fw_master = conns (pt_fan s) ! i, fw_upstream = pt_upstream s, fw_cipher = pt_cipher s,
              fw_limiter = ft_limiter ft\<rparr> of
        (fl, f) \<Rightarrow>
          s\<lparr>pt_fan := (pt_fan s)\<lparr>conns := (conns (pt_fan s))[i := fw_master f]\<rparr>,
            pt_upstream := fw_upstream f, pt_cipher := fw_cipher f,
            pt_forward := Some \<lparr>ft_limiter = fw_limiter f, ft_done = (fl = Break)\<rparr>\<rparr>)"

definition pt_return ::
  "rtl_tcp_error + unit \<Rightarrow> ('c, 'rcvr) proxy_threads \<Rightarrow> ('c, 'rcvr) proxy_threads" where
  "pt_return r s = s\<lparr>pt_main := PxReturned r\<rparr>"

definition pt_stop :: "('c, 'rcvr) proxy_threads \<Rightarrow> ('c, 'rcvr) proxy_threads" where
  "pt_stop s = s\<lparr>pt_exit := True, pt_slot := True, pt_main := PxJoining\<rparr>"

text \<open>
  A master that passed the whitelist: its magic packet is sent before its writer starts,
  so nobody else uses the socket until then.
\<close>

definition pt_open ::
  "('c, 'rcvr) pt_env \<Rightarrow> turn \<Rightarrow> tcp \<Rightarrow> ('c, 'rcvr) proxy_threads \<Rightarrow> ('c, 'rcvr) proxy_threads" where
  "pt_open env tu conn s =
     (let f = pt_fan s; i = length (conns f); args = pt_args env
      in case set_read_timeout (1000 * unat (arg_read_timeout args)) conn of
           (Inl e, _) \<Rightarrow> pt_return (Inl (Io e)) s
         | (Inr _, c1) \<Rightarrow>
         (case set_write_timeout (1000 * unat (arg_write_timeout args)) c1 of
            (Inl e, _) \<Rightarrow> pt_return (Inl (Io e)) s
          | (Inr _, c2) \<Rightarrow>
         (case tu_clone_magic tu of
            Inl e \<Rightarrow> pt_return (Inl (Io e)) s
          | Inr _ \<Rightarrow>
         (case send_magic (unat (tcp_buffers args)) (pt_magic s) c2 of
            (Inl e, _) \<Rightarrow> pt_return (Inl (Io e)) s
          | (Inr _, c3) \<Rightarrow>
         (case tu_clone_writer tu of
            Inl e \<Rightarrow> pt_return (Inl (Io e)) s
          | Inr _ \<Rightarrow>
              s\<lparr>pt_fan := spawn_writer (pt_fanout env) i False PlainWriter (f\<lparr>conns := conns f @ [c3]\<rparr>),
                pt_forward := Some \<lparr>ft_limiter = rate_limiter_new (fst (tu_clock tu)) (snd (tu_clock tu))
                  COMMAND_RATE_LIMIT_INTERVAL, ft_done = False\<rparr>,
                pt_main := PxServing i\<rparr>)))))"

definition pt_accept ::
  "(string \<Rightarrow> 'e + 'n) \<Rightarrow> ('n \<Rightarrow> ip_addr \<Rightarrow> bool) \<Rightarrow> ('c, 'rcvr) pt_env \<Rightarrow> turn \<Rightarrow>
   ('c, 'rcvr) proxy_threads \<Rightarrow> ('c, 'rcvr) proxy_threads" where
  "pt_accept parse_net net_contains env tu s =
     (if pt_exit s then pt_stop s
      else (case tu_accept tu of
              Inl e \<Rightarrow>
                if err_kind e = WouldBlock then s
                else pt_return (Inl (Network (''master accept error: '' @ err_msg e))) s
            | Inr (conn, addr) \<Rightarrow>
                (case check_whitelist parse_net net_contains (show_ip_addr (to_canonical addr))
                        (whitelist (pt_args env)) of
                   Inl e \<Rightarrow> pt_return (Inl e) s
                 | Inr _ \<Rightarrow> pt_open env tu conn s)))"

definition pt_join_forward :: "('c, 'rcvr) proxy_threads \<Rightarrow> ('c, 'rcvr) proxy_threads" where
  "pt_join_forward s =
     (let s' = s\<lparr>pt_forward := None\<rparr>
      in if pt_exit s then pt_stop s' else s'\<lparr>pt_main := PxAccepting\<rparr>)"

text \<open>The writers of the proxy never encrypt: there is no key and there are no nonces for them.\<close>

definition pt_writer ::
  "('c, 'rcvr) pt_env \<Rightarrow> nat \<Rightarrow> ('c, 'rcvr) proxy_threads \<Rightarrow> ('c, 'rcvr) proxy_threads" where
  "pt_writer env k s =
     s\<lparr>pt_fan := writer_turn (pt_fanout env) (pt_cipher_new env) None None (pt_exit s) k (pt_fan s)\<rparr>"

definition proxy_acceptor_env :: "args \<Rightarrow> bytes \<Rightarrow> acceptor_env" where
  "proxy_acceptor_env args magic =
     \<lparr>acc_magic = magic, acc_whitelist = whitelist args,
      acc_max_slaves = max_slaves args, acc_tcp_buffers = unat (tcp_buffers args)\<rparr>"

definition pt_acceptor ::
  "(string \<Rightarrow> 'e + 'n) \<Rightarrow> ('n \<Rightarrow> ip_addr \<Rightarrow> bool) \<Rightarrow> ('c, 'rcvr) pt_env \<Rightarrow> accept_result \<Rightarrow>
   ('c, 'rcvr) proxy_threads \<Rightarrow> ('c, 'rcvr) proxy_threads" where
  "pt_acceptor parse_net net_contains env res s =
     s\<lparr>pt_fan := acceptor_turn parse_net net_contains (proxy_acceptor_env (pt_args env) (pt_magic s))
         (pt_fanout env) (pt_exit s) res (pt_fan s)\<rparr>"

section \<open>Interleavings\<close>

definition pt_running :: "('c, 'rcvr) proxy_threads \<Rightarrow> bool" where
  "pt_running s \<longleftrightarrow> (case pt_main s of PxReturned r \<Rightarrow> False | _ \<Rightarrow> True)"

datatype pt_event =
    PxSignal
  | PxReader
  | PxForward instant
  | PxWriter nat
  | PxSlave accept_result
  | PxAccept turn
  | PxJoinForward
  | PxJoinReader

text \<open>
  The acceptor runs only when a slave port is given.
\<close>

inductive pt_step ::
  "(string \<Rightarrow> 'e + 'n) \<Rightarrow> ('n \<Rightarrow> ip_addr \<Rightarrow> bool) \<Rightarrow> ('c, 'rcvr) pt_env \<Rightarrow> pt_event \<Rightarrow>
   ('c, 'rcvr) proxy_threads \<Rightarrow> ('c, 'rcvr) proxy_threads \<Rightarrow> bool" for p n env where
  pt_signal: "pt_running s \<Longrightarrow> pt_step p n env PxSignal s (pt_signal s)"
| pt_reader: "pt_running s \<Longrightarrow> \<not> pt_reader_done s \<Longrightarrow> pt_step p n env PxReader s (pt_reader env s)"
| pt_forwarder: "pt_main s = PxServing i \<Longrightarrow> pt_forward s = Some ft \<Longrightarrow> \<not> ft_done ft \<Longrightarrow>
    pt_step p n env (PxForward t) s (pt_forwarder env t i ft s)"
| pt_writer: "pt_running s \<Longrightarrow> writer_enabled None k (pt_fan s) \<Longrightarrow>
    pt_step p n env (PxWriter k) s (pt_writer env k s)"
| pt_acceptor: "pt_running s \<Longrightarrow> slave_port (pt_args env) \<noteq> None \<Longrightarrow> \<not> acceptor_ended (pt_fan s) \<Longrightarrow>
    pt_step p n env (PxSlave res) s (pt_acceptor p n env res s)"
| pt_accept: "pt_main s = PxAccepting \<Longrightarrow> pt_step p n env (PxAccept tu) s (pt_accept p n env tu s)"
| pt_join_forward: "pt_main s = PxServing i \<Longrightarrow> pt_forward s = Some ft \<Longrightarrow> ft_done ft \<Longrightarrow>
    pt_step p n env PxJoinForward s (pt_join_forward s)"
| pt_join_reader: "pt_main s = PxJoining \<Longrightarrow> pt_reader_done s \<Longrightarrow>
    pt_step p n env PxJoinReader s (pt_return (Inr ()) s)"

abbreviation pt_run ::
  "(string \<Rightarrow> 'e + 'n) \<Rightarrow> ('n \<Rightarrow> ip_addr \<Rightarrow> bool) \<Rightarrow> ('c, 'rcvr) pt_env \<Rightarrow> pt_event list \<Rightarrow>
   ('c, 'rcvr) proxy_threads \<Rightarrow> ('c, 'rcvr) proxy_threads \<Rightarrow> bool" where
  "pt_run p n env \<equiv> runs (pt_step p n env)"

inductive_cases pt_step_elims: "pt_step p n env ev s s'"

section \<open>Well-formed states\<close>

text \<open>
  All writers send in clear and nobody holds the lock on the nonces; there is a forwarder
  exactly while the main thread waits for it; the proxy leaves its loop only with the exit
  flag set, and returns without an error only after the reader has ended.
\<close>

definition all_plain :: "('c, 'rcvr) fanout \<Rightarrow> bool" where
  "all_plain f \<longleftrightarrow>
     list_all (\<lambda>w. w_pc w = Running PlainWriter \<or> (\<exists>e. w_pc w = Ended e)) (writers f)"

definition pt_wf :: "('c, 'rcvr) proxy_threads \<Rightarrow> bool" where
  "pt_wf s \<longleftrightarrow>
     fanout_wf (pt_fan s) \<and> nonce_owner (pt_fan s) = None \<and> all_plain (pt_fan s) \<and>
     (pt_forward s \<noteq> None \<longleftrightarrow> (\<exists>i. pt_main s = PxServing i)) \<and>
     (\<forall>i. pt_main s = PxServing i \<longrightarrow> i < length (conns (pt_fan s))) \<and>
     (pt_main s = PxJoining \<longrightarrow> pt_exit s) \<and>
     (pt_main s = PxReturned (Inr ()) \<longrightarrow> pt_exit s \<and> pt_reader_done s)"

lemma fold_broadcast_frame [simp]:
  "conns (fold (broadcast_buffer env) bs f) = conns f"
  "listed (fold (broadcast_buffer env) bs f) = listed f"
  "nonce_owner (fold (broadcast_buffer env) bs f) = nonce_owner f"
  "acceptor_ended (fold (broadcast_buffer env) bs f) = acceptor_ended f"
  "length (writers (fold (broadcast_buffer env) bs f)) = length (writers f)"
  "fan_weight (fold (broadcast_buffer env) bs f) = fan_weight f"
  by (induction bs arbitrary: f) simp_all

lemma fold_broadcast_wf: "fanout_wf f \<Longrightarrow> fanout_wf (fold (broadcast_buffer env) bs f)"
  by (induction bs arbitrary: f) (simp_all add: wf_broadcast)

lemma fold_broadcast_writers:
  assumes "k < length (writers f)"
  shows "w_pc (writers (fold (broadcast_buffer env) bs f) ! k) = w_pc (writers f ! k)"
    "w_conn (writers (fold (broadcast_buffer env) bs f) ! k) = w_conn (writers f ! k)"
  using assms by (induction bs arbitrary: f) simp_all

lemma all_plain_fold: "all_plain f \<Longrightarrow> all_plain (fold (broadcast_buffer env) bs f)"
  by (simp add: all_plain_def list_all_length fold_broadcast_writers)

lemma all_plain_turn:
  assumes "all_plain f" and "k < length (writers f)"
  shows "all_plain (writer_turn env cn None None ex k f)"
    "nonce_owner (writer_turn env cn None None ex k f) = nonce_owner f"
proof -
  have pc: "w_pc (writers f ! k) = Running PlainWriter \<or> (\<exists>e. w_pc (writers f ! k) = Ended e)"
    using assms by (simp add: all_plain_def list_all_length)
  then show "nonce_owner (writer_turn env cn None None ex k f) = nonce_owner f"
    by (cases rule: writer_turn_cases [of env cn None None ex k f]) auto
  have "w_pc (writers (writer_turn env cn None None ex k f) ! k) = Running PlainWriter \<or>
      (\<exists>e. w_pc (writers (writer_turn env cn None None ex k f) ! k) = Ended e)"
    using pc assms(2)
    by (cases rule: writer_turn_cases [of env cn None None ex k f]) (auto dest: plain_round_result(2))
  then have "w_pc (writers (writer_turn env cn None None ex k f) ! j) = Running PlainWriter \<or>
      (\<exists>e. w_pc (writers (writer_turn env cn None None ex k f) ! j) = Ended e)"
    if "j < length (writers f)" for j
    using that assms(1) by (cases "j = k") (auto simp: all_plain_def list_all_length)
  then show "all_plain (writer_turn env cn None None ex k f)"
    by (simp add: all_plain_def list_all_length)
qed

lemma all_plain_acceptor:
  assumes "all_plain f"
  shows "all_plain (acceptor_turn p n aenv env ex res f)"
  using assms
  by (cases rule: acceptor_turn_cases [of p n aenv env ex res f])
    (simp_all add: all_plain_def spawn_writer_def)

text \<open>What accepting a master comes to.\<close>

lemma pt_open_cases:
  obtains (out) e where "pt_open env tu conn s = s\<lparr>pt_main := PxReturned (Inl e)\<rparr>"
  | (opened) st ft where "pt_open env tu conn s =
      s\<lparr>pt_fan := spawn_writer (pt_fanout env) (length (conns (pt_fan s))) False PlainWriter
          ((pt_fan s)\<lparr>conns := conns (pt_fan s) @ [st]\<rparr>),
        pt_forward := Some ft, pt_main := PxServing (length (conns (pt_fan s)))\<rparr>" "\<not> ft_done ft"
      "\<exists>c. send_magic (unat (tcp_buffers (pt_args env))) (pt_magic s) c = (Inr (), st) \<and>
         tx c = tx conn \<and> tx_script c = tx_script conn"
proof -
  obtain r1 c1 where r1: "set_read_timeout (1000 * unat (arg_read_timeout (pt_args env))) conn = (r1, c1)"
    by fastforce
  obtain r2 c2 where r2: "set_write_timeout (1000 * unat (arg_write_timeout (pt_args env))) c1 = (r2, c2)"
    by fastforce
  obtain r3 c3 where r3: "send_magic (unat (tcp_buffers (pt_args env))) (pt_magic s) c2 = (r3, c3)"
    by fastforce
  from r1 r2 have same: "tx c2 = tx conn" "tx_script c2 = tx_script conn"
    by (auto simp: set_read_timeout_def set_write_timeout_def split: if_splits)
  show ?thesis
  proof (cases "r1 = Inr () \<and> r2 = Inr () \<and> r3 = Inr () \<and> tu_clone_magic tu = Inr () \<and>
      tu_clone_writer tu = Inr ()")
    case True
    let ?ft = "\<lparr>ft_limiter = rate_limiter_new (fst (tu_clock tu)) (snd (tu_clock tu))
      COMMAND_RATE_LIMIT_INTERVAL, ft_done = False\<rparr>"
    from True r1 r2 r3 same opened [of ?ft c3] show ?thesis by (auto simp: pt_open_def Let_def)
  next
    case False
    with r1 r2 r3 have "\<exists>e. pt_open env tu conn s = s\<lparr>pt_main := PxReturned (Inl e)\<rparr>"
      by (auto simp: pt_open_def Let_def pt_return_def split: sum.splits)
    with out show ?thesis by blast
  qed
qed

lemma pt_wf_open:
  assumes "pt_wf s" and "pt_main s = PxAccepting"
  shows "pt_wf (pt_open env tu conn s)"
proof (cases rule: pt_open_cases [of env tu conn s])
  case (out e)
  with assms show ?thesis by (auto simp: pt_wf_def)
next
  case (opened st ft)
  have wf: "fanout_wf (pt_fan s)" using assms(1) by (simp add: pt_wf_def)
  have "fanout_wf (spawn_writer (pt_fanout env) (length (conns (pt_fan s))) False PlainWriter
      ((pt_fan s)\<lparr>conns := conns (pt_fan s) @ [st]\<rparr>))"
    using wf_add_conn [OF wf, of st] wf_fresh [OF wf] by (intro wf_spawn) simp_all
  with assms(1) show ?thesis
    unfolding opened(1) by (simp add: pt_wf_def all_plain_def spawn_writer_def)
qed

lemma pt_step_wf:
  assumes "pt_step p n env ev s s'" and "pt_wf s"
  shows "pt_wf s'"
  using assms
proof (induction rule: pt_step.induct)
  case (pt_signal s)
  then show ?case by (auto simp: pt_signal_def pt_wf_def pt_running_def)
next
  case (pt_reader s)
  then show ?case
    by (auto simp: pt_reader_def pt_wf_def fold_broadcast_wf all_plain_fold pt_running_def
        split: prod.splits)
next
  case (pt_forwarder s i ft t)
  then show ?case
    by (auto simp: pt_forwarder_def pt_wf_def fanout_wf_def all_plain_def split: prod.splits)
next
  case (pt_writer s k)
  then show ?case
    by (auto simp: pt_writer_def pt_wf_def writer_enabled_def wf_writer_turn all_plain_turn)
next
  case (pt_acceptor s res)
  have "length (conns (pt_fan s)) \<le> length (conns (pt_fan (pt_acceptor p n env res s)))"
    by (simp add: pt_acceptor_def)
  with pt_acceptor show ?case
    by (auto simp: pt_acceptor_def pt_wf_def wf_acceptor_turn all_plain_acceptor
        intro: order.strict_trans2 simp del: acceptor_turn_frame(2))
next
  case (pt_accept s tu)
  have "pt_wf (pt_return (Inl e) s)" "pt_wf (pt_stop s)" for e
    using pt_accept by (auto simp: pt_return_def pt_stop_def pt_wf_def)
  with pt_accept pt_wf_open show ?case
    by (auto simp: pt_accept_def split: sum.splits prod.splits)
next
  case (pt_join_forward s i ft)
  then show ?case by (auto simp: pt_join_forward_def pt_stop_def pt_wf_def Let_def)
next
  case (pt_join_reader s)
  then show ?case by (auto simp: pt_return_def pt_wf_def)
qed

interpretation pt: step_system "pt_step p n env" pt_wf for p n env
  by unfold_locales (rule pt_step_wf)

lemma pt_begin_wf: "pt_wf (pt_begin s)"
  by (simp add: pt_begin_def pt_wf_def fanout_wf_def all_plain_def)

section \<open>Shutting down\<close>

text \<open>
  How often the peer will be silent for longer than the read timeout. With the exit flag set
  only this keeps the forwarder going: it breaks on the first command it reads.
\<close>

fun pauses :: "read_event list \<Rightarrow> nat" where
  "pauses [] = 0"
| "pauses (Data bs # es) = pauses es"
| "pauses (Fault e # es) = (if is_timeout_err e then 1 else 0) + pauses es"

lemma take_exact_pauses:
  "take_exact k acc es = (r, es') \<Longrightarrow>
     pauses es' + (case r of Inl e \<Rightarrow> if is_timeout_err e then 1 else 0 | Inr bs \<Rightarrow> 0) \<le> pauses es"
proof (induction k acc es rule: take_exact.induct)
  case (1 k acc)
  then show ?case by (auto simp: READ_EXACT_EOF_def is_timeout_err_def split: if_splits)
next
  case (2 k acc e es)
  then show ?case by (auto split: if_splits)
next
  case (3 k acc bs es)
  then show ?case by (auto split: if_splits)
qed

lemma forward_round_exit:
  assumes "forward_round k r f = (fl, f')" and "should_exit r"
  shows "pauses (rx (fw_master f')) + (if fl = Break then 0 else 1) \<le> pauses (rx (fw_master f))"
    "fw_upstream f' = fw_upstream f"
proof -
  obtain res es where es: "take_exact COMMAND_HEADER_SIZE [] (rx (fw_master f)) = (res, es)"
    by (cases "take_exact COMMAND_HEADER_SIZE [] (rx (fw_master f))")
  have "rx (fw_master f') = es \<and> fw_upstream f' = fw_upstream f \<and>
      (fl = Break \<or> (\<exists>e. res = Inl e \<and> is_timeout_err e))"
    using assms es
    by (auto simp: forward_round_def tcp_read_exact_def is_timeout_err_def Let_def
        split: sum.splits if_splits)
  with take_exact_pauses [OF es] show
    "pauses (rx (fw_master f')) + (if fl = Break then 0 else 1) \<le> pauses (rx (fw_master f))"
    "fw_upstream f' = fw_upstream f"
    by (auto split: sum.splits if_splits)
qed

definition pt_own :: "pt_event \<Rightarrow> bool" where
  "pt_own ev \<longleftrightarrow> ev \<noteq> PxSignal"

definition pt_main_weight :: "('c, 'rcvr) proxy_threads \<Rightarrow> nat" where
  "pt_main_weight s =
     (case pt_main s of
        PxAccepting \<Rightarrow> 2
      | PxServing i \<Rightarrow> 3 + pauses (rx (conns (pt_fan s) ! i)) +
          (case pt_forward s of None \<Rightarrow> 0 | Some ft \<Rightarrow> if ft_done ft then 0 else 1)
      | PxJoining \<Rightarrow> 1
      | PxReturned r \<Rightarrow> 0)"

definition pt_remaining :: "('c, 'rcvr) proxy_threads \<Rightarrow> nat" where
  "pt_remaining s =
     pt_main_weight s + fan_weight (pt_fan s) + (if pt_reader_done s then 0 else 1)"

lemma pt_main_weight_cong:
  assumes "pt_main s' = pt_main s" and "pt_forward s' = pt_forward s"
    and "\<And>i. rx (conns (pt_fan s') ! i) = rx (conns (pt_fan s) ! i)"
  shows "pt_main_weight s' = pt_main_weight s"
  using assms by (simp add: pt_main_weight_def split: proxy_pc.splits)

lemma pt_exit_stays: "pt_step p n env ev s s' \<Longrightarrow> pt_exit s \<Longrightarrow> pt_exit s'"
  by (induction rule: pt_step.induct)
    (auto simp: pt_signal_def pt_reader_def pt_forwarder_def pt_writer_def pt_acceptor_def pt_accept_def
      pt_join_forward_def pt_stop_def pt_return_def Let_def split: prod.splits)

lemma pt_step_decreases:
  assumes "pt_step p n env ev s s'" and "pt_exit s" and "pt_wf s" and "pt_own ev"
  shows "pt_remaining s' < pt_remaining s"
  using assms
proof (induction rule: pt_step.induct)
  case (pt_reader s)
  then have "pt_reader env s = s\<lparr>pt_reader_done := True\<rparr>"
    by (simp add: pt_reader_def upstream_round_def)
  with pt_reader pt_main_weight_cong [of "s\<lparr>pt_reader_done := True\<rparr>" s] show ?case
    by (simp add: pt_remaining_def)
next
  case (pt_forwarder s i ft t)
  let ?f = "\<lparr>fw_master = conns (pt_fan s) ! i, fw_upstream = pt_upstream s, fw_cipher = pt_cipher s,
    fw_limiter = ft_limiter ft\<rparr>"
  obtain fl f where f: "forward_round (fe_apply_keystream (pt_fanout env))
      \<lparr>should_exit = pt_exit s, now = t\<rparr> ?f = (fl, f)" by fastforce
  have i: "i < length (conns (pt_fan s))" using pt_forwarder by (auto simp: pt_wf_def)
  have "pauses (rx (fw_master f)) + (if fl = Break then 0 else 1) <
      Suc (pauses (rx (conns (pt_fan s) ! i)))"
    using forward_round_exit(1) [OF f] pt_forwarder(4) by simp
  with f i pt_forwarder show ?case
    by (simp add: pt_forwarder_def pt_remaining_def pt_main_weight_def)
next
  case (pt_writer s k)
  have "w_pc (writers (pt_fan s) ! k) \<noteq> Running AwaitingNonces"
    using pt_writer(2,4) by (auto simp: pt_wf_def all_plain_def list_all_length writer_enabled_def)
  with writer_turn_weight [OF pt_writer(2), of None "pt_fanout env" "pt_cipher_new env"] pt_writer(3)
    pt_main_weight_cong [of "pt_writer env k s" s]
  show ?case by (simp add: pt_writer_def pt_remaining_def writer_turn_conns)
next
  case (pt_acceptor s res)
  let ?a = "proxy_acceptor_env (pt_args env) (pt_magic s)"
  have "acceptor_turn p n ?a (pt_fanout env) True res (pt_fan s) = (pt_fan s)\<lparr>acceptor_ended := True\<rparr>"
    by (cases rule: acceptor_turn_cases [of p n ?a "pt_fanout env" True res "pt_fan s"]) auto
  with pt_acceptor pt_main_weight_cong [of "pt_acceptor p n env res s" s] show ?case
    by (simp add: pt_acceptor_def pt_remaining_def fan_weight_def)
next
  case (pt_accept s tu)
  then show ?case by (simp add: pt_accept_def pt_stop_def pt_remaining_def pt_main_weight_def)
next
  case (pt_join_forward s i ft)
  then show ?case
    by (simp add: pt_join_forward_def pt_stop_def pt_remaining_def pt_main_weight_def Let_def)
next
  case (pt_join_reader s)
  then show ?case by (simp add: pt_return_def pt_remaining_def pt_main_weight_def)
qed (simp add: pt_own_def)

lemma pt_progress:
  assumes "pt_wf s" and "pt_running s"
  shows "\<exists>ev s'. pt_own ev \<and> pt_step p n env ev s s'"
proof -
  have own: "pt_own PxReader" "pt_own (PxForward t)" "pt_own (PxAccept tu)" "pt_own PxJoinForward"
    "pt_own PxJoinReader" for t tu by (simp_all add: pt_own_def)
  show ?thesis
  proof (cases "pt_main s")
    case PxAccepting
    from pt_step.pt_accept [OF this] own(3) show ?thesis by blast
  next
    case (PxServing i)
    with assms(1) obtain ft where ft: "pt_forward s = Some ft" by (auto simp: pt_wf_def)
    show ?thesis
    proof (cases "ft_done ft")
      case True
      from pt_step.pt_join_forward [OF PxServing ft True] own(4) show ?thesis by blast
    next
      case False
      from pt_step.pt_forwarder [OF PxServing ft False] own(2) show ?thesis by blast
    qed
  next
    case PxJoining
    show ?thesis
    proof (cases "pt_reader_done s")
      case True
      from pt_step.pt_join_reader [OF PxJoining True] own(5) show ?thesis by blast
    next
      case False
      from pt_step.pt_reader [OF assms(2) False] own(1) show ?thesis by blast
    qed
  next
    case (PxReturned r)
    with assms(2) show ?thesis by (simp add: pt_running_def)
  qed
qed

interpretation pt_shutdown: stopping_system "pt_step p n env" pt_wf pt_own pt_exit pt_running pt_remaining for p n env
  by unfold_locales (blast intro: pt_exit_stays pt_step_decreases pt_progress)+

end
