(* ===== verification/Proxy_Properties.thy ===== *)
theory Proxy_Properties
  imports Proxy_Steps
begin

text \<open>
  What the interleavings of proxy mode (\<open>Proxy_Steps\<close>) come to: what goes from the
  upstream to the clients, what goes to the upstream, and how the proxy ends.
\<close>

section \<open>From the upstream to the channel\<close>

text \<open>
  What the upstream sends in all: the part relayed and the part not read yet.
\<close>

definition pt_source :: "('c, 'rcvr) proxy_threads \<Rightarrow> bytes" where
  "pt_source s = concat (pt_relayed s) @ stream_bytes (rx (m_data (pt_upstream s)))"

lemma send_upstream_rx: "rx (m_data (fw_upstream (snd (send_upstream b f)))) = rx (m_data (fw_upstream f))"
  by (auto simp: send_upstream_def Let_def tcp_write_all_def split: sum.splits prod.splits)

lemma relay_command_upstream_rx:
  "rx (m_data (fw_upstream (snd (relay_command k buf f)))) = rx (m_data (fw_upstream f))"
  by (simp add: relay_command_def case_prod_beta send_upstream_rx)

lemma forward_round_upstream_rx:
  assumes "forward_round k r f = (fl, f')"
  shows "rx (m_data (fw_upstream f')) = rx (m_data (fw_upstream f))"
proof -
  obtain res st where st: "tcp_read_exact COMMAND_HEADER_SIZE (fw_master f) = (res, st)"
    by (cases "tcp_read_exact COMMAND_HEADER_SIZE (fw_master f)")
  show ?thesis
  proof (cases "\<exists>buf rl. relay_command k buf (f\<lparr>fw_master := st, fw_limiter := rl\<rparr>) = (fl, f')")
    case True
    then obtain buf rl where "relay_command k buf (f\<lparr>fw_master := st, fw_limiter := rl\<rparr>) = (fl, f')"
      by blast
    with relay_command_upstream_rx [of k buf "f\<lparr>fw_master := st, fw_limiter := rl\<rparr>"] show ?thesis
      by simp
  next
    case False
    with assms st show ?thesis
      by (auto simp: forward_round_def Let_def split: sum.splits prod.splits if_splits)
  qed
qed

text \<open>
  What a step relays, with the frame of the other fields the channel does not depend on.
\<close>

lemma pt_reader_relays:
  obtains u fl where "relayed \<lparr>ur_stream = m_data (pt_upstream s), ur_sent = [], ur_signalled = False\<rparr> u (ur_sent u)"
    "pt_reader env s =
       s\<lparr>pt_upstream := (pt_upstream s)\<lparr>m_data := ur_stream u\<rparr>,
         pt_fan := fold (broadcast_buffer (pt_fanout env)) (ur_sent u) (pt_fan s),
         pt_relayed := pt_relayed s @ ur_sent u,
         pt_slot := pt_slot s \<or> ur_signalled u,
         pt_reader_done := (fl = Break)\<rparr>"
    "tx (ur_stream u) = tx (m_data (pt_upstream s))"
    "tx_script (ur_stream u) = tx_script (m_data (pt_upstream s))"
proof -
  let ?u = "\<lparr>ur_stream = m_data (pt_upstream s), ur_sent = [], ur_signalled = False\<rparr>"
  obtain fl u where u: "upstream_round (pt_exit s) ?u = (fl, u)" by fastforce
  from upstream_round_relays [OF u] have "relayed ?u u (ur_sent u)" by (auto simp: relayed_def)
  moreover have "tx (ur_stream u) = tx (m_data (pt_upstream s))"
    "tx_script (ur_stream u) = tx_script (m_data (pt_upstream s))"
    using u by (auto simp: upstream_round_def tcp_read_def split: if_splits prod.splits sum.splits)
  ultimately show ?thesis using that [of u fl] u by (simp add: pt_reader_def)
qed

lemma pt_step_source:
  assumes "pt_step p n env ev s s'"
  shows "pt_source s' = pt_source s \<and> pt_magic s' = pt_magic s \<and> prefix (pt_relayed s) (pt_relayed s')"
  using assms
proof (induction rule: pt_step.induct)
  case (pt_reader s)
  show ?case
    by (rule pt_reader_relays [of s env]) (simp add: relayed_def pt_source_def)
next
  case (pt_forwarder s i ft t)
  let ?f = "\<lparr>fw_master = conns (pt_fan s) ! i, fw_upstream = pt_upstream s, fw_cipher = pt_cipher s,
    fw_limiter = ft_limiter ft\<rparr>"
  obtain fl f where f: "forward_round (fe_apply_keystream (pt_fanout env))
      \<lparr>should_exit = pt_exit s, now = t\<rparr> ?f = (fl, f)" by fastforce
  from forward_round_upstream_rx [OF f] f show ?case by (simp add: pt_forwarder_def pt_source_def)
next
  case (pt_accept s tu)
  have "pt_upstream (pt_open env tu conn s) = pt_upstream s \<and> pt_relayed (pt_open env tu conn s) = pt_relayed s \<and>
      pt_magic (pt_open env tu conn s) = pt_magic s" for conn
    by (cases rule: pt_open_cases [of env tu conn s]) simp_all
  then show ?case
    by (simp add: pt_accept_def pt_source_def pt_stop_def pt_return_def split: sum.splits prod.splits)
qed (simp_all add: pt_signal_def pt_writer_def pt_acceptor_def pt_join_forward_def pt_stop_def pt_return_def
    pt_source_def Let_def)

lemma pt_run_source:
  "pt_run p n env evs s s' \<Longrightarrow>
     pt_source s' = pt_source s \<and> pt_magic s' = pt_magic s \<and> prefix (pt_relayed s) (pt_relayed s')"
  by (induction rule: runs.induct) (auto dest: pt_step_source intro: prefix_order.trans)

section \<open>To the upstream\<close>

context stream_cipher
begin

lemma pt_step_wire:
  assumes "pt_step p n env ev s s'" and "wire sent0 c0 (pt_upstream s) (pt_cipher s)"
    and "fe_apply_keystream (pt_fanout env) = apply_keystream"
  shows "wire sent0 c0 (pt_upstream s') (pt_cipher s')"
  using assms
proof (induction rule: pt_step.induct)
  case (pt_reader s)
  show ?case by (rule pt_reader_relays [of s env]) (use pt_reader in \<open>simp add: wire_def\<close>)
next
  case (pt_forwarder s i ft t)
  let ?f = "\<lparr>fw_master = conns (pt_fan s) ! i, fw_upstream = pt_upstream s, fw_cipher = pt_cipher s,
    fw_limiter = ft_limiter ft\<rparr>"
  obtain fl f where f: "forward_round apply_keystream \<lparr>should_exit = pt_exit s, now = t\<rparr> ?f = (fl, f)"
    by fastforce
  from forward_round_wire [OF f, of sent0 c0] f pt_forwarder(4,5) show ?case
    by (simp add: pt_forwarder_def)
next
  case (pt_accept s tu)
  have "pt_upstream (pt_open env tu conn s) = pt_upstream s \<and> pt_cipher (pt_open env tu conn s) = pt_cipher s"
    for conn
    by (cases rule: pt_open_cases [of env tu conn s]) simp_all
  with pt_accept show ?case
    by (simp add: pt_accept_def pt_stop_def pt_return_def split: sum.splits prod.splits)
qed (simp_all add: pt_signal_def pt_writer_def pt_acceptor_def pt_join_forward_def pt_stop_def pt_return_def
    Let_def)

lemma pt_run_wire:
  "pt_run p n env evs s s' \<Longrightarrow> wire sent0 c0 (pt_upstream s) (pt_cipher s) \<Longrightarrow>
   fe_apply_keystream (pt_fanout env) = apply_keystream \<Longrightarrow> wire sent0 c0 (pt_upstream s') (pt_cipher s')"
  by (induction rule: runs.induct) (simp_all add: pt_step_wire)

end

section \<open>From the channel to a client\<close>

context broadcast_receiver
begin

lemma feeds_fold:
  "feeds cap up k out bufs f \<Longrightarrow> fe_send env = send_fn \<Longrightarrow>
     feeds cap up k out (bufs @ bs) (fold (broadcast_buffer env) bs f)"
proof (induction bs arbitrary: bufs f)
  case (Cons b bs)
  from Cons.IH [OF feeds_broadcast [OF Cons.prems]] Cons.prems(2) show ?case by simp
qed simp

lemma feeds_pt_other:
  assumes "pt_step p n env ev s s'" and "pt_wf s" and "feeds cap up k out bufs (pt_fan s)"
    and "fe_try_recv (pt_fanout env) = try_recv_fn" and "fe_send (pt_fanout env) = send_fn"
    and "ev \<noteq> PxWriter k"
  shows "\<exists>more. pt_relayed s' = pt_relayed s @ more \<and> feeds cap up k out (bufs @ more) (pt_fan s')"
  using assms
proof (induction rule: pt_step.induct)
  case (pt_reader s)
  show ?case by (rule pt_reader_relays [of s env]) (use pt_reader in \<open>simp add: feeds_fold\<close>)
next
  case (pt_forwarder s i ft t)
  let ?f = "\<lparr>fw_master = conns (pt_fan s) ! i, fw_upstream = pt_upstream s, fw_cipher = pt_cipher s,
    fw_limiter = ft_limiter ft\<rparr>"
  obtain fl f where f: "forward_round (fe_apply_keystream (pt_fanout env))
      \<lparr>should_exit = pt_exit s, now = t\<rparr> ?f = (fl, f)" by fastforce
  from forward_round_master [OF f] f pt_forwarder(5) show ?case
    by (simp add: pt_forwarder_def feeds_def nth_list_update_if)
next
  case (pt_writer s j)
  have k: "k < length (writers (pt_fan s))" and wf: "fanout_wf (pt_fan s)"
    using pt_writer(3,4) by (simp_all add: feeds_def pt_wf_def)
  from feeds_other_turn [OF pt_writer(4) wf, of j] pt_writer(2,7) show ?case
    by (simp add: pt_writer_def writer_enabled_def)
next
  case (pt_acceptor s res)
  then show ?case by (simp add: pt_acceptor_def feeds_acceptor pt_wf_def)
next
  case (pt_accept s tu)
  have wf: "fanout_wf (pt_fan s)" using pt_accept(2) by (simp add: pt_wf_def)
  have grown: "feeds cap up k out bufs ((pt_fan s)\<lparr>conns := conns (pt_fan s) @ [st]\<rparr>)" for st
    using pt_accept(3) wf_conn [OF wf, of k] by (simp add: feeds_def nth_append)
  have "feeds cap up k out bufs (pt_fan (pt_open env tu conn s)) \<and> pt_relayed (pt_open env tu conn s) = pt_relayed s"
    for conn
    using pt_accept(3) grown
    by (cases rule: pt_open_cases [of env tu conn s]) (simp_all add: feeds_spawn)
  with pt_accept(3) show ?case
    by (simp add: pt_accept_def pt_stop_def pt_return_def split: sum.splits prod.splits)
qed (simp_all add: pt_signal_def pt_join_forward_def pt_stop_def pt_return_def Let_def)

lemma feeds_pt_step:
  assumes "pt_step p n env ev s s'" and "pt_wf s" and "feeds cap up k out bufs (pt_fan s)"
    and "fe_try_recv (pt_fanout env) = try_recv_fn" and "fe_send (pt_fanout env) = send_fn"
  shows "\<exists>more. pt_relayed s' = pt_relayed s @ more \<and>
    feeds cap (up \<and> waiting_for k (pt_fan s) \<le> cap) k out (bufs @ more) (pt_fan s')"
proof (cases "ev = PxWriter k")
  case True
  with assms(1) have s': "s' = pt_writer env k s" by (auto elim: pt_step.cases)
  have k: "k < length (writers (pt_fan s))" and wf: "fanout_wf (pt_fan s)"
    using assms(2,3) by (simp_all add: feeds_def pt_wf_def)
  with assms(2) have "w_pc (writers (pt_fan s) ! k) = Running PlainWriter \<or>
      (\<exists>e. w_pc (writers (pt_fan s) ! k) = Ended e)"
    by (simp add: pt_wf_def all_plain_def list_all_length)
  from feeds_plain_turn [OF assms(3,4) wf this] show ?thesis by (simp add: s' pt_writer_def)
next
  case False
  from feeds_pt_other [OF assms False] feeds_weaken show ?thesis by blast
qed

lemma feeds_pt_run:
  assumes "pt_run p n env evs s s'" and "pt_wf s" and "feeds cap up k out bufs (pt_fan s)"
    and "fe_try_recv (pt_fanout env) = try_recv_fn" and "fe_send (pt_fanout env) = send_fn"
  shows "\<exists>more. pt_relayed s' = pt_relayed s @ more \<and>
    feeds cap (up \<and> stays_within (pt_step p n env) (\<lambda>t. waiting_for k (pt_fan t)) cap evs s)
      k out (bufs @ more) (pt_fan s')"
  using assms
proof (induction rule: runs.induct)
  case (runs_none s)
  from feeds_weaken [OF runs_none(2)] show ?case by simp
next
  case (runs_more evs s s' ev s'')
  let ?up = "\<lambda>evs. up \<and> stays_within (pt_step p n env) (\<lambda>t. waiting_for k (pt_fan t)) cap evs s"
  from runs_more obtain more where m: "pt_relayed s' = pt_relayed s @ more"
    "feeds cap (?up evs) k out (bufs @ more) (pt_fan s')" by blast
  from feeds_pt_step [OF runs_more(2) pt.run_inv [OF runs_more(1,4)] m(2) runs_more(6,7)] m(1)
  obtain more' where m': "pt_relayed s'' = pt_relayed s @ more @ more'"
    "feeds cap (?up evs \<and> waiting_for k (pt_fan s') \<le> cap) k out (bufs @ more @ more') (pt_fan s'')" by auto
  from m'(2) have "feeds cap (?up (evs @ [ev])) k out (bufs @ more @ more') (pt_fan s'')"
    by (rule feeds_weaken) (use runs_more(1) in \<open>auto dest: stays_within_snoc\<close>)
  with m'(1) show ?case by blast
qed

end

section \<open>A new client\<close>

text \<open>The connection an event brings: a local master's or a slave's.\<close>

fun client_of :: "pt_event \<Rightarrow> tcp option" where
  "client_of (PxAccept tu) = (case tu_accept tu of Inl e \<Rightarrow> None | Inr (conn, addr) \<Rightarrow> Some conn)"
| "client_of (PxSlave (Accepted conn ip c1 c2)) = Some conn"
| "client_of ev = None"

context broadcast_receiver
begin

lemma open_feeds:
  assumes "length (writers (pt_fan (pt_open env tu conn s))) = Suc (length (writers (pt_fan s)))"
    and "tx conn = []" and "tx_script conn = []" and "0 < unat (tcp_buffers (pt_args env))"
    and "pending (fe_subscribe (pt_fanout env)) = []"
  shows "feeds (capacity (fe_subscribe (pt_fanout env))) True (length (writers (pt_fan s))) (pt_magic s) [] (pt_fan (pt_open env tu conn s))"
proof (cases rule: pt_open_cases [of env tu conn s])
  case (out e)
  with assms(1) show ?thesis by simp
next
  case (opened st ft)
  then obtain c where c: "send_magic (unat (tcp_buffers (pt_args env))) (pt_magic s) c = (Inr (), st)"
    "tx c = []" "tx_script c = []" using assms(2,3) by auto
  from send_magic_ok [OF c(1) assms(4)] send_magic_script [OF c(1,3)] c(2) opened(1) assms(5)
  show ?thesis by (auto simp: feeds_def spawn_writer_def intro!: exI [of _ "[]"])
qed

lemma new_client_feeds:
  assumes "pt_step p n env ev s s'" and "client_of ev = Some conn"
    and "length (writers (pt_fan s')) = Suc (length (writers (pt_fan s)))"
    and "tx conn = []" and "tx_script conn = []" and "0 < unat (tcp_buffers (pt_args env))"
    and "pending (fe_subscribe (pt_fanout env)) = []"
  shows "feeds (capacity (fe_subscribe (pt_fanout env))) True (length (writers (pt_fan s))) (pt_magic s) [] (pt_fan s') \<and> pt_relayed s' = pt_relayed s"
  using assms
proof (induction rule: pt_step.induct)
  case (pt_acceptor s res)
  then obtain ip c1 c2 where "res = Accepted conn ip c1 c2" by (cases res) auto
  with pt_acceptor acceptor_feeds [of p n "proxy_acceptor_env (pt_args env) (pt_magic s)" "pt_fanout env"
      "pt_exit s" conn ip c1 c2 "pt_fan s"]
  show ?case by (simp add: pt_acceptor_def proxy_acceptor_env_def)
next
  case (pt_accept s tu)
  then obtain addr where "tu_accept tu = Inr (conn, addr)" by (auto split: sum.splits)
  with pt_accept(3) have opened: "pt_accept p n env tu s = pt_open env tu conn s"
    by (auto simp: pt_accept_def pt_stop_def pt_return_def split: if_splits sum.splits)
  have "pt_relayed (pt_open env tu conn s) = pt_relayed s"
    by (cases rule: pt_open_cases [of env tu conn s]) simp_all
  with opened pt_accept(3-) open_feeds [of env tu conn s] show ?case by simp
qed simp_all

end

section \<open>With the exit flag set\<close>



text \<open>A round of the forwarder in which the master says nothing.\<close>

lemma pt_idle_round:
  assumes "pt_main s = PxServing i" and "pt_forward s = Some ft" and "\<not> ft_done ft" and "is_timeout_err e"
    and "i < length (conns (pt_fan s))" and "rx (conns (pt_fan s) ! i) = Fault e # es"
  shows "\<exists>s'. pt_step p n env (PxForward t) s s' \<and> pt_main s' = PxServing i \<and> pt_forward s' = Some ft \<and>
    length (conns (pt_fan s')) = length (conns (pt_fan s)) \<and> rx (conns (pt_fan s') ! i) = es \<and>
    pt_exit s' = pt_exit s"
proof -
  have "err_kind e = WouldBlock \<or> err_kind e = TimedOut" "err_kind e \<noteq> Interrupted"
    using assms(4) by (auto simp: is_timeout_err_def)
  then have "forward_round k r \<lparr>fw_master = conns (pt_fan s) ! i, fw_upstream = pt_upstream s,
      fw_cipher = pt_cipher s, fw_limiter = ft_limiter ft\<rparr> =
    (Continue, \<lparr>fw_master = (conns (pt_fan s) ! i)\<lparr>rx := es\<rparr>, fw_upstream = pt_upstream s,
      fw_cipher = pt_cipher s, fw_limiter = ft_limiter ft\<rparr>)" for k and r :: round
    using assms(6)
    by (auto simp: forward_round_def tcp_read_exact_def COMMAND_HEADER_SIZE_def Let_def)
  then have "pt_forwarder env t i ft s =
      s\<lparr>pt_fan := (pt_fan s)\<lparr>conns := (conns (pt_fan s))[i := (conns (pt_fan s) ! i)\<lparr>rx := es\<rparr>]\<rparr>,
        pt_forward := Some ft\<rparr>"
    using assms(3) by (simp add: pt_forwarder_def)
  with pt_step.pt_forwarder [OF assms(1-3), of p n env t] assms(1,5) show ?thesis by auto
qed

section \<open>Without its upstream\<close>






section \<open>Properties\<close>

text \<open>
  C15. Over every interleaving of the proxy's threads, what was handed to the channel and what
  is not read yet are together exactly what the upstream sends, in order and nothing
  twice; and the upstream is sent whole five-byte commands only, coded by one continuous
  keystream over all local masters (or in clear), as long as it takes what is written. That
  the reader and the forwarder share the upstream's socket disturbs neither.
\<close>

theorem proxy_threads_relay:
  assumes "stream_cipher (fe_apply_keystream (pt_fanout env))" and "\<not> m_poisoned (px_upstream px)"
    and "tx_script (m_data (px_upstream px)) = []"
    and "pt_run p n env evs (pt_begin px) s"
  shows "concat (pt_relayed s) @ stream_bytes (rx (m_data (pt_upstream s))) =
      stream_bytes (rx (m_data (px_upstream px))) \<and>
    (\<exists>cmds. list_all (\<lambda>c. length c = 5) cmds \<and>
      tx (m_data (pt_upstream s)) = tx (m_data (px_upstream px)) @
        (case px_cipher px of
           None \<Rightarrow> concat cmds
         | Some c \<Rightarrow> fst (fe_apply_keystream (pt_fanout env) c (concat cmds))))"
proof -
  note c = assms(1)
  have "stream_cipher.wire (fe_apply_keystream (pt_fanout env)) (tx (m_data (px_upstream px)))
      (px_cipher px) (pt_upstream (pt_begin px)) (pt_cipher (pt_begin px))"
    unfolding pt_begin_def using stream_cipher.wire_start [OF c assms(2,3)] by simp
  from stream_cipher.wire_sent [OF c stream_cipher.pt_run_wire [OF c assms(4) this refl]]
    pt_run_source [OF assms(4)]
  show ?thesis by (simp add: pt_source_def pt_begin_def)
qed

definition demo_px :: "((nat \<Rightarrow> u8) \<times> nat) proxy_state" where
  "demo_px =
     demo_proxy\<lparr>px_upstream := \<lparr>m_data = fresh_tcp [Data [1, 2, 3], Data [4, 5]], m_poisoned = False\<rparr>\<rparr>"

definition demo_pt_env :: "((nat \<Rightarrow> u8) \<times> nat, subscription) pt_env" where
  "demo_pt_env =
     \<lparr>pt_args = demo_multi_args, pt_fanout = demo_fan_env, pt_cipher_new = ks_new (\<lambda>_ _ _. 0x5A)\<rparr>"

lemma demo_reads: "pt_run any_net everybody demo_pt_env [PxReader] (pt_begin demo_px)
    (pt_reader demo_pt_env (pt_begin demo_px))"
  by (rule pt.run_one [OF pt_step.pt_reader]) (simp_all add: pt_begin_def pt_running_def)

theorem proxy_threads_relay_witness:
  "concat (pt_relayed (pt_reader demo_pt_env (pt_begin demo_px))) @
     stream_bytes (rx (m_data (pt_upstream (pt_reader demo_pt_env (pt_begin demo_px))))) = [1, 2, 3, 4, 5]"
  using proxy_threads_relay [OF _ _ _ demo_reads] ks.stream_cipher_axioms
  by (simp add: demo_px_def demo_pt_env_def demo_fan_env_def)

lemma proxy_client_stream:
  assumes "broadcast_receiver (fe_try_recv (pt_fanout env)) (fe_send (pt_fanout env)) backlog capacity"
    and "backlog (fe_subscribe (pt_fanout env)) = []" and "args_ok (pt_args env)"
    and "pt_run p n env evs0 (pt_begin px) s0" and "pt_step p n env ev s0 s"
    and "client_of ev = Some conn" and "tx conn = []" and "tx_script conn = []"
    and "length (writers (pt_fan s)) = Suc (length (writers (pt_fan s0)))"
    and "pt_run p n env evs s s'"
  shows "\<exists>got more. pt_relayed s' = pt_relayed s0 @ more \<and>
    prefix (concat (pt_relayed s')) (stream_bytes (rx (m_data (px_upstream px)))) \<and>
    tx (conns (pt_fan s') ! w_conn (writers (pt_fan s') ! length (writers (pt_fan s0)))) =
      px_magic px @ concat got \<and> subseq got more \<and>
    (stays_within (pt_step p n env)
       (\<lambda>t. length (backlog (w_rcvr (writers (pt_fan t) ! length (writers (pt_fan s0))))))
       (capacity (fe_subscribe (pt_fanout env))) evs s \<longrightarrow>
     got @ backlog (w_rcvr (writers (pt_fan s') ! length (writers (pt_fan s0)))) = more)"
proof -
  let ?cap = "capacity (fe_subscribe (pt_fanout env))"
  let ?k = "length (writers (pt_fan s0))"
  have run: "pt_run p n env ((evs0 @ [ev])) (pt_begin px) s" by (rule pt.run_more [OF assms(4,5)])
  have src: "pt_source s' = stream_bytes (rx (m_data (px_upstream px)))" "pt_magic s0 = px_magic px"
    using pt_run_source [OF run] pt_run_source [OF assms(10)] pt_run_source [OF assms(4)]
    by (simp_all add: pt_source_def pt_begin_def)
  have "0 < unat (tcp_buffers (pt_args env))" using assms(3) by (simp add: args_ok_def)
  from broadcast_receiver.new_client_feeds [OF assms(1,5,6,9,7,8) this assms(2)] src(2)
  have start: "broadcast_receiver.feeds backlog capacity ?cap True ?k (px_magic px) [] (pt_fan s)"
    "pt_relayed s = pt_relayed s0" by simp_all
  from broadcast_receiver.feeds_pt_run [OF assms(1,10) pt.run_inv [OF run pt_begin_wf] start(1) refl refl]
    start(2)
  obtain more where more: "pt_relayed s' = pt_relayed s0 @ more"
    "broadcast_receiver.feeds backlog capacity ?cap (stays_within (pt_step p n env)
       (\<lambda>t. broadcast_receiver.waiting_for backlog ?k (pt_fan t)) ?cap evs s) ?k (px_magic px) more (pt_fan s')"
    by auto
  then obtain got where got:
    "tx (conns (pt_fan s') ! w_conn (writers (pt_fan s') ! ?k)) = px_magic px @ concat got"
    "subseq (got @ backlog (w_rcvr (writers (pt_fan s') ! ?k))) more"
    "stays_within (pt_step p n env) (\<lambda>t. length (backlog (w_rcvr (writers (pt_fan t) ! ?k)))) ?cap evs s \<longrightarrow>
       got @ backlog (w_rcvr (writers (pt_fan s') ! ?k)) = more"
    by (auto simp: broadcast_receiver.feeds_def [OF assms(1)] broadcast_receiver.waiting_for_def [OF assms(1)])
  have "subseq got more"
    by (rule subseq_order.trans [OF _ got(2)]) (simp add: prefix_imp_subseq)
  moreover have "prefix (concat (pt_relayed s')) (stream_bytes (rx (m_data (px_upstream px))))"
    using src(1) [symmetric] by (simp add: pt_source_def)
  ultimately show ?thesis using more(1) got(1,3) by blast
qed

text \<open>
  C18. A client of the proxy, a local master or a slave, whose socket takes what is written
  receives the upstream's magic packet and after it whole reads of what the upstream sent
  since, in order and none twice, whatever the other threads do. It misses none as long as
  the channel never holds more for it than it retains.
\<close>

theorem proxy_client_receives:
  assumes "broadcast_receiver (fe_try_recv (pt_fanout env)) (fe_send (pt_fanout env)) backlog capacity"
    and "backlog (fe_subscribe (pt_fanout env)) = []" and "args_ok (pt_args env)"
    and "pt_run p n env evs0 (pt_begin px) s0" and "pt_step p n env ev s0 s"
    and "client_of ev = Some conn" and "tx conn = []" and "tx_script conn = []"
    and "length (writers (pt_fan s)) = Suc (length (writers (pt_fan s0)))"
    and "pt_run p n env evs s s'"
  shows "\<exists>got more. pt_relayed s' = pt_relayed s0 @ more \<and>
    prefix (concat (pt_relayed s')) (stream_bytes (rx (m_data (px_upstream px)))) \<and>
    tx (conns (pt_fan s') ! w_conn (writers (pt_fan s') ! length (writers (pt_fan s0)))) =
      px_magic px @ concat got \<and> subseq got more \<and>
    (stays_within (pt_step p n env)
       (\<lambda>t. length (backlog (w_rcvr (writers (pt_fan t) ! length (writers (pt_fan s0))))))
       (capacity (fe_subscribe (pt_fanout env))) evs s \<longrightarrow>
     got @ backlog (w_rcvr (writers (pt_fan s') ! length (writers (pt_fan s0)))) = more)"
  using assms by (rule proxy_client_stream)

definition demo_guest :: turn where
  "demo_guest = demo_turn\<lparr>tu_accept := Inr (fresh_tcp [], V4 10 0 0 1)\<rparr>"

definition demo_px_serving :: "((nat \<Rightarrow> u8) \<times> nat, subscription) proxy_threads" where
  "demo_px_serving = pt_accept any_net everybody demo_pt_env demo_guest (pt_begin demo_px)"

lemma demo_guest_opened:
  assumes "px_magic px = MAGIC_PACKET"
  shows "pt_main (pt_accept any_net everybody demo_pt_env demo_guest (pt_begin px)) = PxServing 0"
    "length (writers (pt_fan (pt_accept any_net everybody demo_pt_env demo_guest (pt_begin px)))) = 1"
    "w_pc (writers (pt_fan (pt_accept any_net everybody demo_pt_env demo_guest (pt_begin px))) ! 0) =
       Running PlainWriter"
    "\<not> pt_reader_done (pt_accept any_net everybody demo_pt_env demo_guest (pt_begin px))"
    "\<not> pt_exit (pt_accept any_net everybody demo_pt_env demo_guest (pt_begin px))"
  using assms
  by (simp_all add: pt_accept_def pt_begin_def demo_guest_def demo_turn_def demo_pt_env_def
      demo_multi_args_def check_whitelist_def is_ip_in_whitelist_iff any_net_def everybody_def pt_open_def
      set_read_timeout_def set_write_timeout_def send_magic_def buf_write_all_def buf_drop_def flush_buf_def
      MAGIC_PACKET_def fresh_tcp_def spawn_writer_def Let_def)

lemma demo_px_magic: "px_magic demo_px = MAGIC_PACKET"
  by (simp add: demo_px_def demo_proxy_def)

lemmas demo_px_opened = demo_guest_opened [OF demo_px_magic, folded demo_px_serving_def]

lemma demo_px_accepts: "pt_step any_net everybody demo_pt_env (PxAccept demo_guest) (pt_begin demo_px) demo_px_serving"
  unfolding demo_px_serving_def by (rule pt_step.pt_accept) (simp add: pt_begin_def)

theorem proxy_client_receives_witness:
  "let s' = pt_writer demo_pt_env 0 (pt_reader demo_pt_env demo_px_serving)
   in \<exists>got more. pt_relayed s' = more \<and> prefix (concat more) [1, 2, 3, 4, 5] \<and>
        tx (conns (pt_fan s') ! w_conn (writers (pt_fan s') ! 0)) = MAGIC_PACKET @ concat got \<and> subseq got more"
proof -
  let ?r = "pt_reader demo_pt_env demo_px_serving"
  let ?s' = "pt_writer demo_pt_env 0 ?r"
  have rx: "broadcast_receiver (fe_try_recv (pt_fanout demo_pt_env)) (fe_send (pt_fanout demo_pt_env))
      waiting retained" "waiting (fe_subscribe (pt_fanout demo_pt_env)) = []"
    using sub_rx.broadcast_receiver_axioms by (simp_all add: demo_pt_env_def demo_fan_env_def sub_new_def)
  have ok: "args_ok (pt_args demo_pt_env)" by (simp add: args_ok_def demo_pt_env_def demo_multi_args_def)
  have "pt_running demo_px_serving" using demo_px_opened(1) by (simp add: pt_running_def)
  moreover from this have "pt_running ?r" by (simp add: pt_reader_def pt_running_def split: prod.splits)
  moreover have "writer_enabled None 0 (pt_fan ?r)"
    using demo_px_opened(2,3) by (auto simp: writer_enabled_def pt_reader_def fold_broadcast_writers simp del: length_greater_0_conv
        split: prod.splits)
  ultimately have run: "pt_run any_net everybody demo_pt_env [PxReader, PxWriter 0] demo_px_serving ?s'"
    using pt.run_more [OF pt.run_one [OF pt_step.pt_reader] pt_step.pt_writer] demo_px_opened(4) by fastforce
  have start: "client_of (PxAccept demo_guest) = Some (fresh_tcp [])" by (simp add: demo_guest_def)
  have new: "length (writers (pt_fan demo_px_serving)) = Suc (length (writers (pt_fan
      (pt_begin demo_px :: ((nat \<Rightarrow> u8) \<times> nat, subscription) proxy_threads))))"
    using demo_px_opened(2) by (simp add: pt_begin_def)
  from proxy_client_receives [OF rx ok pt.run_none demo_px_accepts start _ _ new run] show ?thesis
    by (auto simp: Let_def pt_begin_def demo_px_def demo_proxy_def)
qed



text \<open>
  C20. An interrupt does not end the proxy while a local master is connected and silent: every
  read of the forwarder times out, and however often that happens it goes round again, with
  the exit flag set, while the main thread waits for it.
\<close>

theorem proxy_waits_for_idle_master:
  assumes "pt_run p n env evs0 (pt_begin px) s" and "pt_exit s"
    and "pt_main s = PxServing i" and "pt_forward s = Some ft" and "\<not> ft_done ft"
    and "is_timeout_err e" and "rx (conns (pt_fan s) ! i) = replicate (length ts) (Fault e) @ rest"
  shows "\<exists>s'. pt_run p n env (map PxForward ts) s s' \<and> pt_exit s' \<and> pt_main s' = PxServing i \<and>
    pt_forward s' = Some ft \<and> rx (conns (pt_fan s') ! i) = rest"
proof -
  have "i < length (conns (pt_fan s))"
    using pt.run_inv [OF assms(1) pt_begin_wf] assms(3) by (auto simp: pt_wf_def)
  with assms(2-4,7) show ?thesis
  proof (induction ts arbitrary: s)
    case Nil
    with pt.run_none show ?case by fastforce
  next
    case (Cons t ts)
    have "rx (conns (pt_fan s) ! i) = Fault e # replicate (length ts) (Fault e) @ rest"
      using Cons.prems(4) by simp
    from pt_idle_round [OF Cons.prems(2,3) assms(5,6) Cons.prems(5) this, of p n env t] obtain s1 where
      s1: "pt_step p n env (PxForward t) s s1" "pt_main s1 = PxServing i" "pt_forward s1 = Some ft"
      "length (conns (pt_fan s1)) = length (conns (pt_fan s))"
      "rx (conns (pt_fan s1) ! i) = replicate (length ts) (Fault e) @ rest" "pt_exit s1 = pt_exit s" by blast
    then obtain s' where "pt_run p n env (map PxForward ts) s1 s'" "pt_exit s'" "pt_main s' = PxServing i"
      "pt_forward s' = Some ft" "rx (conns (pt_fan s') ! i) = rest"
      using Cons.IH [of s1] Cons.prems(1,5) by auto
    with runs_Cons [where step = "pt_step p n env", OF s1(1)] show ?case by auto
  qed
qed

text \<open>A master that says nothing.\<close>

definition demo_silence :: io_error where
  "demo_silence = \<lparr>err_kind = WouldBlock, err_msg = ''timed out''\<rparr>"

definition demo_silent :: turn where
  "demo_silent = demo_turn\<lparr>tu_accept := Inr (fresh_tcp (replicate 3 (Fault demo_silence)), V4 10 0 0 1)\<rparr>"

theorem proxy_waits_for_idle_master_witness:
  "let s = pt_signal (pt_accept any_net everybody demo_pt_env demo_silent (pt_begin demo_px))
   in \<exists>s'. pt_run any_net everybody demo_pt_env [PxForward 1, PxForward 2, PxForward 3] s s' \<and> pt_exit s' \<and>
        pt_main s' = PxServing 0 \<and> rx (conns (pt_fan s') ! 0) = []"
proof -
  let ?a = "pt_accept any_net everybody demo_pt_env demo_silent (pt_begin demo_px)"
  have "pt_main ?a = PxServing 0 \<and> (\<exists>ft. pt_forward ?a = Some ft \<and> \<not> ft_done ft) \<and>
      rx (conns (pt_fan ?a) ! 0) = replicate 3 (Fault demo_silence)"
    using demo_px_magic
    by (simp add: pt_accept_def pt_begin_def demo_silent_def demo_turn_def demo_pt_env_def
        demo_multi_args_def check_whitelist_def is_ip_in_whitelist_iff any_net_def everybody_def pt_open_def
        set_read_timeout_def set_write_timeout_def send_magic_def buf_write_all_def buf_drop_def flush_buf_def
        MAGIC_PACKET_def fresh_tcp_def spawn_writer_def Let_def)
  then obtain ft where a: "pt_main ?a = PxServing 0" "pt_forward ?a = Some ft" "\<not> ft_done ft"
    "rx (conns (pt_fan ?a) ! 0) = replicate 3 (Fault demo_silence)" by blast
  have "pt_running ?a" using a(1) by (simp add: pt_running_def)
  moreover have "pt_step any_net everybody demo_pt_env (PxAccept demo_silent) (pt_begin demo_px) ?a"
    by (rule pt_step.pt_accept) (simp add: pt_begin_def)
  ultimately have run: "pt_run any_net everybody demo_pt_env [PxAccept demo_silent, PxSignal] (pt_begin demo_px)
      (pt_signal ?a)"
    by (blast intro: runs_Cons runs_none pt_step.pt_signal)
  have s: "pt_exit (pt_signal ?a)" "pt_main (pt_signal ?a) = PxServing 0" "pt_forward (pt_signal ?a) = Some ft"
    "rx (conns (pt_fan (pt_signal ?a)) ! 0) = replicate (length [1, 2, 3 :: instant]) (Fault demo_silence) @ []"
    using a by (simp_all add: pt_signal_def numeral_3_eq_3)
  have "is_timeout_err demo_silence" by (simp add: is_timeout_err_def demo_silence_def)
  from proxy_waits_for_idle_master [OF run s(1-3) a(3) this s(4)] show ?thesis by (auto simp: Let_def)
qed




end
