(* ===== verification/Write_Steps.thy ===== *)
theory Write_Steps
  imports Serve_Single
begin

text \<open>
  Below the steps of the interleavings: several threads inside \<open>write_all\<close> on clones of one
  socket, one \<open>write\<close> at a time. In \<open>src/main.rs\<close> the writer of a client (samples), the
  control thread (acknowledgements, nonces) and the main thread (magic packet) share a socket
  without a lock. Whatever the order of their writes, nothing of what a thread sends is
  lost, doubled or reordered; but when the kernel takes a buffer in pieces the words of another
  thread can come between them.
\<close>

section \<open>Threads inside \<open>write_all\<close>\<close>

text \<open>What a thread still has to write, or the error its call ended with.\<close>

datatype sender = Sending bytes | SendFailed io_error

definition send_turn :: "nat \<Rightarrow> tcp \<times> sender list \<Rightarrow> tcp \<times> sender list" where
  "send_turn i s =
     (case s of
        (st, ss) \<Rightarrow>
          (case ss ! i of
             SendFailed e \<Rightarrow> s
           | Sending buf \<Rightarrow>
               if buf = [] then s
               else (case tcp_write buf st of
                       (Inl e, st') \<Rightarrow> (st', if err_kind e = Interrupted then ss else ss[i := SendFailed e])
                     | (Inr n, st') \<Rightarrow>
                         (st', ss[i := if n = 0 then SendFailed WRITE_ALL_EOF else Sending (drop n buf)]))))"

inductive send_step :: "nat \<Rightarrow> tcp \<times> sender list \<Rightarrow> tcp \<times> sender list \<Rightarrow> bool" where
  send_step: "i < length ss \<Longrightarrow> ss ! i = Sending buf \<Longrightarrow> buf \<noteq> [] \<Longrightarrow>
    send_step i (st, ss) (send_turn i (st, ss))"

text \<open>A thread by itself does what \<open>write_all\<close> does.\<close>

definition sender_result :: "io_error + unit \<Rightarrow> sender \<Rightarrow> bool" where
  "sender_result r sd \<longleftrightarrow> (case r of Inl e \<Rightarrow> sd = SendFailed e | Inr _ \<Rightarrow> sd = Sending [])"

lemma send_alone:
  assumes "i < length ss" and "ss ! i = Sending buf" and "write_all tcp_write buf st = Some (r, st')"
  shows "\<exists>evs sd. set evs \<subseteq> {i} \<and> runs send_step evs (st, ss) (st', ss[i := sd]) \<and> sender_result r sd"
  using assms
proof (induction "length buf + length (tx_script st)" arbitrary: buf st ss rule: less_induct)
  case less
  show ?case
  proof (cases "buf = []")
    case True
    with less.prems have "ss[i := Sending []] = ss" "r = Inr ()" "st' = st" by (auto simp: list_update_same_conv)
    with runs_none [of send_step "(st, ss)"] show ?thesis
      by (intro exI [of _ "[]"] exI [of _ "Sending []"]) (simp add: sender_result_def)
  next
    case ne: False
    obtain res st1 where w: "tcp_write buf st = (res, st1)" by (cases "tcp_write buf st")
    have step: "send_step i (st, ss) (send_turn i (st, ss))"
      using less.prems(1,2) ne by (rule send_step.intros)
    show ?thesis
    proof (cases "(\<exists>e. res = Inl e \<and> err_kind e \<noteq> Interrupted) \<or> res = Inr 0")
      case True
      then obtain sd where "send_turn i (st, ss) = (st1, ss[i := sd])" "sender_result r sd" "st' = st1"
        using w less.prems ne
        by (auto simp: send_turn_def sender_result_def write_all_step split: if_splits)
      with runs_one [of send_step, OF step] show ?thesis
        by (intro exI [of _ "[i]"] exI [of _ sd]) simp
    next
      case False
      define buf1 where "buf1 = (case res of Inl e \<Rightarrow> buf | Inr n \<Rightarrow> drop n buf)"
      have turn: "send_turn i (st, ss) = (st1, ss[i := Sending buf1])"
        using False w less.prems(2) ne list_update_same_conv [OF less.prems(1), of "Sending buf"]
        by (cases res) (auto simp: send_turn_def buf1_def)
      have rec: "write_all tcp_write buf1 st1 = Some (r, st')"
        using False w less.prems(3) ne by (cases res) (auto simp: write_all_step buf1_def)
      have "length buf1 + length (tx_script st1) < length buf + length (tx_script st)"
      proof (cases res)
        case (Inl e)
        with w tcp_wr.write_error_progress [of buf st e st1] show ?thesis by (simp add: buf1_def)
      next
        case (Inr n)
        with False ne have "length (drop n buf) < length buf" by (cases n) auto
        with w Inr tcp_wr.write_keeps_slack [of buf st n st1] show ?thesis by (simp add: buf1_def)
      qed
      from less.hyps [OF this _ _ rec, of "ss[i := Sending buf1]"] less.prems(1) obtain evs sd where
        "set evs \<subseteq> {i}" "runs send_step evs (st1, ss[i := Sending buf1]) (st', ss[i := sd])"
        "sender_result r sd" by auto
      with runs_Cons [of send_step, OF step] turn show ?thesis
        by (intro exI [of _ "i # evs"] exI [of _ sd]) simp
    qed
  qed
qed

section \<open>What reaches the peer\<close>

text \<open>
  What was written since the start, each byte marked with the thread it came from: read by
  thread, the marks are what that thread has sent of its buffer.
\<close>

definition sent_by :: "nat \<Rightarrow> (nat \<times> u8) list \<Rightarrow> bytes" where
  "sent_by i marks = map snd (filter (\<lambda>m. fst m = i) marks)"

definition sends_conserved :: "bytes list \<Rightarrow> bytes \<Rightarrow> tcp \<times> sender list \<Rightarrow> bool" where
  "sends_conserved bufs out s \<longleftrightarrow>
     length (snd s) = length bufs \<and>
     (\<exists>marks. tx (fst s) = out @ map snd marks \<and> fst ` set marks \<subseteq> {..<length bufs} \<and>
        (\<forall>i < length bufs. case snd s ! i of
           Sending rest \<Rightarrow> bufs ! i = sent_by i marks @ rest
         | SendFailed e \<Rightarrow> prefix (sent_by i marks) (bufs ! i)))"

lemma sent_by_append [simp]: "sent_by i (ms @ ns) = sent_by i ms @ sent_by i ns"
  by (simp add: sent_by_def)

lemma sent_by_marked [simp]: "sent_by i (map (Pair j) bs) = (if i = j then bs else [])"
  by (auto simp: sent_by_def filter_map comp_def)

lemma tcp_write_tx:
  assumes "tcp_write buf st = (r, st')"
  shows "tx st' = tx st @ (case r of Inl e \<Rightarrow> [] | Inr n \<Rightarrow> take n buf)"
  using assms by (auto simp: tcp_write_def min_def split: list.splits write_event.splits)

lemma send_step_conserved:
  assumes "send_step i s s'" and "sends_conserved bufs out s"
  shows "sends_conserved bufs out s'"
  using assms
proof (cases rule: send_step.cases)
  case (send_step ss buf st)
  obtain res st1 where w: "tcp_write buf st = (res, st1)" by (cases "tcp_write buf st")
  define piece where "piece = (case res of Inl e \<Rightarrow> [] | Inr n \<Rightarrow> take n buf)"
  from assms(2) send_step(1) obtain marks where
    marks: "length ss = length bufs" "tx st = out @ map snd marks" "fst ` set marks \<subseteq> {..<length bufs}"
      "\<And>j. j < length bufs \<Longrightarrow> case ss ! j of Sending rest \<Rightarrow> bufs ! j = sent_by j marks @ rest
         | SendFailed e \<Rightarrow> prefix (sent_by j marks) (bufs ! j)"
    by (auto simp: sends_conserved_def)
  from marks(4) [of i] send_step(3,4) marks(1) have buf: "bufs ! i = sent_by i marks @ buf" by simp
  let ?marks = "marks @ map (Pair i) piece"
  let ?sd = "case res of Inl e \<Rightarrow> if err_kind e = Interrupted then Sending buf else SendFailed e
    | Inr n \<Rightarrow> if n = 0 then SendFailed WRITE_ALL_EOF else Sending (drop n buf)"
  have s': "s' = (st1, ss[i := ?sd])"
    using send_step(2,4,5) w list_update_same_conv [OF send_step(3), of "Sending buf"]
    by (cases res) (simp_all add: send_turn_def)
  have sd: "case ?sd of Sending rest \<Rightarrow> buf = piece @ rest | SendFailed e \<Rightarrow> prefix piece buf"
    by (cases res) (simp_all add: piece_def)
  have "tx st1 = out @ map snd ?marks"
    using tcp_write_tx [OF w] marks(2) by (simp add: piece_def comp_def)
  moreover have "fst ` set ?marks \<subseteq> {..<length bufs}" using marks(1,3) send_step(3) by auto
  moreover have "case ss[i := ?sd] ! j of Sending rest \<Rightarrow> bufs ! j = sent_by j ?marks @ rest
         | SendFailed e \<Rightarrow> prefix (sent_by j ?marks) (bufs ! j)" if "j < length bufs" for j
  proof (cases "j = i")
    case True
    with sd buf that marks(1) show ?thesis by (simp add: same_prefix_prefix split: sender.splits)
  next
    case False
    with marks(4) [OF that] show ?thesis by (simp split: sender.splits)
  qed
  ultimately have "length (ss[i := ?sd]) = length bufs \<and>
    (\<exists>ms. tx st1 = out @ map snd ms \<and> fst ` set ms \<subseteq> {..<length bufs} \<and>
        (\<forall>j < length bufs. case ss[i := ?sd] ! j of
           Sending rest \<Rightarrow> bufs ! j = sent_by j ms @ rest
         | SendFailed e \<Rightarrow> prefix (sent_by j ms) (bufs ! j)))"
    using marks(1) unfolding length_list_update by blast
  then show ?thesis by (simp only: s' sends_conserved_def fst_conv snd_conv)
qed

interpretation sends: step_system send_step "sends_conserved bufs out" for bufs out
  by unfold_locales (rule send_step_conserved)

lemma sends_begin: "sends_conserved bufs (tx st) (st, map Sending bufs)"
  unfolding sends_conserved_def by (auto simp: sent_by_def intro!: exI [of _ "[]"])

text \<open>
  The control thread's acknowledgement inside a buffer of samples: both calls succeed, and the
  client finds five bytes of another kind in the middle of its samples.
\<close>

lemma torn_acknowledgement:
  assumes "tx_script st = [Accept k]" and "0 < k" and "k < length buf"
  shows "runs send_step [0, 1, 0] (st, [Sending buf, Sending CHAIN_ACK])
    (st\<lparr>tx_script := [], tx := tx st @ take k buf @ CHAIN_ACK @ drop k buf\<rparr>, [Sending [], Sending []])"
proof -
  let ?st1 = "st\<lparr>tx := tx st @ take k buf, tx_script := []\<rparr>"
  let ?st2 = "?st1\<lparr>tx := tx ?st1 @ CHAIN_ACK\<rparr>"
  have ne: "buf \<noteq> []" "drop k buf \<noteq> []" "CHAIN_ACK \<noteq> []" using assms by (auto simp: CHAIN_ACK_def)
  have "send_turn 0 (st, [Sending buf, Sending CHAIN_ACK]) = (?st1, [Sending (drop k buf), Sending CHAIN_ACK])"
    using assms ne(1) by (simp add: send_turn_def tcp_write_def min_def)
  with send_step.intros [of 0 "[Sending buf, Sending CHAIN_ACK]" buf st] ne(1)
  have s1: "send_step 0 (st, [Sending buf, Sending CHAIN_ACK]) (?st1, [Sending (drop k buf), Sending CHAIN_ACK])"
    by simp
  have "send_turn 1 (?st1, [Sending (drop k buf), Sending CHAIN_ACK]) = (?st2, [Sending (drop k buf), Sending []])"
    using ne(3) by (simp add: send_turn_def tcp_write_def)
  with send_step.intros [of 1 "[Sending (drop k buf), Sending CHAIN_ACK]" CHAIN_ACK ?st1] ne(3)
  have s2: "send_step 1 (?st1, [Sending (drop k buf), Sending CHAIN_ACK]) (?st2, [Sending (drop k buf), Sending []])"
    by simp
  have "send_turn 0 (?st2, [Sending (drop k buf), Sending []]) =
      (?st2\<lparr>tx := tx ?st2 @ drop k buf\<rparr>, [Sending [], Sending []])"
    using ne(2) by (simp add: send_turn_def tcp_write_def)
  with send_step.intros [of 0 "[Sending (drop k buf), Sending []]" "drop k buf" ?st2] ne(2)
  have s3: "send_step 0 (?st2, [Sending (drop k buf), Sending []])
      (?st2\<lparr>tx := tx ?st2 @ drop k buf\<rparr>, [Sending [], Sending []])"
    by simp
  from runs_Cons [where step = send_step, OF s1 runs_Cons [where step = send_step, OF s2
      runs_one [where step = send_step, OF s3]]] show ?thesis by simp
qed

section \<open>Properties\<close>

text \<open>
  Threads that write to one socket at the same time, without a lock and in pieces, lose
  nothing: whatever the order of their writes and whatever the kernel does with each, every
  byte the peer gets comes from one of the buffers, the bytes of each buffer are there in
  their order and none twice, all of them when the thread's call has succeeded, and a first
  part of them when it has failed.
\<close>

lemma shared_writes_conserve:
  assumes "runs send_step evs (st, map Sending bufs) (st', ss)"
  shows "length ss = length bufs \<and>
    (\<exists>marks. tx st' = tx st @ map snd marks \<and> fst ` set marks \<subseteq> {..<length bufs} \<and>
       (\<forall>i < length bufs. case ss ! i of
          Sending rest \<Rightarrow> bufs ! i = sent_by i marks @ rest
        | SendFailed e \<Rightarrow> prefix (sent_by i marks) (bufs ! i)))"
  using sends.run_inv [OF assms sends_begin] by (simp add: sends_conserved_def)

lemma shared_writes_conserve_witness:
  "let st = \<lparr>rx = [], tx = [9], tx_script = [Accept 2], read_timeout = None, write_timeout = None\<rparr>
   in \<exists>st' marks. runs send_step [0, 1, 0] (st, [Sending [1, 2, 3, 4], Sending CHAIN_ACK]) (st', [Sending [], Sending []]) \<and>
        tx st' = [9, 1, 2] @ CHAIN_ACK @ [3, 4] \<and> tx st' = [9] @ map snd marks \<and>
        sent_by 0 marks = [1, 2, 3, 4] \<and> sent_by 1 marks = CHAIN_ACK"
proof -
  let ?st = "\<lparr>rx = [], tx = [9], tx_script = [Accept 2], read_timeout = None, write_timeout = None\<rparr>"
  let ?st' = "?st\<lparr>tx := tx ?st @ take 2 [1, 2, 3, 4] @ CHAIN_ACK @ drop 2 [1, 2, 3, 4], tx_script := []\<rparr>"
  have run: "runs send_step [0, 1, 0] (?st, map Sending [[1, 2, 3, 4], CHAIN_ACK]) (?st', [Sending [], Sending []])"
    using torn_acknowledgement [of ?st 2 "[1, 2, 3, 4]"] by simp
  from shared_writes_conserve [OF run] obtain marks where
    m: "tx ?st' = tx ?st @ map snd marks" "\<forall>i < length [[1, 2, 3, 4], CHAIN_ACK].
        case [Sending [], Sending []] ! i of
          Sending rest \<Rightarrow> [[1, 2, 3, 4], CHAIN_ACK] ! i = sent_by i marks @ rest
        | SendFailed e \<Rightarrow> prefix (sent_by i marks) ([[1, 2, 3, 4], CHAIN_ACK] ! i)" by blast
  from m(2) [rule_format, of 0] m(2) [rule_format, of 1] have
    "sent_by 0 marks = [1, 2, 3, 4]" "sent_by 1 marks = CHAIN_ACK" by simp_all
  moreover have "tx ?st' = [9, 1, 2] @ CHAIN_ACK @ [3, 4]" "tx ?st = [9]" by simp_all
  ultimately show ?thesis using run m(1) unfolding Let_def list.map by metis
qed

end
