(* ===== verification/Ip_Networks.thy ===== *)
theory Ip_Networks
  imports Control
begin

text \<open>
  What the whitelist relies on of the \<open>ipnet\<close> crate: a network written as an address, a
  slash and a prefix length is parsed to a network that contains exactly the addresses of the
  same family that agree with it in that many leading bits, and a text without a slash is
  not a network. The locale states it; a parser and a membership test built from the parsers
  of \<open>Std_Text\<close> satisfy it.
\<close>

section \<open>Networks\<close>

fun ip_width :: "ip_addr \<Rightarrow> nat" where
  "ip_width (V4 a b c d) = 32"
| "ip_width (V6 gs) = 128"

fun ip_number :: "ip_addr \<Rightarrow> nat" where
  "ip_number (V4 a b c d) = ((unat a * 256 + unat b) * 256 + unat c) * 256 + unat d"
| "ip_number (V6 gs) = foldl (\<lambda>n g. n * 65536 + unat g) 0 gs"

definition same_network :: "ip_addr \<Rightarrow> nat \<Rightarrow> ip_addr \<Rightarrow> bool" where
  "same_network net len ip \<longleftrightarrow>
     ip_width net = ip_width ip \<and>
     ip_number net div 2 ^ (ip_width net - len) = ip_number ip div 2 ^ (ip_width net - len)"

definition show_cidr :: "ip_addr \<Rightarrow> nat \<Rightarrow> string" where
  "show_cidr net len = show_ip_addr net @ CHR ''/'' # show_nat len"

locale ip_networks =
  fixes parse_net :: "string \<Rightarrow> 'e + 'n"
    and net_contains :: "'n \<Rightarrow> ip_addr \<Rightarrow> bool"
  assumes parse_cidr: "ip_wf net \<Longrightarrow> len \<le> ip_width net \<Longrightarrow>
      \<exists>nw. parse_net (show_cidr net len) = Inr nw \<and> (\<forall>ip. net_contains nw ip \<longleftrightarrow> same_network net len ip)"
    and parse_no_slash: "CHR ''/'' \<notin> set s \<Longrightarrow> \<exists>e. parse_net s = Inl e"
begin

lemma in_whitelist_Nil: "\<not> is_ip_in_whitelist parse_net net_contains s []"
  by (simp add: is_ip_in_whitelist_iff)

lemma in_whitelist_cidr:
  assumes "s = show_ip_addr ip" and "ip_wf ip" and "cidr = show_cidr net len" and "ip_wf net"
    and "len \<le> ip_width net"
  shows "is_ip_in_whitelist parse_net net_contains s (cidr # ws) \<longleftrightarrow>
    same_network net len (to_canonical ip) \<or> is_ip_in_whitelist parse_net net_contains s ws"
proof -
  obtain nw where "parse_net cidr = Inr nw" "\<And>ip. net_contains nw ip \<longleftrightarrow> same_network net len ip"
    using parse_cidr [OF assms(4,5)] assms(3) by auto
  moreover have "parse_ip_addr s = Some ip" using parse_show_ip_addr [OF assms(2)] assms(1) by simp
  ultimately show ?thesis by (auto simp: is_ip_in_whitelist_iff)
qed

lemma in_whitelist_invalid:
  assumes "CHR ''/'' \<notin> set cidr"
  shows "is_ip_in_whitelist parse_net net_contains s (cidr # ws) = is_ip_in_whitelist parse_net net_contains s ws"
  using parse_no_slash [OF assms] by (auto simp: is_ip_in_whitelist_iff)

end

section \<open>Parsing networks\<close>

definition cidr_parse :: "string \<Rightarrow> unit + (ip_addr \<times> nat)" where
  "cidr_parse s =
     (case rsplit_once CHR ''/'' s of
        None \<Rightarrow> Inl ()
      | Some (a, l) \<Rightarrow>
          (case (parse_ip_addr a, parse_u16 l) of
             (Some ip, Some len) \<Rightarrow> if unat len \<le> ip_width ip then Inr (ip, unat len) else Inl ()
           | _ \<Rightarrow> Inl ()))"

definition cidr_contains :: "ip_addr \<times> nat \<Rightarrow> ip_addr \<Rightarrow> bool" where
  "cidr_contains net ip \<longleftrightarrow> same_network (fst net) (snd net) ip"

lemma show_nat_digits: "set (show_nat n) \<subseteq> digit_char ` {..<10}"
  unfolding show_nat_def by (rule show_radix_digits) simp

lemma show_nat_no_slash: "CHR ''/'' \<notin> set (show_nat n)"
proof -
  have "digit_char d \<noteq> CHR ''/''" if "d < 10" for d
  proof -
    from that have "(of_char (digit_char d) :: nat) = 48 + d" by (simp add: digit_char_def of_char_of)
    then show ?thesis by auto
  qed
  with show_nat_digits [of n] show ?thesis by fastforce
qed

lemma ip_width_le: "ip_width ip \<le> 128"
  by (cases ip) simp_all

interpretation cidr: ip_networks cidr_parse cidr_contains
proof
  fix net len
  assume net: "ip_wf net" and len: "len \<le> ip_width net"
  have "unat (of_nat len :: u16) = len"
    using len ip_width_le [of net] by (simp add: unat_of_nat take_bit_nat_eq_self)
  moreover from this have "parse_u16 (show_nat len) = Some (of_nat len)"
    using parse_u16_show [of "of_nat len"] by simp
  ultimately have "cidr_parse (show_cidr net len) = Inr (net, len)"
    using len by (simp add: cidr_parse_def show_cidr_def show_nat_no_slash parse_show_ip_addr [OF net])
  then show "\<exists>nw. cidr_parse (show_cidr net len) = Inr nw \<and>
      (\<forall>ip. cidr_contains nw ip \<longleftrightarrow> same_network net len ip)"
    by (auto simp: cidr_contains_def)
next
  fix s :: string
  assume "CHR ''/'' \<notin> set s"
  then show "\<exists>e. cidr_parse s = Inl e" by (simp add: cidr_parse_def rsplit_once_None)
qed

end
