(* ===== verification/Test_Suite.thy ===== *)
theory Test_Suite
  imports Ip_Networks Capture Stream_Fanout Encryption
begin

text \<open>
  The unit tests of the repository, run on the model: every \<open>#[test]\<close> of
  \<open>src/control.rs\<close>, \<open>src/capture/mod.rs\<close>, \<open>src/stream.rs\<close> and
  \<open>src/encryption.rs\<close>, transcribed as a predicate over the definitions the
  test calls, under the name the source gives it. What a test takes from outside (readings
  of the clock, the networks of the \<open>ipnet\<close> crate, the channel, the cipher, the random generator) is
  an argument. They show that the translation gives the results its authors expected.
\<close>

definition is_ok :: "'e + 'a \<Rightarrow> bool" where
  "is_ok r \<longleftrightarrow> (case r of Inl e \<Rightarrow> False | Inr a \<Rightarrow> True)"

section \<open>Tests of \<open>control.rs\<close>\<close>

definition test_magic_packet_length :: bool where
  "test_magic_packet_length \<longleftrightarrow>
     length MAGIC_PACKET = 12"

definition test_command_constants :: bool where
  "test_command_constants \<longleftrightarrow>
     CMD_SET_FREQUENCY = 0x01 \<and> CMD_SET_SAMPLE_RATE = 0x02 \<and> CMD_SET_GAIN_MODE = 0x03 \<and>
     CMD_SET_TUNER_GAIN = 0x04 \<and> CMD_SET_PPM = 0x05 \<and> CMD_SET_AGC = 0x08"

definition test_command_header_size :: bool where
  "test_command_header_size \<longleftrightarrow>
     COMMAND_HEADER_SIZE = 5"

definition test_magic_packet_content :: bool where
  "test_magic_packet_content \<longleftrightarrow>
     take 4 MAGIC_PACKET = map of_char ''RTL0'' \<and>
     take 4 (drop 4 MAGIC_PACKET) = to_be (5 :: u32) \<and> take 4 (drop 8 MAGIC_PACKET) = to_be (0x1d :: u32)"

definition test_parse_frequency_command :: bool where
  "test_parse_frequency_command \<longleftrightarrow>
     (let buf = [0x01, 0x05, 0xFD, 0x82, 0x20]
      in buf ! 0 = CMD_SET_FREQUENCY \<and> (from_be [buf ! 1, buf ! 2, buf ! 3, buf ! 4] :: u32) = 100500000)"

definition test_parse_sample_rate_command :: bool where
  "test_parse_sample_rate_command \<longleftrightarrow>
     (let buf = [0x02, 0x00, 0x1F, 0x40, 0x00]
      in buf ! 0 = CMD_SET_SAMPLE_RATE \<and> (from_be [buf ! 1, buf ! 2, buf ! 3, buf ! 4] :: u32) = 2048000)"

definition test_parse_gain_mode_command :: bool where
  "test_parse_gain_mode_command \<longleftrightarrow>
     (let buf = [0x03, 0x00, 0x00, 0x00, 0x01]
      in buf ! 0 = CMD_SET_GAIN_MODE \<and> (from_be [buf ! 1, buf ! 2, buf ! 3, buf ! 4] :: i32) = 1)"

definition test_parse_tuner_gain_command :: bool where
  "test_parse_tuner_gain_command \<longleftrightarrow>
     (let buf = [0x04, 0x00, 0x00, 0x00, 0x1E]
      in buf ! 0 = CMD_SET_TUNER_GAIN \<and> (from_be [buf ! 1, buf ! 2, buf ! 3, buf ! 4] :: i32) = 30)"

definition test_parse_ppm_command :: bool where
  "test_parse_ppm_command \<longleftrightarrow>
     (let buf = [0x05, 0x00, 0x00, 0x00, 0x32]
      in buf ! 0 = CMD_SET_PPM \<and> (from_be [buf ! 1, buf ! 2, buf ! 3, buf ! 4] :: i32) = 50)"

definition test_parse_agc_command :: bool where
  "test_parse_agc_command \<longleftrightarrow>
     (let buf = [0x08, 0x00, 0x00, 0x00, 0x01]
      in buf ! 0 = CMD_SET_AGC \<and> (from_be [buf ! 1, buf ! 2, buf ! 3, buf ! 4] :: u32) = 1)"

definition test_unknown_command_zero :: bool where
  "test_unknown_command_zero \<longleftrightarrow>
     (let buf = [0x00, 0x00, 0x00, 0x00, 0x00]
      in buf ! 0 \<notin> {CMD_SET_FREQUENCY, CMD_SET_SAMPLE_RATE, CMD_SET_GAIN_MODE, CMD_SET_TUNER_GAIN,
           CMD_SET_PPM, CMD_SET_AGC})"

definition test_unknown_command_ff :: bool where
  "test_unknown_command_ff \<longleftrightarrow>
     (let buf = [0xFF, 0x00, 0x00, 0x00, 0x00]
      in buf ! 0 \<notin> {CMD_SET_FREQUENCY, CMD_SET_SAMPLE_RATE, CMD_SET_GAIN_MODE, CMD_SET_TUNER_GAIN,
           CMD_SET_PPM, CMD_SET_AGC})"

definition test_validate_frequency_valid :: bool where
  "test_validate_frequency_valid \<longleftrightarrow>
     is_ok (validate_frequency 0) \<and>
     is_ok (validate_frequency 100000000) \<and>
     is_ok (validate_frequency 2200000000)"

definition test_validate_frequency_invalid :: bool where
  "test_validate_frequency_invalid \<longleftrightarrow>
     \<not> is_ok (validate_frequency (FREQ_MAX + 1)) \<and>
     \<not> is_ok (validate_frequency 0xFFFFFFFF)"

definition test_validate_sample_rate_valid :: bool where
  "test_validate_sample_rate_valid \<longleftrightarrow>
     is_ok (validate_sample_rate 0) \<and>
     is_ok (validate_sample_rate 2048000) \<and>
     is_ok (validate_sample_rate 3200000)"

definition test_validate_sample_rate_invalid :: bool where
  "test_validate_sample_rate_invalid \<longleftrightarrow>
     \<not> is_ok (validate_sample_rate (SAMPLE_RATE_MAX + 1)) \<and>
     \<not> is_ok (validate_sample_rate 0xFFFFFFFF)"

definition test_validate_ppm_valid :: bool where
  "test_validate_ppm_valid \<longleftrightarrow>
     is_ok (validate_ppm 0) \<and>
     is_ok (validate_ppm (- 200)) \<and>
     is_ok (validate_ppm 200) \<and>
     is_ok (validate_ppm 50) \<and>
     is_ok (validate_ppm (- 100))"

definition test_validate_ppm_invalid :: bool where
  "test_validate_ppm_invalid \<longleftrightarrow>
     \<not> is_ok (validate_ppm (PPM_MIN - 1)) \<and>
     \<not> is_ok (validate_ppm (PPM_MAX + 1)) \<and>
     \<not> is_ok (validate_ppm (- 300)) \<and>
     \<not> is_ok (validate_ppm 300)"

definition test_validate_tuner_gain_valid :: bool where
  "test_validate_tuner_gain_valid \<longleftrightarrow>
     is_ok (validate_tuner_gain 0) \<and>
     is_ok (validate_tuner_gain 30) \<and>
     is_ok (validate_tuner_gain 500)"

definition test_validate_tuner_gain_invalid :: bool where
  "test_validate_tuner_gain_invalid \<longleftrightarrow>
     \<not> is_ok (validate_tuner_gain (TUNER_GAIN_MIN - 1)) \<and>
     \<not> is_ok (validate_tuner_gain (TUNER_GAIN_MAX + 1)) \<and>
     \<not> is_ok (validate_tuner_gain (- 10)) \<and>
     \<not> is_ok (validate_tuner_gain 600)"

definition test_rate_limiter_allows_after_interval :: "instant \<Rightarrow> instant \<Rightarrow> instant \<Rightarrow> bool" where
  "test_rate_limiter_allows_after_interval t0 t1 t2 \<longleftrightarrow>
     fst (rate_limiter_check t2 (rate_limiter_new t0 t1 (10 * 10 ^ 6)))"

definition test_rate_limiter_blocks_rapid_commands :: "instant \<Rightarrow> instant \<Rightarrow> instant \<Rightarrow> instant \<Rightarrow> bool" where
  "test_rate_limiter_blocks_rapid_commands t0 t1 t2 t3 \<longleftrightarrow>
     \<not> fst (rate_limiter_check t3 ((rate_limiter_new t0 t1 (500 * 10 ^ 6))\<lparr>last_command := t2\<rparr>))"

definition test_rate_limiter_allows_after_sleep :: "instant \<Rightarrow> instant \<Rightarrow> instant \<Rightarrow> instant \<Rightarrow> bool" where
  "test_rate_limiter_allows_after_sleep t0 t1 t2 t3 \<longleftrightarrow>
     fst (rate_limiter_check t3 ((rate_limiter_new t0 t1 (10 * 10 ^ 6))\<lparr>last_command := t2\<rparr>))"

definition test_agc_state_initial_true :: bool where
  "test_agc_state_initial_true \<longleftrightarrow>
     enabled agc_new"

definition test_agc_state_enable_unchanged :: bool where
  "test_agc_state_enable_unchanged \<longleftrightarrow>
     \<not> fst (agc_enable agc_new)"

definition test_agc_state_disable_changed :: bool where
  "test_agc_state_disable_changed \<longleftrightarrow>
     fst (agc_disable agc_new)"

definition test_agc_state_enable_after_disable :: bool where
  "test_agc_state_enable_after_disable \<longleftrightarrow>
     fst (agc_enable (snd (agc_disable agc_new)))"

definition test_agc_state_disable_twice_unchanged :: bool where
  "test_agc_state_disable_twice_unchanged \<longleftrightarrow>
     \<not> fst (agc_disable (snd (agc_disable agc_new)))"

definition test_check_whitelist_matching_ip_allows :: "(string \<Rightarrow> 'e + 'n) \<Rightarrow> ('n \<Rightarrow> ip_addr \<Rightarrow> bool) \<Rightarrow> bool" where
  "test_check_whitelist_matching_ip_allows parse_net net_contains \<longleftrightarrow>
     is_ok (check_whitelist parse_net net_contains ''192.168.1.50'' [''192.168.1.0/24''])"

definition test_check_whitelist_non_matching_rejects :: "(string \<Rightarrow> 'e + 'n) \<Rightarrow> ('n \<Rightarrow> ip_addr \<Rightarrow> bool) \<Rightarrow> bool" where
  "test_check_whitelist_non_matching_rejects parse_net net_contains \<longleftrightarrow>
     (\<exists>e. check_whitelist parse_net net_contains ''10.0.0.1'' [''192.168.1.0/24''] = Inl (Network e))"

definition test_check_whitelist_empty_allows :: "(string \<Rightarrow> 'e + 'n) \<Rightarrow> ('n \<Rightarrow> ip_addr \<Rightarrow> bool) \<Rightarrow> bool" where
  "test_check_whitelist_empty_allows parse_net net_contains \<longleftrightarrow>
     is_ok (check_whitelist parse_net net_contains ''10.0.0.1'' [])"

definition test_whitelist_ipv4_single :: "(string \<Rightarrow> 'e + 'n) \<Rightarrow> ('n \<Rightarrow> ip_addr \<Rightarrow> bool) \<Rightarrow> bool" where
  "test_whitelist_ipv4_single parse_net net_contains \<longleftrightarrow>
     is_ip_in_whitelist parse_net net_contains ''192.168.1.100'' [''192.168.1.100/32''] \<and>
     \<not> is_ip_in_whitelist parse_net net_contains ''192.168.1.101'' [''192.168.1.100/32''] \<and>
     \<not> is_ip_in_whitelist parse_net net_contains ''192.168.2.100'' [''192.168.1.100/32'']"

definition test_whitelist_ipv4_cidr :: "(string \<Rightarrow> 'e + 'n) \<Rightarrow> ('n \<Rightarrow> ip_addr \<Rightarrow> bool) \<Rightarrow> bool" where
  "test_whitelist_ipv4_cidr parse_net net_contains \<longleftrightarrow>
     is_ip_in_whitelist parse_net net_contains ''192.168.100.1'' [''192.168.100.0/24''] \<and>
     is_ip_in_whitelist parse_net net_contains ''192.168.100.255'' [''192.168.100.0/24''] \<and>
     \<not> is_ip_in_whitelist parse_net net_contains ''192.168.101.1'' [''192.168.100.0/24''] \<and>
     \<not> is_ip_in_whitelist parse_net net_contains ''10.0.0.1'' [''192.168.100.0/24'']"

definition test_whitelist_ipv4_cidr_16 :: "(string \<Rightarrow> 'e + 'n) \<Rightarrow> ('n \<Rightarrow> ip_addr \<Rightarrow> bool) \<Rightarrow> bool" where
  "test_whitelist_ipv4_cidr_16 parse_net net_contains \<longleftrightarrow>
     is_ip_in_whitelist parse_net net_contains ''10.0.0.1'' [''10.0.0.0/16''] \<and>
     is_ip_in_whitelist parse_net net_contains ''10.0.255.255'' [''10.0.0.0/16''] \<and>
     \<not> is_ip_in_whitelist parse_net net_contains ''10.1.0.1'' [''10.0.0.0/16'']"

definition test_whitelist_multiple_entries :: "(string \<Rightarrow> 'e + 'n) \<Rightarrow> ('n \<Rightarrow> ip_addr \<Rightarrow> bool) \<Rightarrow> bool" where
  "test_whitelist_multiple_entries parse_net net_contains \<longleftrightarrow>
     is_ip_in_whitelist parse_net net_contains ''192.168.1.50'' [''192.168.1.0/24'', ''10.0.0.0/8''] \<and>
     is_ip_in_whitelist parse_net net_contains ''10.50.100.200'' [''192.168.1.0/24'', ''10.0.0.0/8''] \<and>
     \<not> is_ip_in_whitelist parse_net net_contains ''172.16.0.1'' [''192.168.1.0/24'', ''10.0.0.0/8'']"

definition test_whitelist_empty :: "(string \<Rightarrow> 'e + 'n) \<Rightarrow> ('n \<Rightarrow> ip_addr \<Rightarrow> bool) \<Rightarrow> bool" where
  "test_whitelist_empty parse_net net_contains \<longleftrightarrow>
     \<not> is_ip_in_whitelist parse_net net_contains ''192.168.1.1'' []"

definition test_whitelist_invalid_cidr :: "(string \<Rightarrow> 'e + 'n) \<Rightarrow> ('n \<Rightarrow> ip_addr \<Rightarrow> bool) \<Rightarrow> bool" where
  "test_whitelist_invalid_cidr parse_net net_contains \<longleftrightarrow>
     \<not> is_ip_in_whitelist parse_net net_contains ''192.168.1.1'' [''invalid-cidr'']"

definition test_whitelist_ipv6 :: "(string \<Rightarrow> 'e + 'n) \<Rightarrow> ('n \<Rightarrow> ip_addr \<Rightarrow> bool) \<Rightarrow> bool" where
  "test_whitelist_ipv6 parse_net net_contains \<longleftrightarrow>
     is_ip_in_whitelist parse_net net_contains ''::1'' [''::1/128''] \<and>
     \<not> is_ip_in_whitelist parse_net net_contains ''::2'' [''::1/128'']"

definition test_whitelist_ipv4_mapped :: "(string \<Rightarrow> 'e + 'n) \<Rightarrow> ('n \<Rightarrow> ip_addr \<Rightarrow> bool) \<Rightarrow> bool" where
  "test_whitelist_ipv4_mapped parse_net net_contains \<longleftrightarrow>
     is_ip_in_whitelist parse_net net_contains ''::ffff:10.4.10.71'' [''10.4.10.0/24''] \<and>
     is_ip_in_whitelist parse_net net_contains ''::ffff:10.4.10.1'' [''10.4.10.0/24''] \<and>
     \<not> is_ip_in_whitelist parse_net net_contains ''::ffff:10.4.11.1'' [''10.4.10.0/24''] \<and>
     \<not> is_ip_in_whitelist parse_net net_contains ''::ffff:192.168.1.1'' [''10.4.10.0/24'']"

definition test_chain_detect_ack_response :: bool where
  "test_chain_detect_ack_response \<longleftrightarrow>
     (let buf = [0xF0, 0x50, 0x52, 0x4F, 0x58]
      in buf ! 0 = CMD_CHAIN_DETECT \<and> (from_be [buf ! 1, buf ! 2, buf ! 3, buf ! 4] :: u32) = 0x50524F58)"

definition test_chain_detect_ack_format :: bool where
  "test_chain_detect_ack_format \<longleftrightarrow>
     (let ack = [0xF0, 0x00, 0x00, 0x00, 0x00]
      in length ack = COMMAND_HEADER_SIZE \<and> ack ! 0 = CMD_CHAIN_DETECT)"

section \<open>They hold\<close>

lemmas constant_tests =
  test_magic_packet_length_def test_command_constants_def test_command_header_size_def
  test_magic_packet_content_def test_parse_frequency_command_def test_parse_sample_rate_command_def
  test_parse_gain_mode_command_def test_parse_tuner_gain_command_def test_parse_ppm_command_def
  test_parse_agc_command_def test_unknown_command_zero_def test_unknown_command_ff_def
  test_chain_detect_ack_response_def test_chain_detect_ack_format_def

lemma constant_tests_hold:
  "test_magic_packet_length" "test_command_constants" "test_command_header_size" "test_magic_packet_content"
  "test_parse_frequency_command" "test_parse_sample_rate_command" "test_parse_gain_mode_command"
  "test_parse_tuner_gain_command" "test_parse_ppm_command" "test_parse_agc_command"
  "test_unknown_command_zero" "test_unknown_command_ff" "test_chain_detect_ack_response"
  "test_chain_detect_ack_format"
  by code_simp+

lemmas validation_tests =
  test_validate_frequency_valid_def test_validate_frequency_invalid_def test_validate_sample_rate_valid_def
  test_validate_sample_rate_invalid_def test_validate_ppm_valid_def test_validate_ppm_invalid_def
  test_validate_tuner_gain_valid_def test_validate_tuner_gain_invalid_def

lemma is_ok_unit: "is_ok r \<longleftrightarrow> r = Inr ()"
  by (cases r) (simp_all add: is_ok_def)

lemma validation_tests_hold:
  "test_validate_frequency_valid" "test_validate_frequency_invalid" "test_validate_sample_rate_valid"
  "test_validate_sample_rate_invalid" "test_validate_ppm_valid" "test_validate_ppm_invalid"
  "test_validate_tuner_gain_valid" "test_validate_tuner_gain_invalid"
  by (simp_all add: validation_tests is_ok_unit validate_ok_iff range_defs)

lemma rate_limiter_tests_hold:
  "0 \<le> t0 \<Longrightarrow> t0 \<le> t2 \<Longrightarrow> test_rate_limiter_allows_after_interval t0 t1 t2"
  "t3 < t2 + 500 * 10 ^ 6 \<Longrightarrow> test_rate_limiter_blocks_rapid_commands t0 t1 t2 t3"
  "t2 + 15 * 10 ^ 6 \<le> t3 \<Longrightarrow> test_rate_limiter_allows_after_sleep t0 t1 t2 t3"
  by (simp_all add: test_rate_limiter_allows_after_interval_def test_rate_limiter_blocks_rapid_commands_def
      test_rate_limiter_allows_after_sleep_def rate_limiter_check_def rate_limiter_new_def
      saturating_duration_since_def instant_checked_sub_def)

lemma agc_tests_hold:
  "test_agc_state_initial_true" "test_agc_state_enable_unchanged" "test_agc_state_disable_changed"
  "test_agc_state_enable_after_disable" "test_agc_state_disable_twice_unchanged"
  by code_simp+

text \<open>The addresses and networks the tests use, as the printer writes them.\<close>

lemma test_addresses_v4:
  "''10.0.0.1'' = show_ip_addr (V4 10 0 0 1)"
  "''10.0.255.255'' = show_ip_addr (V4 10 0 255 255)"
  "''10.1.0.1'' = show_ip_addr (V4 10 1 0 1)"
  "''10.50.100.200'' = show_ip_addr (V4 10 50 100 200)"
  "''172.16.0.1'' = show_ip_addr (V4 172 16 0 1)"
  "''192.168.1.1'' = show_ip_addr (V4 192 168 1 1)"
  "''192.168.1.100'' = show_ip_addr (V4 192 168 1 100)"
  "''192.168.1.101'' = show_ip_addr (V4 192 168 1 101)"
  "''192.168.1.50'' = show_ip_addr (V4 192 168 1 50)"
  "''192.168.100.1'' = show_ip_addr (V4 192 168 100 1)"
  "''192.168.100.255'' = show_ip_addr (V4 192 168 100 255)"
  "''192.168.101.1'' = show_ip_addr (V4 192 168 101 1)"
  "''192.168.2.100'' = show_ip_addr (V4 192 168 2 100)"
  by code_simp+

lemma test_addresses_v6:
  "''::1'' = show_ip_addr (V6 [0, 0, 0, 0, 0, 0, 0, 1])"
  "''::2'' = show_ip_addr (V6 [0, 0, 0, 0, 0, 0, 0, 2])"
  "''::ffff:10.4.10.1'' = show_ip_addr (ipv4_mapped 10 4 10 1)"
  "''::ffff:10.4.10.71'' = show_ip_addr (ipv4_mapped 10 4 10 71)"
  "''::ffff:10.4.11.1'' = show_ip_addr (ipv4_mapped 10 4 11 1)"
  "''::ffff:192.168.1.1'' = show_ip_addr (ipv4_mapped 192 168 1 1)"
  by code_simp+

lemmas test_addresses = test_addresses_v4 test_addresses_v6

lemma test_networks:
  "''10.0.0.0/16'' = show_cidr (V4 10 0 0 0) 16"
  "''10.0.0.0/8'' = show_cidr (V4 10 0 0 0) 8"
  "''10.4.10.0/24'' = show_cidr (V4 10 4 10 0) 24"
  "''192.168.1.0/24'' = show_cidr (V4 192 168 1 0) 24"
  "''192.168.1.100/32'' = show_cidr (V4 192 168 1 100) 32"
  "''192.168.100.0/24'' = show_cidr (V4 192 168 100 0) 24"
  "''::1/128'' = show_cidr (V6 [0, 0, 0, 0, 0, 0, 0, 1]) 128"
  by code_simp+

lemma ip_wf_mapped: "ip_wf (ipv4_mapped a b c d)"
  by (simp add: ip_wf_def ipv4_mapped_def)

lemma to_canonical_last:
  "to_canonical (V6 [0, 0, 0, 0, 0, 0, 0, g]) = V6 [0, 0, 0, 0, 0, 0, 0, g]"
  by (simp add: to_canonical_def to_ipv4_mapped_def)

context ip_networks
begin

lemmas test_whitelists =
    in_whitelist_cidr [OF test_addresses(1) _ test_networks(1)]
    in_whitelist_cidr [OF test_addresses(1) _ test_networks(4)]
    in_whitelist_cidr [OF test_addresses(1) _ test_networks(6)]
    in_whitelist_cidr [OF test_addresses(2) _ test_networks(1)]
    in_whitelist_cidr [OF test_addresses(3) _ test_networks(1)]
    in_whitelist_cidr [OF test_addresses(4) _ test_networks(2)]
    in_whitelist_cidr [OF test_addresses(4) _ test_networks(4)]
    in_whitelist_cidr [OF test_addresses(5) _ test_networks(2)]
    in_whitelist_cidr [OF test_addresses(5) _ test_networks(4)]
    in_whitelist_cidr [OF test_addresses(7) _ test_networks(5)]
    in_whitelist_cidr [OF test_addresses(8) _ test_networks(5)]
    in_whitelist_cidr [OF test_addresses(9) _ test_networks(2)]
    in_whitelist_cidr [OF test_addresses(9) _ test_networks(4)]
    in_whitelist_cidr [OF test_addresses(10) _ test_networks(6)]
    in_whitelist_cidr [OF test_addresses(11) _ test_networks(6)]
    in_whitelist_cidr [OF test_addresses(12) _ test_networks(6)]
    in_whitelist_cidr [OF test_addresses(13) _ test_networks(5)]
    in_whitelist_cidr [OF test_addresses(14) _ test_networks(7)]
    in_whitelist_cidr [OF test_addresses(15) _ test_networks(7)]
    in_whitelist_cidr [OF test_addresses(16) _ test_networks(3)]
    in_whitelist_cidr [OF test_addresses(17) _ test_networks(3)]
    in_whitelist_cidr [OF test_addresses(18) _ test_networks(3)]
    in_whitelist_cidr [OF test_addresses(19) _ test_networks(3)]

lemma whitelist_tests_hold:
  "test_check_whitelist_matching_ip_allows parse_net net_contains"
  "test_check_whitelist_non_matching_rejects parse_net net_contains"
  "test_check_whitelist_empty_allows parse_net net_contains"
  "test_whitelist_ipv4_single parse_net net_contains"
  "test_whitelist_ipv4_cidr parse_net net_contains"
  "test_whitelist_ipv4_cidr_16 parse_net net_contains"
  "test_whitelist_multiple_entries parse_net net_contains"
  "test_whitelist_empty parse_net net_contains"
  "test_whitelist_invalid_cidr parse_net net_contains"
  "test_whitelist_ipv6 parse_net net_contains"
  "test_whitelist_ipv4_mapped parse_net net_contains"
  by (simp_all add: test_check_whitelist_matching_ip_allows_def test_check_whitelist_non_matching_rejects_def
      test_check_whitelist_empty_allows_def test_whitelist_ipv4_single_def
      test_whitelist_ipv4_cidr_def test_whitelist_ipv4_cidr_16_def
      test_whitelist_multiple_entries_def test_whitelist_empty_def test_whitelist_invalid_cidr_def
      test_whitelist_ipv6_def test_whitelist_ipv4_mapped_def
      check_whitelist_def is_ok_def test_whitelists in_whitelist_Nil in_whitelist_invalid ip_wf_def [of "V4 _ _ _ _"]
      ip_wf_def [of "V6 _"] ip_wf_mapped to_canonical_last same_network_def)

end

section \<open>Tests of \<open>capture/mod.rs\<close>\<close>

text \<open>A \<open>Cursor\<close> over a vector is a file that is all in memory.\<close>

fun write_chunks :: "capture_chunk list \<Rightarrow> (fs_file, unit) io" where
  "write_chunks [] = io_return ()"
| "write_chunks (c # cs) = io_bind (write_chunk file_write c) (\<lambda>_. write_chunks cs)"

definition write_capture :: "capture_header \<Rightarrow> capture_chunk list \<Rightarrow> (fs_file, unit) io" where
  "write_capture h cs =
     io_bind (write_header file_write file_stream_position file_seek_start h) (\<lambda>_. write_chunks cs)"

text \<open>The chunks are read back one by one and are the expected ones.\<close>

fun expect_chunks :: "capture_chunk list \<Rightarrow> fs_file \<Rightarrow> fs_file option" where
  "expect_chunks [] f = Some f"
| "expect_chunks (c # cs) f =
     (case read_chunk file_read f of
        Some (Inr (Some got), f') \<Rightarrow>
          if timestamp_ns got = timestamp_ns c \<and> chunk_data got = chunk_data c
          then expect_chunks cs f' else None
      | _ \<Rightarrow> None)"

definition round_trips :: "capture_header \<Rightarrow> capture_chunk list \<Rightarrow> bool" where
  "round_trips h cs \<longleftrightarrow>
     (case write_capture h cs (file_of []) of
        Some (Inr _, f) \<Rightarrow>
          (case read_header file_read (f\<lparr>f_pos := 0\<rparr>) of
             Some (Inr got, f1) \<Rightarrow>
               magic_payload got = magic_payload h \<and>
               (case expect_chunks cs f1 of
                  Some f2 \<Rightarrow> (case read_chunk file_read f2 of Some (Inr None, f3) \<Rightarrow> True | _ \<Rightarrow> False)
                | None \<Rightarrow> False)
           | _ \<Rightarrow> False)
      | _ \<Rightarrow> False)"

definition test_roundtrip_header_and_chunks :: bool where
  "test_roundtrip_header_and_chunks \<longleftrightarrow>
     round_trips \<lparr>magic_payload = [0x52, 0x54, 0x4C, 0x30, 0, 0, 0, 5, 0, 0, 0, 0x1d]\<rparr>
       [\<lparr>timestamp_ns = 1000, chunk_data = replicate 64 0\<rparr>,
        \<lparr>timestamp_ns = 2000, chunk_data = replicate 128 1\<rparr>,
        \<lparr>timestamp_ns = 3000, chunk_data = replicate 256 2\<rparr>]"

definition test_roundtrip_empty_chunk :: bool where
  "test_roundtrip_empty_chunk \<longleftrightarrow>
     round_trips \<lparr>magic_payload = replicate 12 0\<rparr>
       [\<lparr>timestamp_ns = 42, chunk_data = []\<rparr>, \<lparr>timestamp_ns = 99, chunk_data = [0xAB]\<rparr>]"

text \<open>
  The source's second test leaves out some of the comparisons of the first; here both make
  all of them. The next one writes through a buffer that is flushed when it holds more
  than fifty bytes.
\<close>

fun write_buffered :: "capture_chunk list \<Rightarrow> bytes \<Rightarrow> fs_file \<Rightarrow> fs_file option" where
  "write_buffered [] buf f =
     (if buf = [] then Some f
      else (case write_all file_write buf f of Some (Inr _, f') \<Rightarrow> Some f' | _ \<Rightarrow> None))"
| "write_buffered (c # cs) buf f =
     (case write_chunk file_write c (file_of []) of
        Some (Inr _, chunk_buf) \<Rightarrow>
          (let buf' = buf @ f_data chunk_buf
           in if 50 < length buf'
              then (case write_all file_write buf' f of
                      Some (Inr _, f') \<Rightarrow> write_buffered cs [] f'
                    | _ \<Rightarrow> None)
              else write_buffered cs buf' f)
      | _ \<Rightarrow> None)"

definition buffering_agrees :: "capture_header \<Rightarrow> capture_chunk list \<Rightarrow> bool" where
  "buffering_agrees h cs \<longleftrightarrow>
     (case (write_capture h cs (file_of []),
            write_header file_write file_stream_position file_seek_start h (file_of [])) of
        (Some (Inr _, f), Some (Inr _, g)) \<Rightarrow>
          (case write_buffered cs [] g of Some g' \<Rightarrow> f_data f = f_data g' | None \<Rightarrow> False)
      | _ \<Rightarrow> False)"

definition test_buffer_flush_identity :: bool where
  "test_buffer_flush_identity \<longleftrightarrow>
     buffering_agrees \<lparr>magic_payload = replicate 12 0\<rparr>
       (map (\<lambda>i. \<lparr>timestamp_ns = of_nat i * 1000, chunk_data = replicate 32 (of_nat i)\<rparr>) [0..<10])"

definition test_invalid_magic_rejected :: bool where
  "test_invalid_magic_rejected \<longleftrightarrow>
     (case read_header file_read (file_of
        [0x58, 0x58, 0x58, 0x58, 1, 0, 0, 0, 0x0c, 0, 0, 0, 0x52, 0x54, 0x4C, 0x30, 0, 0, 0, 5, 0, 0, 0, 0x1d]) of
        Some (r, f) \<Rightarrow> \<not> is_ok r
      | None \<Rightarrow> False)"

text \<open>
  The tests are instances: every header and chunks whose lengths fit round trip, and
  buffering never changes the file.
\<close>

lemma write_chunks_file:
  "f_script f = [] \<Longrightarrow> at_end f \<Longrightarrow>
     write_chunks cs f = Some (Inr (), file_put (concat (map encode_chunk cs)) f)"
proof (induction cs arbitrary: f)
  case (Cons c cs)
  with write_chunk_file [of f c] show ?case
    by (simp add: io_bind_def file_put_at_end) (simp add: at_end_def file_put_def)
qed (simp add: io_return_def)

lemma write_capture_file:
  "write_capture h cs (file_of []) =
     Some (Inr (), (file_of [])\<lparr>f_data := encode_capture h cs, f_pos := length (encode_capture h cs)\<rparr>)"
proof -
  have h: "write_header file_write file_stream_position file_seek_start h (file_of []) =
      Some (Inr (), file_put (write_header_to_vec h) (file_of []))"
    by (rule write_header_file) (simp_all add: file_of_def)
  let ?f = "file_put (write_header_to_vec h) (file_of [])"
  have e: "at_end (file_of [])" by (simp add: at_end_def file_of_def)
  then have "write_chunks cs ?f = Some (Inr (), file_put (concat (map encode_chunk cs)) ?f)"
    by (intro write_chunks_file) (simp_all add: file_of_def at_end_def file_put_def)
  moreover have "file_put (concat (map encode_chunk cs)) ?f =
      (file_of [])\<lparr>f_data := encode_capture h cs, f_pos := length (encode_capture h cs)\<rparr>"
    using e by (subst file_put_at_end) (auto simp: file_put_at_end file_of_def encode_capture_def at_end_def)
  ultimately show ?thesis using h by (simp add: write_capture_def io_bind_def)
qed

lemma expect_chunks_file:
  assumes "unread f = concat (map encode_chunk cs) @ rest" and "list_all chunk_fits cs"
  shows "expect_chunks cs f = Some (f\<lparr>f_pos := f_pos f + length (concat (map encode_chunk cs))\<rparr>)"
  using assms
proof (induction cs arbitrary: f)
  case (Cons c cs)
  let ?f = "f\<lparr>f_pos := f_pos f + length (encode_chunk c)\<rparr>"
  have "read_chunk file_read f = Some (Inr (Some c), ?f)"
    using Cons.prems by (intro read_chunk_file) simp_all
  moreover have "unread ?f = concat (map encode_chunk cs) @ rest" using Cons.prems(1) by simp
  ultimately show ?case using Cons.IH [of ?f] Cons.prems(2) by (simp add: add.assoc)
qed simp

lemma capture_round_trips:
  assumes "header_fits h" and "list_all chunk_fits cs"
  shows "round_trips h cs"
proof -
  let ?f = "(file_of [])\<lparr>f_data := encode_capture h cs, f_pos := 0\<rparr>"
  let ?g = "?f\<lparr>f_pos := length (write_header_to_vec h)\<rparr>"
  have un: "unread ?f = write_header_to_vec h @ concat (map encode_chunk cs) @ []"
    by (simp add: unread_def encode_capture_def)
  from read_header_file [OF un assms(1)] have h: "read_header file_read ?f = Some (Inr h, ?g)" by simp
  have ug: "unread ?g = concat (map encode_chunk cs) @ []"
    by (simp add: unread_def encode_capture_def)
  let ?e = "?g\<lparr>f_pos := f_pos ?g + length (concat (map encode_chunk cs))\<rparr>"
  have "read_chunk file_read ?e = Some (Inr None, ?e\<lparr>f_pos := f_pos ?e + length (unread ?e)\<rparr>)"
    by (rule read_chunk_file_end) (simp add: unread_def encode_capture_def)
  with h expect_chunks_file [OF ug assms(2)] show ?thesis
    by (simp add: round_trips_def write_capture_file)
qed

lemma write_buffered_file:
  assumes "f_script f = []" and "at_end f"
  shows "\<exists>g. write_buffered cs buf f = Some g \<and> f_data g = f_data f @ buf @ concat (map encode_chunk cs)"
  using assms
proof (induction cs arbitrary: buf f)
  case (Cons c cs)
  have c: "write_chunk file_write c (file_of []) = Some (Inr (), file_put (encode_chunk c) (file_of []))"
    by (rule write_chunk_file) (simp_all add: file_of_def at_end_def)
  have d: "f_data (file_put (encode_chunk c) (file_of [])) = encode_chunk c"
    by (simp add: at_end_def file_of_def)
  show ?case
    using Cons.IH [of f "buf @ encode_chunk c"] Cons.IH [of "file_put (buf @ encode_chunk c) f" "[]"] Cons.prems c d
    by (auto simp: Let_def)
qed auto

lemma capture_buffering: "buffering_agrees h cs"
proof -
  have h: "write_header file_write file_stream_position file_seek_start h (file_of []) =
      Some (Inr (), file_put (write_header_to_vec h) (file_of []))"
    by (rule write_header_file) (simp_all add: file_of_def)
  have "at_end (file_of [])" "f_script (file_of []) = []" "f_data (file_of []) = []"
    by (simp_all add: at_end_def file_of_def)
  with write_buffered_file [of "file_put (write_header_to_vec h) (file_of [])" cs "[]"]
  obtain g where "write_buffered cs [] (file_put (write_header_to_vec h) (file_of [])) = Some g"
    "f_data g = encode_capture h cs" by (auto simp: encode_capture_def)
  with h show ?thesis by (simp add: buffering_agrees_def write_capture_file)
qed

lemma capture_tests_hold:
  "test_roundtrip_header_and_chunks" "test_roundtrip_empty_chunk" "test_buffer_flush_identity"
  "test_invalid_magic_rejected"
  by (simp_all add: test_roundtrip_header_and_chunks_def test_roundtrip_empty_chunk_def
      test_buffer_flush_identity_def capture_round_trips capture_buffering header_fits_def chunk_fits_def
      test_invalid_magic_rejected_def read_header_def io_simps CAPTURE_MAGIC_def is_ok_def io_throw_def)

section \<open>Tests of \<open>stream.rs\<close> and \<open>encryption.rs\<close>\<close>

text \<open>
  The receiver a test subscribes is the one it starts with; what is sent afterwards reaches
  it.
\<close>

definition test_new_broadcast_send_recv ::
  "('rcvr \<Rightarrow> try_recv \<times> 'rcvr) \<Rightarrow> (bytes \<Rightarrow> 'rcvr \<Rightarrow> 'rcvr) \<Rightarrow> 'rcvr \<Rightarrow> bool" where
  "test_new_broadcast_send_recv try_recv_fn send_fn rcvr \<longleftrightarrow>
     fst (try_recv_fn (send_fn [1, 2, 3] rcvr)) = Received [1, 2, 3]"

definition test_broadcast_multiple_receivers ::
  "('rcvr \<Rightarrow> try_recv \<times> 'rcvr) \<Rightarrow> (bytes \<Rightarrow> 'rcvr \<Rightarrow> 'rcvr) \<Rightarrow> 'rcvr \<Rightarrow> 'rcvr \<Rightarrow> bool" where
  "test_broadcast_multiple_receivers try_recv_fn send_fn rcvr1 rcvr2 \<longleftrightarrow>
     (let data = replicate 256 0xAB
      in fst (try_recv_fn (send_fn data rcvr1)) = Received data \<and>
         fst (try_recv_fn (send_fn data rcvr2)) = Received data)"

text \<open>The loop polls once after the buffer was sent, and once more when the flag is set.\<close>

definition test_writer_exits_on_flag ::
  "('rcvr \<Rightarrow> try_recv \<times> 'rcvr) \<Rightarrow> (bytes \<Rightarrow> 'rcvr \<Rightarrow> 'rcvr) \<Rightarrow> 'rcvr \<Rightarrow> bool" where
  "test_writer_exits_on_flag try_recv_fn send_fn rcvr \<longleftrightarrow>
     (case write_client_loop tcp_write
             (observe try_recv_fn send_fn [Sent (replicate 32 0x42), Polled False, Polled True] rcvr)
             (fresh_tcp []) of
        Some (Some ExitFlag, w) \<Rightarrow> tx w = replicate 32 0x42
      | _ \<Rightarrow> False)"

text \<open>
  The two ends of the socket pair, the second reading what the first has written; \<open>room\<close> gives
  the sizes of the buffers \<open>read_to_end\<close> offers. Flushing a socket does nothing.
\<close>

definition pair_roundtrips ::
  "(bytes \<Rightarrow> bytes \<Rightarrow> 'c) \<Rightarrow> ('c \<Rightarrow> bytes \<Rightarrow> bytes \<times> 'c) \<Rightarrow> (nat \<Rightarrow> nat) \<Rightarrow> bytes \<Rightarrow> bytes \<Rightarrow> bytes \<Rightarrow> bool" where
  "pair_roundtrips cipher_new apply_keystream room cipher_key nonce data \<longleftrightarrow>
     (case write_all (encrypted_write apply_keystream tcp_write) data
             (encrypted_writer_new cipher_new (fresh_tcp []) cipher_key nonce) of
        Some (Inr _, ew1) \<Rightarrow>
          (case encrypted_flush (\<lambda>w. (Inr (), w)) ew1 of
             (Inr _, ew2) \<Rightarrow>
               (case read_to_end (encrypted_read apply_keystream tcp_read) room
                       (encrypted_reader_new cipher_new (fresh_tcp [Data (tx (ew_inner ew2))])
                          cipher_key nonce) of
                  Some (Inr buf, er) \<Rightarrow> buf = data
                | _ \<Rightarrow> False)
           | _ \<Rightarrow> False)
      | _ \<Rightarrow> False)"

definition test_internal_encrypted_roundtrip ::
  "(bytes \<Rightarrow> bytes \<Rightarrow> 'c) \<Rightarrow> ('c \<Rightarrow> bytes \<Rightarrow> bytes \<times> 'c) \<Rightarrow> (nat \<Rightarrow> nat) \<Rightarrow> bool" where
  "test_internal_encrypted_roundtrip cipher_new apply_keystream room \<longleftrightarrow>
     pair_roundtrips cipher_new apply_keystream room (replicate 32 0xAB) (replicate 12 0x42)
       (map of_char ''Hello!'')"

text \<open>
  Two draws of the generator. That they differ is a matter of probability, which the model
  leaves to the generator.
\<close>

definition test_nonce_unique :: "(nat \<Rightarrow> bytes) \<Rightarrow> (nat \<Rightarrow> bytes) \<Rightarrow> bool" where
  "test_nonce_unique fill_a fill_b \<longleftrightarrow> generate_nonce fill_a \<noteq> generate_nonce fill_b"

text \<open>Each side reads what the other has written.\<close>

definition test_nonce_exchange :: "(nat \<Rightarrow> bytes) \<Rightarrow> (nat \<Rightarrow> bytes) \<Rightarrow> bool" where
  "test_nonce_exchange fill_a fill_b \<longleftrightarrow>
     (case (nonce_exchange tcp_read tcp_write fill_a (replicate 32 1) (fresh_tcp [Data (generate_nonce fill_b)]),
            nonce_exchange tcp_read tcp_write fill_b (replicate 32 1) (fresh_tcp [Data (generate_nonce fill_a)])) of
        (Some (Inr (my_a, peer_a), a), Some (Inr (my_b, peer_b), b)) \<Rightarrow>
          my_a = peer_b \<and> my_b = peer_a \<and> tx a = generate_nonce fill_a \<and> tx b = generate_nonce fill_b
      | _ \<Rightarrow> False)"

context broadcast_receiver
begin

lemma recv_next:
  assumes "pending rcvr = [b]" and "1 \<le> capacity rcvr"
  shows "fst (try_recv_fn rcvr) = Received b"
proof -
  obtain res rcvr' where r: "try_recv_fn rcvr = (res, rcvr')" by fastforce
  with assms recv_received [of rcvr] recv_empty [of rcvr rcvr'] recv_closed [of rcvr rcvr']
    recv_lagged [of rcvr _ rcvr']
  show ?thesis by (cases res) auto
qed

lemma stream_tests_hold:
  assumes "pending rcvr1 = []" and "1 \<le> capacity rcvr1" and "pending rcvr2 = []" and "1 \<le> capacity rcvr2"
  shows "test_new_broadcast_send_recv try_recv_fn send_fn rcvr1"
    "test_broadcast_multiple_receivers try_recv_fn send_fn rcvr1 rcvr2"
    "test_writer_exits_on_flag try_recv_fn send_fn rcvr1"
proof -
  have next1: "fst (try_recv_fn (send_fn m rcvr1)) = Received m"
    "fst (try_recv_fn (send_fn m rcvr2)) = Received m" for m
    using assms by (simp_all add: recv_next send_pending send_capacity)
  then show "test_new_broadcast_send_recv try_recv_fn send_fn rcvr1"
    "test_broadcast_multiple_receivers try_recv_fn send_fn rcvr1 rcvr2"
    by (simp_all add: test_new_broadcast_send_recv_def test_broadcast_multiple_receivers_def Let_def)
  obtain r where "try_recv_fn (send_fn (replicate 32 0x42) rcvr1) = (Received (replicate 32 0x42), r)"
    using next1(1) [of "replicate 32 0x42"] by (metis prod.collapse)
  then show "test_writer_exits_on_flag try_recv_fn send_fn rcvr1"
    by (simp add: test_writer_exits_on_flag_def fresh_tcp_def io_simps split: prod.splits)
qed

end

context stream_cipher
begin

lemma pair_roundtrips_data:
  assumes "\<And>k. 0 < room k"
  shows "pair_roundtrips cipher_new apply_keystream room k nonce data"
proof -
  have "case read_to_end_loop (encrypted_read apply_keystream tcp_read) room 0 []
      \<lparr>er_inner = fresh_tcp [Data (crypt c data)], er_cipher = c\<rparr> of
        None \<Rightarrow> False | Some (Inl e, er) \<Rightarrow> False | Some (Inr buf, er) \<Rightarrow> buf = data" for c data
    using encrypted_read_to_end_loop [of "\<lparr>er_inner = fresh_tcp [Data (crypt c data)], er_cipher = c\<rparr>" room 0 "[]"]
      assms by (auto simp: fresh_tcp_def)
  then show ?thesis
    by (simp add: pair_roundtrips_def encrypted_writer_new_def encrypted_reader_new_def
        encrypted_flush_def encrypted_write_all_whole read_to_end_def fresh_tcp_def Let_def)
qed

lemma roundtrip_test_holds:
  assumes "\<And>k. 0 < room k"
  shows "test_internal_encrypted_roundtrip cipher_new apply_keystream room"
  using pair_roundtrips_data [OF assms] by (simp only: test_internal_encrypted_roundtrip_def)

end

lemma nonce_test_holds:
  assumes "length (fill_a 12) = 12" and "length (fill_b 12) = 12"
  shows "test_nonce_exchange fill_a fill_b"
proof -
  have "\<exists>es. nonce_exchange tcp_read tcp_write fill_a (replicate 32 1) (fresh_tcp [Data (fill_b 12)]) =
      Some (Inr (fill_a 12, fill_b 12), (fresh_tcp [Data (fill_b 12)])\<lparr>tx := fill_a 12, rx := es\<rparr>)"
    using nonce_exchange_ok [of "fresh_tcp [Data (fill_b 12)]" "fill_b 12" "[]" fill_a "replicate 32 1"] assms(2)
    by auto
  moreover have "\<exists>es. nonce_exchange tcp_read tcp_write fill_b (replicate 32 1) (fresh_tcp [Data (fill_a 12)]) =
      Some (Inr (fill_b 12, fill_a 12), (fresh_tcp [Data (fill_a 12)])\<lparr>tx := fill_b 12, rx := es\<rparr>)"
    using nonce_exchange_ok [of "fresh_tcp [Data (fill_a 12)]" "fill_a 12" "[]" fill_b "replicate 32 1"] assms(1)
    by auto
  ultimately show ?thesis by (auto simp: test_nonce_exchange_def generate_nonce_def)
qed

section \<open>Properties\<close>

text \<open>
  The model passes the repository's own unit tests of constants, command parsing,
  validation, rate limiter, AGC state, whitelist (with networks that behave as \<open>ipnet\<close>
  documents, IPv6 and IPv4-mapped addresses included), capture files, writer loop, encrypted
  round trip and nonce exchange, for all readings of the clock a test can meet, every channel
  that behaves as \<open>tokio\<close> documents and every stream cipher.
\<close>

lemma unit_tests_hold:
  assumes "ip_networks parse_net net_contains"
    and "broadcast_receiver try_recv_fn send_fn backlog capacity"
    and "backlog rcvr1 = []" and "1 \<le> capacity rcvr1" and "backlog rcvr2 = []" and "1 \<le> capacity rcvr2"
    and "0 \<le> t0" and "t0 \<le> t2" and "t3 < t2 + 500 * 10 ^ 6" and "t2 + 15 * 10 ^ 6 \<le> t4"
    and "length (fill_a 12) = 12" and "length (fill_b 12) = 12"
    and "stream_cipher apply_keystream" and "\<And>k. 0 < room k"
  shows "test_magic_packet_length \<and> test_command_constants \<and> test_command_header_size \<and>
    test_magic_packet_content \<and> test_parse_frequency_command \<and>
    test_parse_sample_rate_command \<and> test_parse_gain_mode_command \<and>
    test_parse_tuner_gain_command \<and> test_parse_ppm_command \<and> test_parse_agc_command \<and>
    test_unknown_command_zero \<and> test_unknown_command_ff \<and> test_validate_frequency_valid
    \<and> test_validate_frequency_invalid \<and> test_validate_sample_rate_valid \<and>
    test_validate_sample_rate_invalid \<and> test_validate_ppm_valid \<and>
    test_validate_ppm_invalid \<and> test_validate_tuner_gain_valid \<and>
    test_validate_tuner_gain_invalid \<and> test_rate_limiter_allows_after_interval t0 t1 t2 \<and>
    test_rate_limiter_blocks_rapid_commands t0 t1 t2 t3 \<and>
    test_rate_limiter_allows_after_sleep t0 t1 t2 t4 \<and> test_agc_state_initial_true \<and>
    test_agc_state_enable_unchanged \<and> test_agc_state_disable_changed \<and>
    test_agc_state_enable_after_disable \<and> test_agc_state_disable_twice_unchanged \<and>
    test_check_whitelist_matching_ip_allows parse_net net_contains \<and>
    test_check_whitelist_non_matching_rejects parse_net net_contains \<and>
    test_check_whitelist_empty_allows parse_net net_contains \<and>
    test_whitelist_ipv4_single parse_net net_contains \<and>
    test_whitelist_ipv4_cidr parse_net net_contains \<and>
    test_whitelist_ipv4_cidr_16 parse_net net_contains \<and>
    test_whitelist_multiple_entries parse_net net_contains \<and>
    test_whitelist_empty parse_net net_contains \<and>
    test_whitelist_invalid_cidr parse_net net_contains \<and>
    test_whitelist_ipv6 parse_net net_contains \<and>
    test_whitelist_ipv4_mapped parse_net net_contains \<and> test_chain_detect_ack_response \<and>
    test_chain_detect_ack_format \<and> test_roundtrip_header_and_chunks \<and>
    test_roundtrip_empty_chunk \<and> test_buffer_flush_identity \<and> test_invalid_magic_rejected
    \<and> test_new_broadcast_send_recv try_recv_fn send_fn rcvr1 \<and>
    test_broadcast_multiple_receivers try_recv_fn send_fn rcvr1 rcvr2 \<and>
    test_writer_exits_on_flag try_recv_fn send_fn rcvr1 \<and> test_nonce_exchange fill_a fill_b \<and>
    test_internal_encrypted_roundtrip cipher_new apply_keystream room"
  using ip_networks.whitelist_tests_hold [OF assms(1)]
    broadcast_receiver.stream_tests_hold [OF assms(2-6)]
    rate_limiter_tests_hold(1) [OF assms(7,8)] rate_limiter_tests_hold(2) [OF assms(9)]
    rate_limiter_tests_hold(3) [OF assms(10)] nonce_test_holds [of fill_a fill_b, OF assms(11,12)]
    stream_cipher.roundtrip_test_holds [OF assms(13), of room cipher_new, OF assms(14)]
    constant_tests_hold validation_tests_hold agc_tests_hold capture_tests_hold
  by (intro conjI)

lemma unit_tests_hold_witness:
  "test_whitelist_ipv6 cidr_parse cidr_contains \<and> test_whitelist_ipv4_mapped cidr_parse cidr_contains \<and>
   test_rate_limiter_blocks_rapid_commands 5 5 7 9 \<and>
   test_writer_exits_on_flag sub_try_recv sub_send (sub_new 16) \<and>
   test_nonce_exchange (\<lambda>n. replicate n 1) (\<lambda>n. replicate n 2) \<and>
   test_internal_encrypted_roundtrip (ks_new (\<lambda>_ _ p. of_nat p)) ks_apply (\<lambda>k. 32 * 2 ^ k)"
  using unit_tests_hold [OF cidr.ip_networks_axioms sub_rx.broadcast_receiver_axioms,
      of "sub_new 16" "sub_new 16" 5 7 9 15000007 "\<lambda>n. replicate n 1" "\<lambda>n. replicate n 2" ks_apply
      "\<lambda>k. 32 * 2 ^ k" 5 "ks_new (\<lambda>_ _ p. of_nat p)", OF _ _ _ _ _ _ _ _ _ _ ks.stream_cipher_axioms]
  by (simp add: sub_new_def)

end
