(* ===== verification/Integration_Tests.thy ===== *)
theory Integration_Tests
  imports Test_Suite Proxy Replay Capture_Tool Cli
begin

text \<open>
  The tests under \<open>tests/\<close> that need no device and say more than the unit tests
  (\<open>Test_Suite\<close>), run on the model under their own names: connecting to an upstream
  (\<open>proxy_test.rs\<close>), the channel (\<open>stream_tests.rs\<close>), the encrypted stream
  (\<open>encryption_test.rs\<close>), the two companion programs (\<open>capture_test.rs\<close>) and the
  rejected command lines (\<open>chain_test.rs\<close>, \<open>integration.rs\<close>). The peer a test
  starts in a thread of its own is the script of the socket, and what that peer asserts
  is asserted of the bytes it is sent.

  Not transcribed: tests of \<open>--help\<close> and of missing arguments (\<open>clap\<close>), tests of the
  standard library's sockets, tests that are empty, tests of functions \<open>integration.rs\<close>
  and \<open>performance.rs\<close> define for themselves, tests that repeat a unit test, and
  those that need a receiver.
\<close>

section \<open>\<open>proxy_test.rs\<close>\<close>

text \<open>The upstream of the tests: it accepts, sends the magic packet and what \<open>es\<close> says.\<close>

definition start_upstream :: "read_event list \<Rightarrow> string \<Rightarrow> io_error + tcp" where
  "start_upstream es addr = Inr (fresh_tcp (Data MAGIC_PACKET # es))"

text \<open>What the upstream reads of the probe, and that it is one.\<close>

definition upstream_reads_probe :: "tcp \<Rightarrow> bool" where
  "upstream_reads_probe s \<longleftrightarrow>
     (case tcp_read_exact 5 (fresh_tcp [Data (tx s)]) of
        (Inr buf, _) \<Rightarrow> buf ! 0 = 0xF0
      | _ \<Rightarrow> False)"

definition test_chain_detect_handshake :: "(bytes \<Rightarrow> bytes \<Rightarrow> 'c) \<Rightarrow> (nat \<Rightarrow> bytes) \<Rightarrow> u16 \<Rightarrow> bool" where
  "test_chain_detect_handshake cipher_new fill p \<longleftrightarrow>
     (case connect_upstream (start_upstream [Data [0xF0, 0x00, 0x00, 0x00, 0x00]]) cipher_new fill
             ''127.0.0.1'' p None 500 of
        Some (Inr conn) \<Rightarrow>
          is_chain conn \<and> up_write_cipher conn = None \<and> upstream_reads_probe (up_stream conn)
      | _ \<Rightarrow> False)"

text \<open>The read that is not answered within the time ends with a time-out.\<close>

definition test_chain_detect_timeout_gives_plain ::
  "(bytes \<Rightarrow> bytes \<Rightarrow> 'c) \<Rightarrow> (nat \<Rightarrow> bytes) \<Rightarrow> u16 \<Rightarrow> string \<Rightarrow> bool" where
  "test_chain_detect_timeout_gives_plain cipher_new fill p msg \<longleftrightarrow>
     (case connect_upstream (start_upstream [Fault \<lparr>err_kind = WouldBlock, err_msg = msg\<rparr>]) cipher_new fill
             ''127.0.0.1'' p None 200 of
        Some (Inr conn) \<Rightarrow> \<not> is_chain conn \<and> upstream_reads_probe (up_stream conn)
      | _ \<Rightarrow> False)"

text \<open>The commands of the round trip, their sender and the upstream that decrypts them.\<close>

definition forwarded_cmds :: "bytes list" where
  "forwarded_cmds =
     [[0x01, 0x11, 0x22, 0x33, 0x44], [0x02, 0xAA, 0xBB, 0xCC, 0xDD], [0x03, 0x00, 0xFF, 0x00, 0xFF]]"

fun send_encrypted :: "('c \<Rightarrow> bytes \<Rightarrow> bytes \<times> 'c) \<Rightarrow> bytes list \<Rightarrow> 'c \<Rightarrow> tcp \<Rightarrow> tcp option" where
  "send_encrypted apply_keystream [] write_cipher s = Some s"
| "send_encrypted apply_keystream (cmd # cmds) write_cipher s =
     (case apply_keystream write_cipher cmd of
        (encrypted, write_cipher') \<Rightarrow>
          (case tcp_write_all encrypted s of
             (Inr _, s') \<Rightarrow> send_encrypted apply_keystream cmds write_cipher' s'
           | (Inl e, _) \<Rightarrow> None))"

fun expect_encrypted :: "('c \<Rightarrow> bytes \<Rightarrow> bytes \<times> 'c) \<Rightarrow> bytes list \<Rightarrow> 'c \<Rightarrow> tcp \<Rightarrow> bool" where
  "expect_encrypted apply_keystream [] read_cipher s = True"
| "expect_encrypted apply_keystream (expected # cmds) read_cipher s =
     (case tcp_read_exact 5 s of
        (Inr cmd_buf, s') \<Rightarrow>
          (case apply_keystream read_cipher cmd_buf of
             (plain, read_cipher') \<Rightarrow>
               plain = expected \<and> expect_encrypted apply_keystream cmds read_cipher' s')
      | (Inl e, _) \<Rightarrow> False)"

definition upstream_decrypts ::
  "(bytes \<Rightarrow> bytes \<Rightarrow> 'c) \<Rightarrow> ('c \<Rightarrow> bytes \<Rightarrow> bytes \<times> 'c) \<Rightarrow> bytes \<Rightarrow> tcp \<Rightarrow> bool" where
  "upstream_decrypts cipher_new apply_keystream server_key s \<longleftrightarrow>
     (case tcp_read_exact 5 (fresh_tcp [Data (tx s)]) of
        (Inr buf, s1) \<Rightarrow>
          buf ! 0 = 0xF0 \<and>
          (case tcp_read_exact 12 s1 of
             (Inr peer_nonce, s2) \<Rightarrow>
               expect_encrypted apply_keystream forwarded_cmds (cipher_new server_key peer_nonce) s2
           | (Inl e, _) \<Rightarrow> False)
      | (Inl e, _) \<Rightarrow> False)"

definition test_encrypted_proxy_command_roundtrip ::
  "(bytes \<Rightarrow> bytes \<Rightarrow> 'c) \<Rightarrow> ('c \<Rightarrow> bytes \<Rightarrow> bytes \<times> 'c) \<Rightarrow> (nat \<Rightarrow> bytes) \<Rightarrow> (nat \<Rightarrow> bytes) \<Rightarrow> u16 \<Rightarrow> bool" where
  "test_encrypted_proxy_command_roundtrip cipher_new apply_keystream fill fill_server p \<longleftrightarrow>
     (let cipher_key = replicate 32 0x42; my_nonce = generate_nonce fill_server
      in case connect_upstream (start_upstream [Data [0xF0, 0x00, 0x00, 0x00, 0x00], Data my_nonce])
                cipher_new fill ''127.0.0.1'' p (Some cipher_key) 500 of
           Some (Inr conn) \<Rightarrow>
             is_chain conn \<and>
             (case up_write_cipher conn of
                Some write_cipher \<Rightarrow>
                  (case send_encrypted apply_keystream forwarded_cmds write_cipher (up_stream conn) of
                     Some s \<Rightarrow> upstream_decrypts cipher_new apply_keystream cipher_key s
                   | None \<Rightarrow> False)
              | None \<Rightarrow> False)
         | _ \<Rightarrow> False)"

section \<open>\<open>stream_tests.rs\<close> and \<open>encryption_test.rs\<close>\<close>

definition test_broadcast_send_recv ::
  "('r \<Rightarrow> try_recv \<times> 'r) \<Rightarrow> (bytes \<Rightarrow> 'r \<Rightarrow> 'r) \<Rightarrow> 'r \<Rightarrow> 'r \<Rightarrow> bool" where
  "test_broadcast_send_recv try_recv_fn send_fn rx1 rx2 \<longleftrightarrow>
     (let payload = replicate 512 0
      in case (fst (try_recv_fn (send_fn payload rx1)), fst (try_recv_fn (send_fn payload rx2))) of
           (Received recv1, Received recv2) \<Rightarrow> length recv1 = 512 \<and> recv2 = recv1
         | _ \<Rightarrow> False)"

definition test_broadcast_lag :: "('r \<Rightarrow> try_recv \<times> 'r) \<Rightarrow> (bytes \<Rightarrow> 'r \<Rightarrow> 'r) \<Rightarrow> 'r \<Rightarrow> bool" where
  "test_broadcast_lag try_recv_fn send_fn rcvr \<longleftrightarrow>
     (case fst (try_recv_fn (send_fn (replicate 64 1) (((send_fn (replicate 64 0)) ^^ 4) rcvr))) of
        Lagged n \<Rightarrow> 0 < n
      | _ \<Rightarrow> False)"

definition test_encrypted_roundtrip ::
  "(bytes \<Rightarrow> bytes \<Rightarrow> 'c) \<Rightarrow> ('c \<Rightarrow> bytes \<Rightarrow> bytes \<times> 'c) \<Rightarrow> (nat \<Rightarrow> nat) \<Rightarrow> bool" where
  "test_encrypted_roundtrip cipher_new apply_keystream room \<longleftrightarrow>
     pair_roundtrips cipher_new apply_keystream room (replicate 32 0xAB) (replicate 12 0x42)
       (map of_char ''Hello, ChaCha20!'')"

section \<open>\<open>capture_test.rs\<close>\<close>

text \<open>
  The replay program on a capture file written by the test. The file is opened anew, so it is
  read from its beginning.
\<close>

definition test_header :: capture_header where
  "test_header = \<lparr>magic_payload = MAGIC_PACKET\<rparr>"

definition replay_of ::
  "capture_chunk list \<Rightarrow> replay_args \<Rightarrow> (bytes \<Rightarrow> string) \<Rightarrow> tcp \<Rightarrow> nat \<Rightarrow> bool list \<Rightarrow>
   (nat + (flow \<times> replay_state) \<times> (flow \<times> cmd_state)) option" where
  "replay_of chunks args hex_encode client rounds quits =
     (case write_capture test_header chunks (file_of []) of
        Some (Inr _, f) \<Rightarrow>
          replay_main args hex_encode (Inr (f\<lparr>f_pos := 0\<rparr>)) (Inr ()) (Inr client) (Inr ()) rounds quits
      | _ \<Rightarrow> None)"

definition test_replay_magic_and_data ::
  "replay_args \<Rightarrow> (bytes \<Rightarrow> string) \<Rightarrow> nat \<Rightarrow> bool list \<Rightarrow> bool" where
  "test_replay_magic_and_data args hex_encode rounds quits \<longleftrightarrow>
     (let expected_data = map (\<lambda>i. of_nat (i mod 256)) [0..<4096]
      in case replay_of [\<lparr>timestamp_ns = 1000, chunk_data = expected_data\<rparr>]
                (args\<lparr>speed_positive := False, loop_mode := False\<rparr>) hex_encode (fresh_tcp []) rounds quits of
           Some (Inr ((Break, s), _)) \<Rightarrow>
             take 12 (tx (rep_client s)) = MAGIC_PACKET \<and>
             take 4096 (drop 12 (tx (rep_client s))) = expected_data \<and> \<not> panicked s
         | _ \<Rightarrow> False)"

text \<open>
  The client reads the magic packet and goes away: its socket takes the packet, and then
  \<open>es\<close> is what the writes find.
\<close>

definition test_replay_exits_cleanly_on_disconnect ::
  "replay_args \<Rightarrow> (bytes \<Rightarrow> string) \<Rightarrow> write_event list \<Rightarrow> nat \<Rightarrow> bool list \<Rightarrow> bool" where
  "test_replay_exits_cleanly_on_disconnect args hex_encode es rounds quits \<longleftrightarrow>
     (case replay_of [\<lparr>timestamp_ns = 0, chunk_data = replicate 64 0xDD\<rparr>]
             (args\<lparr>speed_positive := False, loop_mode := False\<rparr>) hex_encode
             ((fresh_tcp [])\<lparr>tx_script := Accept 12 # es\<rparr>) rounds quits of
        Some (Inr ((Break, s), (Break, _))) \<Rightarrow> take 12 (tx (rep_client s)) = MAGIC_PACKET \<and> \<not> panicked s
      | _ \<Rightarrow> False)"

text \<open>About a second of streaming, and a client that sends three commands meanwhile.\<close>

definition streamed_chunks :: "capture_chunk list" where
  "streamed_chunks = map (\<lambda>i. \<lparr>timestamp_ns = of_nat i * 20000000, chunk_data = replicate 1024 0xCC\<rparr>) [0..<50]"

definition test_replay_logs_client_commands ::
  "replay_args \<Rightarrow> (bytes \<Rightarrow> string) \<Rightarrow> nat \<Rightarrow> bool list \<Rightarrow> bool" where
  "test_replay_logs_client_commands args hex_encode rounds quits \<longleftrightarrow>
     (case replay_of streamed_chunks
             (args\<lparr>speed_positive := True, loop_mode := False\<rparr>) hex_encode
             (fresh_tcp [Data [0x01, 0x05, 0xFD, 0x82, 0x20], Data [0x02, 0x00, 0x1F, 0x40, 0x00],
                Data [0xF0, 0x00, 0x00, 0x00, 0x00]]) rounds quits of
        Some (Inr ((Break, s), (Break, c))) \<Rightarrow>
          \<not> panicked s \<and>
          list_ex (sublist ''SET_FREQUENCY'') (cmd_log c) \<and>
          list_ex (sublist ''SET_SAMPLE_RATE'') (cmd_log c) \<and>
          list_ex (sublist ''CHAIN_DETECT'') (cmd_log c)
      | _ \<Rightarrow> False)"

text \<open>An exit code other than zero.\<close>

definition replay_fails :: "replay_args \<Rightarrow> (bytes \<Rightarrow> string) \<Rightarrow> (io_error + fs_file) \<Rightarrow> bool" where
  "replay_fails args hex_encode opened \<longleftrightarrow>
     (case replay_main args hex_encode opened (Inr ()) (Inr (fresh_tcp [])) (Inr ()) 1 [False] of
        Some (Inl code) \<Rightarrow> code \<noteq> 0
      | _ \<Rightarrow> False)"

definition test_replay_missing_file_errors :: "replay_args \<Rightarrow> (bytes \<Rightarrow> string) \<Rightarrow> io_error \<Rightarrow> bool" where
  "test_replay_missing_file_errors args hex_encode e \<longleftrightarrow> replay_fails args hex_encode (Inl e)"

definition test_replay_corrupted_file_errors :: "replay_args \<Rightarrow> (bytes \<Rightarrow> string) \<Rightarrow> bool" where
  "test_replay_corrupted_file_errors args hex_encode \<longleftrightarrow>
     replay_fails args hex_encode (Inr (file_of (map of_char ''NOTANRTLXFILE'')))"

definition test_replay_empty_file_errors :: "replay_args \<Rightarrow> (bytes \<Rightarrow> string) \<Rightarrow> bool" where
  "test_replay_empty_file_errors args hex_encode \<longleftrightarrow> replay_fails args hex_encode (Inr (file_of []))"

definition test_capture_connection_failure_errors ::
  "capture_args \<Rightarrow> io_error \<Rightarrow> (fs_file \<Rightarrow> io_error + nat) \<Rightarrow> capture_round_in list \<Rightarrow> nat \<Rightarrow> bool" where
  "test_capture_connection_failure_errors args e metadata rs t \<longleftrightarrow>
     (case capture_program args (Inr ()) (Inl e) (Inr (file_of [])) metadata rs t of
        Some (ExitCode code) \<Rightarrow> code \<noteq> 0
      | _ \<Rightarrow> False)"

section \<open>\<open>chain_test.rs\<close> and \<open>integration.rs\<close>\<close>

text \<open>The arguments with the values they have when they are not given.\<close>

definition default_args :: args where
  "default_args =
     \<lparr>mode = ''serve'', address = ''127.0.0.1'', master_port = 1234, slave_port = None, max_slaves = 10,
      upstream = None, key = None, key_file = None, device_index = 0, buffers = 15, tcp_buffers = 512000,
      arg_read_timeout = 30, arg_write_timeout = 30, whitelist = []\<rparr>"

text \<open>\<open>clap\<close> already refuses an unknown mode; what is tested here is that \<open>main\<close> does too.\<close>

definition test_invalid_mode_fails :: bool where
  "test_invalid_mode_fails \<longleftrightarrow> \<not> is_ok (select_mode (default_args\<lparr>mode := ''invalid''\<rparr>))"

definition test_master_slave_same_port_rejected :: bool where
  "test_master_slave_same_port_rejected \<longleftrightarrow>
     (case select_mode (default_args\<lparr>mode := ''serve'', master_port := 1234, slave_port := Some 1234\<rparr>) of
        Inl e \<Rightarrow> sublist ''slave-port must differ from master-port'' (rtl_tcp_error_fmt e)
      | Inr _ \<Rightarrow> False)"

section \<open>They hold\<close>

lemma default_args_ok: "select_mode default_args = Inr ServeSingle"
  by (simp add: select_mode_def validate_args_def default_args_def)

lemma rejected_lines: "test_invalid_mode_fails" "test_master_slave_same_port_rejected"
  by (simp_all add: test_invalid_mode_fails_def test_master_slave_same_port_rejected_def select_mode_def
      validate_args_def default_args_def is_ok_def rtl_tcp_error_fmt_def sublist_Cons_right)

lemma length_MAGIC [simp]: "length MAGIC_PACKET = 12"
  by (simp add: MAGIC_PACKET_def)


text \<open>Connecting to the upstream of the tests.\<close>

lemma start_upstream_simps [simp]:
  "start_upstream es addr = Inr (fresh_tcp (Data MAGIC_PACKET # es))"
  by (simp add: start_upstream_def)

lemma upstream_reads_probe_sent:
  assumes "tx s = chain_probe @ rest"
  shows "upstream_reads_probe s"
  using tcp_read_exact_fault_free [of "fresh_tcp [Data (tx s)]" 5] assms
  by (auto simp: upstream_reads_probe_def fresh_tcp_def chain_probe_def CMD_CHAIN_DETECT_def)

lemma handshake_test_holds: "test_chain_detect_handshake cipher_new fill p"
proof -
  obtain c where "connect_upstream (start_upstream [Data [0xF0, 0, 0, 0, 0]]) cipher_new fill ''127.0.0.1'' p None 500 =
      Some (Inr c)" "is_chain c" "up_write_cipher c = None" "tx (up_stream c) = chain_probe @ []"
    using connect_upstream_streaming [of "start_upstream [Data [0xF0, 0, 0, 0, 0]]" "''127.0.0.1''" p _ 500
        MAGIC_PACKET "[0xF0, 0, 0, 0, 0]" "[]" None cipher_new fill]
    by (auto simp: CMD_CHAIN_DETECT_def)
  then show ?thesis by (simp add: test_chain_detect_handshake_def upstream_reads_probe_sent)
qed

lemma timeout_test_holds: "test_chain_detect_timeout_gives_plain cipher_new fill p msg"
proof -
  let ?e = "\<lparr>err_kind = WouldBlock, err_msg = msg\<rparr>"
  have "tcp_read_exact 12 (snd (set_read_timeout 200 (fresh_tcp [Data MAGIC_PACKET, Fault ?e]))) =
      (Inr MAGIC_PACKET, (fresh_tcp [Fault ?e])\<lparr>read_timeout := Some 200\<rparr>)"
    by (simp add: tcp_read_exact_def set_read_timeout_def fresh_tcp_def)
  then obtain c where "connect_upstream (start_upstream [Fault ?e]) cipher_new fill ''127.0.0.1'' p None 200 =
      Some (Inr c)" "\<not> is_chain c" "tx (up_stream c) = chain_probe @ []"
    by (simp add: connect_upstream_def set_read_timeout_def read_chain_ack_timeout negotiate_def finish_connection_ok)
  then show ?thesis by (simp add: test_chain_detect_timeout_gives_plain_def upstream_reads_probe_sent)
qed

context stream_cipher
begin

text \<open>What is sent under a cipher is decrypted by its twin.\<close>

lemma send_encrypted_wire:
  assumes "tx_script s = []"
  shows "send_encrypted apply_keystream cmds c s = Some (s\<lparr>tx := tx s @ crypt c (concat cmds)\<rparr>)"
  using assms
proof (induction cmds arbitrary: c s)
  case (Cons cmd cmds)
  then show ?case by (simp add: apply_eq [of c cmd] crypt_append)
qed simp

lemma expect_encrypted_wire:
  assumes "fault_free (rx s)" and "stream_bytes (rx s) = crypt c (concat cmds)"
    and "list_all (\<lambda>cmd. length cmd = 5) cmds"
  shows "expect_encrypted apply_keystream cmds c s"
  using assms
proof (induction cmds arbitrary: c s)
  case (Cons cmd cmds)
  from tcp_read_exact_fault_free [of s 5] Cons.prems obtain es where
    "tcp_read_exact 5 s = (Inr (crypt c cmd), s\<lparr>rx := es\<rparr>)" "fault_free es"
    "stream_bytes es = crypt (after c 5) (concat cmds)"
    by (auto simp: crypt_append)
  with Cons.IH [of "s\<lparr>rx := es\<rparr>" "after c 5"] Cons.prems show ?case
    by (simp add: apply_eq [of c "crypt c cmd"])
qed simp

lemma upstream_decrypts_wire:
  assumes "tx s = chain_probe @ nonce @ crypt (cipher_new k nonce) (concat forwarded_cmds)" and "length nonce = 12"
  shows "upstream_decrypts cipher_new apply_keystream k s"
proof -
  have probe: "length chain_probe = 5" "chain_probe ! 0 = 0xF0" by (simp_all add: chain_probe_def CMD_CHAIN_DETECT_def)
  with tcp_read_exact_fault_free [of "fresh_tcp [Data (tx s)]" 5] assms(1) obtain es where
    1: "tcp_read_exact 5 (fresh_tcp [Data (tx s)]) = (Inr chain_probe, (fresh_tcp [Data (tx s)])\<lparr>rx := es\<rparr>)"
      "fault_free es" "stream_bytes es = nonce @ crypt (cipher_new k nonce) (concat forwarded_cmds)"
    by auto
  let ?s = "(fresh_tcp [Data (tx s)])\<lparr>rx := es\<rparr>"
  from tcp_read_exact_fault_free [of ?s 12] 1(2,3) assms(2) obtain es' where
    2: "tcp_read_exact 12 ?s = (Inr nonce, ?s\<lparr>rx := es'\<rparr>)" "fault_free es'"
      "stream_bytes es' = crypt (cipher_new k nonce) (concat forwarded_cmds)"
    by auto
  have "expect_encrypted apply_keystream forwarded_cmds (cipher_new k nonce) (?s\<lparr>rx := es'\<rparr>)"
    using 2 by (intro expect_encrypted_wire) (simp_all add: forwarded_cmds_def)
  with 1(1) 2(1) probe(2) show ?thesis by (simp add: upstream_decrypts_def)
qed

lemma roundtrip_proxy_test_holds:
  assumes "length (fill 12) = 12" and "length (fill_server 12) = 12"
  shows "test_encrypted_proxy_command_roundtrip cipher_new apply_keystream fill fill_server p"
proof -
  let ?k = "replicate 32 0x42"
  let ?ack = "[0xF0, 0, 0, 0, 0]"
  let ?connect = "start_upstream [Data ?ack, Data (generate_nonce fill_server)]"
  obtain c where c: "connect_upstream ?connect cipher_new fill ''127.0.0.1'' p (Some ?k) 500 = Some (Inr c)"
      "is_chain c" "up_write_cipher c = Some (cipher_new ?k (fill 12))"
      "tx (up_stream c) = chain_probe @ fill 12" "tx_script (up_stream c) = []"
    using connect_upstream_encrypted [of ?connect "''127.0.0.1''" p _ 500 MAGIC_PACKET ?ack
        "generate_nonce fill_server" "[]" cipher_new fill ?k] assms(2)
    by (auto simp: CMD_CHAIN_DETECT_def generate_nonce_def)
  let ?s = "(up_stream c)\<lparr>tx := tx (up_stream c) @ crypt (cipher_new ?k (fill 12)) (concat forwarded_cmds)\<rparr>"
  have "upstream_decrypts cipher_new apply_keystream ?k ?s"
    using c(4) assms(1) by (intro upstream_decrypts_wire [of _ "fill 12"]) simp_all
  with c send_encrypted_wire [OF c(5)] show ?thesis
    by (simp add: test_encrypted_proxy_command_roundtrip_def Let_def)
qed

lemma roundtrip_16_test_holds:
  assumes "\<And>k. 0 < room k"
  shows "test_encrypted_roundtrip cipher_new apply_keystream room"
  using pair_roundtrips_data [OF assms] by (simp only: test_encrypted_roundtrip_def)

end

context broadcast_receiver
begin

lemma send_recv_test_holds:
  assumes "pending rx1 = []" and "1 \<le> capacity rx1" and "pending rx2 = []" and "1 \<le> capacity rx2"
  shows "test_broadcast_send_recv try_recv_fn send_fn rx1 rx2"
  using recv_next [of "send_fn (replicate 512 0) rx1" "replicate 512 0"]
    recv_next [of "send_fn (replicate 512 0) rx2" "replicate 512 0"] assms
  by (simp add: test_broadcast_send_recv_def Let_def send_pending send_capacity)

end

lemma sub_lag_test_holds: "test_broadcast_lag sub_try_recv sub_send (sub_new 4)"
  by (simp add: test_broadcast_lag_def sub_try_recv_def sub_send_def sub_new_def eval_nat_numeral)

section \<open>Replay\<close>

lemma test_header_fits: "header_fits test_header"
  by (simp add: header_fits_def test_header_def)

lemma replay_of_capture:
  "replay_of chunks args hex client n qs =
     replay_main args hex (Inr (file_of (encode_capture test_header chunks))) (Inr ()) (Inr client) (Inr ()) n qs"
  by (simp add: replay_of_def write_capture_file) (simp add: file_of_def)

lemma failing_tests_hold:
  "test_replay_missing_file_errors args hex e" "test_replay_corrupted_file_errors args hex"
  "test_replay_empty_file_errors args hex" "test_capture_connection_failure_errors cargs e metadata rs t"
proof -
  show "test_replay_missing_file_errors args hex e"
    by (simp add: test_replay_missing_file_errors_def replay_fails_def replay_main_def)
  show "test_replay_corrupted_file_errors args hex"
    by (simp add: test_replay_corrupted_file_errors_def replay_fails_def replay_main_def read_header_def io_simps
        CAPTURE_MAGIC_def file_of_def unread_def)
  show "test_replay_empty_file_errors args hex"
    by (simp add: test_replay_empty_file_errors_def replay_fails_def replay_main_def read_header_def io_simps
        file_of_def unread_def)
  show "test_capture_connection_failure_errors cargs e metadata rs t"
    by (simp add: test_capture_connection_failure_errors_def capture_program_def capture_main_def)
qed

lemma magic_and_data_test_holds:
  assumes "2 \<le> n"
  shows "test_replay_magic_and_data args hex n qs"
proof -
  define cs where "cs = [\<lparr>timestamp_ns = 1000, chunk_data = map (\<lambda>i. of_nat (i mod 256)) [0..<4096]\<rparr>]"
  let ?args = "args\<lparr>speed_positive := False, loop_mode := False\<rparr>"
  have "list_all chunk_fits (\<lparr>timestamp_ns = 0, chunk_data = []\<rparr> # cs)" by (simp add: cs_def chunk_fits_def del: upt_rec_numeral)
  from replay_main_play [OF test_header_fits this, of 0 "fresh_tcp []" ?args n hex qs] assms obtain s r where
    "replay_of cs ?args hex (fresh_tcp []) n qs = Some (Inr ((Break, s), r))"
    "tx (rep_client s) = MAGIC_PACKET @ concat (map chunk_data cs)" "\<not> panicked s"
    by (auto simp: replay_of_capture test_header_def cs_def length_encode_chunk simp del: upt_rec_numeral)
  then show ?thesis
    unfolding test_replay_magic_and_data_def Let_def cs_def by (simp del: upt_rec_numeral)
qed

lemma replay_of_started:
  assumes "tcp_write_all MAGIC_PACKET client = (Inr (), client')"
  shows "replay_of cs args hex client n qs =
    map_option (\<lambda>r. Inr (r, cmd_loop hex qs \<lparr>cmd_stream = client'\<lparr>read_timeout := Some 200\<rparr>, cmd_log = []\<rparr>))
      (replay_loop args (length (write_header_to_vec test_header)) (replicate n False)
        \<lparr>rep_file = (file_of (encode_capture test_header cs))\<lparr>f_pos := length (write_header_to_vec test_header)\<rparr>,
         rep_client = client', prev_timestamp = None, sleeps = [], panicked = False\<rparr>)"
proof -
  let ?f = "file_of (encode_capture test_header cs)"
  have "read_header file_read ?f = Some (Inr test_header, ?f\<lparr>f_pos := length (write_header_to_vec test_header)\<rparr>)"
    using read_header_file [of ?f test_header "concat (map encode_chunk cs)"] test_header_fits
    by (simp add: file_of_def unread_def encode_capture_def)
  with assms show ?thesis
    by (simp add: replay_of_capture replay_main_def Let_def file_stream_position_def io_simps set_read_timeout_def
        test_header_def split: option.splits)
qed

lemma send_script_nothing: "send_script [] es = (Inr (), [], es)"
  by (cases "([] :: bytes, es)" rule: send_script.cases) simp_all

lemma cmd_loop_gone:
  "rx st = [] \<Longrightarrow> \<exists>s. cmd_loop hex (q # qs) \<lparr>cmd_stream = st, cmd_log = log\<rparr> = (Break, s) \<and> cmd_log s = log"
  by (simp add: cmd_round_def tcp_read_exact_def COMMAND_HEADER_SIZE_def replay_is_disconnect_err_def
      READ_EXACT_EOF_def Let_def)

lemma disconnect_test_holds:
  assumes "2 \<le> n" and "qs \<noteq> []"
  shows "test_replay_exits_cleanly_on_disconnect args hex es n qs"
proof -
  let ?args = "args\<lparr>speed_positive := False, loop_mode := False\<rparr>"
  let ?cl = "(fresh_tcp [])\<lparr>tx := MAGIC_PACKET, tx_script := es\<rparr>"
  define c where "c = \<lparr>timestamp_ns = (0 :: u64), chunk_data = replicate 64 (0xDD :: u8)\<rparr>"
  let ?h = "length (write_header_to_vec test_header)"
  let ?s = "\<lparr>rep_file = (file_of (encode_capture test_header [c]))\<lparr>f_pos := ?h\<rparr>, rep_client = ?cl,
       prev_timestamp = None, sleeps = [], panicked = False\<rparr>"
  have fits: "chunk_fits c" by (simp add: c_def chunk_fits_def)
  have unread: "unread (rep_file ?s) = encode_chunk c @ []" by (simp add: unread_def file_of_def encode_capture_def)
  have "tcp_write_all MAGIC_PACKET ((fresh_tcp [])\<lparr>tx_script := Accept 12 # es\<rparr>) = (Inr (), ?cl)"
    by (simp add: tcp_write_all_def send_script_nothing fresh_tcp_def MAGIC_PACKET_def)
  note main = replay_of_started [OF this, of "[c]" ?args hex n qs]
  obtain q qs' where qs: "qs = q # qs'" using assms(2) by (cases qs) auto
  obtain m where n: "n = Suc (Suc m)" using that [of "n - 2"] assms(1) by simp
  let ?f = "(rep_file ?s)\<lparr>f_pos := f_pos (rep_file ?s) + length (encode_chunk c)\<rparr>"
  obtain r sent es' where w: "send_script (chunk_data c) es = (r, sent, es')" by (metis prod_cases3)
  let ?s' = "?s\<lparr>rep_file := ?f, rep_client := ?cl\<lparr>tx := MAGIC_PACKET @ sent, tx_script := es'\<rparr>\<rparr>"
  have round: "replay_round ?args ?h False ?s = Some (case r of Inl e \<Rightarrow> Break | Inr _ \<Rightarrow> Continue, ?s')"
    using w read_chunk_file [OF unread fits]
    by (simp add: replay_round_def pace_def Let_def tcp_write_all_def split: sum.splits)
  have "unread ?f = take 0 (encode_chunk c)" by (simp add: unread_def file_of_def encode_capture_def)
  with replay_round_end [of ?s' 0 c ?args ?h False] fits obtain p where
    "replay_round ?args ?h False ?s' = Some (Break, ?s'\<lparr>rep_file := ?f\<lparr>f_pos := p\<rparr>\<rparr>)"
    by (auto simp: length_encode_chunk)
  with round n obtain s where "replay_loop ?args ?h (replicate n False) ?s = Some (Break, s)"
    "tx (rep_client s) = MAGIC_PACKET @ sent" "\<not> panicked s"
    by (cases r) auto
  with main qs cmd_loop_gone [of "?cl\<lparr>read_timeout := Some 200\<rparr>" hex q qs' "[]"]
  obtain s' where "replay_of [c] ?args hex ((fresh_tcp [])\<lparr>tx_script := Accept 12 # es\<rparr>) n qs =
      Some (Inr ((Break, s), (Break, s')))" by auto
  with \<open>tx (rep_client s) = _\<close> \<open>\<not> panicked s\<close> show ?thesis
    unfolding test_replay_exits_cleanly_on_disconnect_def c_def [symmetric] by simp
qed

lemma logged_commands:
  assumes "4 \<le> length qs"
  shows "\<exists>s. cmd_loop hex qs \<lparr>cmd_stream = st\<lparr>rx := [Data [0x01, 0x05, 0xFD, 0x82, 0x20],
        Data [0x02, 0x00, 0x1F, 0x40, 0x00], Data [0xF0, 0x00, 0x00, 0x00, 0x00]]\<rparr>, cmd_log = []\<rparr> = (Break, s) \<and>
    list_ex (sublist ''SET_FREQUENCY'') (cmd_log s) \<and> list_ex (sublist ''SET_SAMPLE_RATE'') (cmd_log s) \<and>
    list_ex (sublist ''CHAIN_DETECT'') (cmd_log s)"
proof -
  obtain a b c d qs' where "qs = a # b # c # d # qs'"
    using assms by (metis Suc_le_length_iff numeral_eq_Suc pred_numeral_simps(2,3) semiring_norm(26,27,28))
  then show ?thesis
    by (simp add: cmd_round_def tcp_read_exact_def COMMAND_HEADER_SIZE_def replay_is_disconnect_err_def
      READ_EXACT_EOF_def Let_def describe_command_def CMD_SET_FREQUENCY_def CMD_SET_SAMPLE_RATE_def
      CMD_SET_GAIN_MODE_def CMD_SET_TUNER_GAIN_def CMD_SET_PPM_def CMD_SET_AGC_def CMD_CHAIN_DETECT_def
      sublist_Cons_right)
qed

lemma streamed_in_order: "in_order None (map timestamp_ns streamed_chunks)"
  unfolding streamed_chunks_def by code_simp

lemma streamed_length: "length streamed_chunks = 50"
  by (simp add: streamed_chunks_def)

lemma streamed_fit: "list_all chunk_fits streamed_chunks"
  by (simp add: streamed_chunks_def list_all_iff chunk_fits_def del: upt_rec_numeral)

lemma commands_test_holds:
  assumes "51 \<le> n" and "4 \<le> length qs"
  shows "test_replay_logs_client_commands args hex n qs"
proof -
  let ?args = "args\<lparr>speed_positive := True, loop_mode := False\<rparr>"
  let ?cmds = "[Data [0x01, 0x05, 0xFD, 0x82, 0x20], Data [0x02, 0x00, 0x1F, 0x40, 0x00],
    Data [0xF0, 0x00, 0x00, 0x00, 0x00]]"
  let ?cl = "(fresh_tcp ?cmds)\<lparr>tx := MAGIC_PACKET\<rparr>"
  have "list_all chunk_fits (\<lparr>timestamp_ns = 0, chunk_data = []\<rparr> # streamed_chunks)"
    using streamed_fit by (simp add: chunk_fits_def)
  from replay_main_play [OF test_header_fits this, of 0 "fresh_tcp ?cmds" ?args n hex qs] streamed_in_order assms(1)
  obtain s r where s: "replay_of streamed_chunks ?args hex (fresh_tcp ?cmds) n qs = Some (Inr ((Break, s), r))"
    "\<not> panicked s"
    by (auto simp: replay_of_capture length_encode_chunk streamed_length)
  have "tcp_write_all MAGIC_PACKET (fresh_tcp ?cmds) = (Inr (), ?cl)"
    by (simp add: tcp_write_all_def fresh_tcp_def)
  from replay_of_started [OF this, of streamed_chunks ?args hex n qs] s(1)
  have "r = cmd_loop hex qs \<lparr>cmd_stream = (?cl\<lparr>read_timeout := Some 200\<rparr>)\<lparr>rx := ?cmds\<rparr>, cmd_log = []\<rparr>"
    by (auto simp: fresh_tcp_def)
  with logged_commands [OF assms(2), of hex "?cl\<lparr>read_timeout := Some 200\<rparr>"] s show ?thesis
    unfolding test_replay_logs_client_commands_def by auto
qed

section \<open>Together\<close>

text \<open>
  The model passes the tests: for every cipher and channel that behaves as documented, every
  random generator, port, error and build, every behaviour of a client that goes away, and
  every number of rounds that is large enough for the programs to come to their end.
\<close>

lemma integration_tests_hold:
  assumes "stream_cipher apply_keystream" and "broadcast_receiver try_recv_fn send_fn backlog capacity"
    and "backlog rx1 = []" and "1 \<le> capacity rx1" and "backlog rx2 = []" and "1 \<le> capacity rx2"
    and "length (fill 12) = 12" and "length (fill_server 12) = 12" and "\<And>k. 0 < room k"
    and "51 \<le> n" and "4 \<le> length qs"
  shows "test_chain_detect_handshake cipher_new fill p \<and>
    test_chain_detect_timeout_gives_plain cipher_new fill p msg \<and>
    test_encrypted_proxy_command_roundtrip cipher_new apply_keystream fill fill_server p \<and>
    test_broadcast_send_recv try_recv_fn send_fn rx1 rx2 \<and>
    test_broadcast_lag sub_try_recv sub_send (sub_new 4) \<and>
    test_encrypted_roundtrip cipher_new apply_keystream room \<and>
    test_replay_magic_and_data args hex n qs \<and>
    test_replay_exits_cleanly_on_disconnect args hex es n qs \<and>
    test_replay_logs_client_commands args hex n qs \<and>
    test_replay_missing_file_errors args hex e \<and>
    test_replay_corrupted_file_errors args hex \<and> test_replay_empty_file_errors args hex \<and>
    test_capture_connection_failure_errors cargs e metadata rs t \<and>
    test_invalid_mode_fails \<and> test_master_slave_same_port_rejected"
proof -
  have "2 \<le> n" "qs \<noteq> []" using assms(10,11) by auto
  then show ?thesis
    using handshake_test_holds [of cipher_new fill p] timeout_test_holds [of cipher_new fill p msg]
      stream_cipher.roundtrip_proxy_test_holds [OF assms(1), of fill fill_server cipher_new p, OF assms(7,8)]
      broadcast_receiver.send_recv_test_holds [OF assms(2-6)] sub_lag_test_holds
      stream_cipher.roundtrip_16_test_holds [OF assms(1), of room cipher_new, OF assms(9)]
      magic_and_data_test_holds [of n args hex qs] disconnect_test_holds [of n qs args hex es]
      commands_test_holds [OF assms(10,11), of args hex] failing_tests_hold rejected_lines
    by (intro conjI) assumption+
qed

end
