(* ===== verification/Spec2Isabelle.thy ===== *)
theory Spec2Isabelle
  imports Capture_Tool Replay_Threads Server_Refinement Stale_Nonces Proxy_Properties Write_Steps Integration_Tests
begin

text \<open>
  A verification of rtltcp2026, a server that shares an RTL-SDR receiver over TCP (the
  \<open>rtl_tcp\<close> protocol), with a proxy mode, optional encryption, and two companion programs
  that capture and replay a stream.

  \<^bold>\<open>The program and its model.\<close> A client connects, receives a twelve-byte magic packet and
  then samples, and sends five-byte commands that set the device. The parts, and where they
  are modelled:

  \<^item> \<open>src/control.rs\<close> (constants, ranges, whitelist, AGC state, rate limiter): theory
    \<open>Control\<close>, one definition per function, with the words at their width.
  \<^item> \<open>src/error.rs\<close>: theory \<open>Errors\<close>.
  \<^item> \<open>src/encryption.rs\<close> (\<open>EncryptedWriter\<close>, \<open>EncryptedReader\<close>, nonce exchange):
    theory \<open>Encryption\<close>.
  \<^item> \<open>src/stream.rs\<close> (\<open>write_client_loop\<close>, the writer of one client): theory
    \<open>Stream_Fanout\<close>.
  \<^item> \<open>src/proxy.rs\<close> (\<open>connect_upstream\<close>): theory \<open>Proxy\<close>.
  \<^item> \<open>src/main.rs\<close>: the command line (\<open>Cli\<close>); the command handlers (\<open>Device_Control\<close>)
    and the two control threads (\<open>Control_Threads\<close>: \<open>single_loop\<close> for the closure of
    \<open>run_serve_single\<close>, \<open>master_loop\<close> for \<open>spawn_master_control_thread\<close>, whose
    handlers the source writes out a second time and the theory, too, with a lemma that the
    two copies agree);
    \<open>run_serve_single\<close> (\<open>Serve_Single\<close>, a step relation over the interleavings of main
    thread, control thread, cancel thread and signal handler); \<open>spawn_slave_acceptor\<close>
    (\<open>Slave_Acceptor\<close>); \<open>run_serve_multi\<close>, its start-up and its loop as a sequence of
    sessions (\<open>Serve_Multi\<close>, which follows the main thread only and has no lock) and as the
    interleaving of all its threads
    (\<open>Multi_Threads\<close>: main thread, control thread, writers, acceptor, cancel thread,
    device reader, signal handler, with the lock on the nonces and the list of connections as
    shared state); \<open>run_proxy_multi\<close>, its two threads (\<open>Proxy_Threads\<close>), its start-up
    and loop (\<open>Proxy_Multi\<close>) and the interleaving of all its threads on the one upstream
    socket (\<open>Proxy_Steps\<close>).
  \<^item> \<open>src/capture/mod.rs\<close> (the file format): theory \<open>Capture\<close>;
    \<open>src/bin/capture.rs\<close>: \<open>Capture_Tool\<close>; \<open>src/bin/replay.rs\<close>: \<open>Replay\<close>,
    and the interleaving of its two threads in \<open>Replay_Threads\<close>.

  \<^bold>\<open>The interleavings.\<close> Both modes share \<open>Fanout_Threads\<close>: the sockets, the writers
  and the acceptor as one record, \<open>writer_turn\<close> and \<open>acceptor_turn\<close> as their steps,
  and what they keep (\<open>fanout_wf\<close>, and \<open>feeds\<close> for what a client has been sent). A
  client's socket is owned by index, so the threads that read it and write it act on the
  same stream. A step is one turn of one thread up to the next point where another thread
  can be seen: \<open>Master_Steps\<close> cuts a round of the master's control thread at the nonce
  exchange and at the lock, and has a lemma that the steps make up the round. \<open>mt_step\<close> and
  \<open>pt_step\<close> are the step relations (\<open>serve_step\<close> is single-client mode's), and runs
  (\<open>Runs\<close>) the sequences of steps in any order; its locales \<open>step_system\<close>,
  \<open>stopping_system\<close> and \<open>refinement\<close> have what an invariant, a shutdown measure and
  a simulation give, and are interpreted for the modes. \<open>Multi_Liveness\<close> has the measure
  of multi-client mode, \<open>Master_Stream\<close> what a master is sent by the threads that share its
  socket, \<open>Stale_Nonces\<close> which session the nonces come from that a writer starts with, \<open>Multi_Properties\<close> and \<open>Proxy_Properties\<close> the properties, with concrete
  runs as their witnesses. \<open>Write_Steps\<close> goes below these steps: it has the writes of
  threads that are inside the standard library's \<open>write_all\<close> on one socket at the same time.

  \<^bold>\<open>The abstract server.\<close> \<open>Server_Spec\<close> says what both serve modes promise the owner
  of the device, without sockets, threads, locks and ciphers: commands performed one after
  the other with the effect the protocol table gives them (\<open>command_calls\<close>), a stop that
  is asked for and carried out once, and an end, clean only after the stop.
  \<open>Server_Refinement\<close> has the simulations: every step of \<open>serve_step\<close> and of
  \<open>mt_step\<close> is an action of the abstract server or none.

  \<^bold>\<open>The library underneath.\<close> \<open>Prelude\<close> has words, bytes and their encodings.
  \<open>Std_IO\<close> has \<open>std::io\<close>: errors as values, the result-and-state monad, and
  \<open>read_exact\<close>, \<open>read_to_end\<close> and \<open>write_all\<close> as the loops of the standard library over any reader or
  writer; the locales \<open>io_reader\<close> and \<open>io_writer\<close> say what makes these loops return.
  \<open>Tcp_Stream\<close> and \<open>File_Stream\<close> are the readers and writers: a TCP stream is a
  script of the batches and errors the socket will report and of what its writes will do, so
  every statement about a stream is one about all behaviours of peer and network.
  \<open>Buf_Writer\<close> is \<open>BufWriter\<close>. \<open>Std_Text\<close> has numbers and IP addresses as text,
  \<open>Ip_Text\<close> that every address is parsed back from its printed form.
  \<open>Loops\<close> has the locale \<open>thread_loop\<close>: a thread's loop, what makes it end, and what
  its rounds preserve; each thread is an interpretation of it.

  \<^bold>\<open>What is not the program's own is an argument.\<close> The \<open>chacha20\<close> cipher (locale
  \<open>stream_cipher\<close>, interpreted by keystream ciphers), the \<open>tokio\<close> broadcast channel
  (locale \<open>broadcast_receiver\<close>, interpreted by a bounded subscription), the
  \<open>ipnet\<close> networks, the \<open>hex\<close> codec, the random generator (what it yields is an
  input of each round of a master's thread, \<open>draw\<close>, so that every handshake may draw another
  nonce), the device library (the
  calls made on it are recorded; whether a call succeeds only changes the log), the clock,
  and the results of binding, connecting, cloning and opening.

  The locale \<open>ip_networks\<close> (\<open>Ip_Networks\<close>) says what is relied on of
  \<open>ipnet\<close>, with a parser of networks as its interpretation.

  \<^bold>\<open>Validation.\<close> \<open>Test_Suite\<close> has the unit tests of the source files as predicates over
  the model, under their own names, and shows that the model passes them, but for the one
  that two random nonces differ. \<open>Integration_Tests\<close> does the same for those tests under
  \<open>tests/\<close> that exercise the program and need neither a receiver nor \<open>clap\<close>.

  \<^bold>\<open>Threads and time.\<close> A loop takes a list with one entry per round for what the round
  reads from outside (exit flag, clock), and is still running when the list is used up. No
  bound is chosen: the theorems hold for every list, and a loop that has one round more than
  its connection has events left has ended (\<open>run_ends\<close>). What ends a stopped proxy
  or replay is not the end of these scripts but the flags the threads look at: the bounds count
  the time-outs of the current master (\<open>pauses\<close>, for the proxy) or the commands before the
  first time-out (\<open>before_pause\<close>, for the replay), and hold however much is still sent. That
  of multi-client mode counts what the current master still has to say, its time-outs included.
  Shutting a socket down has the effect \<open>std::net::Shutdown\<close> documents: pending and future
  reads and writes return at once. \<open>None\<close> is a call that never
  returns, and every model that could be \<open>None\<close> is shown not to be.

  \<^bold>\<open>What is shown.\<close> The device is only ever asked for values in range, for any input, in
  every mode and interleaving; control threads implement the protocol (\<open>Serve_Refinement\<close>
  has the specification of one command), both serve modes implement the abstract server, and commands sent through an encrypted proxy chain have
  their effect on the upstream device (\<open>Chain\<close>); a flood of commands is bounded by the
  rate limiter; no mode loses a stop request, and each comes to its end after one, whatever
  the order of the threads' steps, multi-client mode and the proxy as soon as the current
  master stops being silent or leaves; without a signal these two are ended by nothing but a
  master that cannot be admitted; clients get whole buffers in order, a slave and a
  client of the proxy all of them for as long as it is never more than the channel's capacity
  behind (\<open>stays_within\<close>), a master with the words of the other threads in between and, with
  a key, under one unbroken keystream; the proxy relays both directions unchanged, and takes at
  most seventeen bytes of the upstream's stream for itself before it does; the encryption wrappers and
  the capture format round trip, a replayed capture is what was captured, and both companion
  programs come to their end; the parts compose, from the device's buffers through a slave
  connection, a capture and a replay to the replay's client (\<open>device_to_replay\<close>), and through
  the master's connection and a proxy to the proxy's client (\<open>chain_delivers_samples\<close>); arguments,
  keys and addresses are parsed as meant; the acceptor keeps its limits. Further theorems
  state where the code does not do what it means to: short writes under encryption, bytes
  lost to the chain probe, timeouts inside a command, the exit flag while a master is idle,
  nonces of an earlier session, a handshake that waits for a running writer, a lost device or upstream that
  nobody notices, early samples, words of one
  thread inside the buffer of another, refused masters, the slave count, and a failed flush.

  \<^bold>\<open>What is left out.\<close> The text of log messages other than error values; \<open>clap\<close>'s
  parser; the floating-point scaling of the replay's pauses, an argument; the atomicity below
  a step, writes apart (a turn of the acceptor, from \<open>accept\<close> to the start of the
  writer, is one step, and so is a write that is taken in pieces: what is said of a client's
  stream takes each write as taken whole, and \<open>Write_Steps\<close> says what holds without that); fairness of the
  scheduler, which the bounds on a shutdown do not need. A connection's script ends, so a
  master that never disconnects is one whose script is long, not infinite.
\<close>

section \<open>Properties that span components\<close>

lemma subseq_sorted:
  assumes "subseq xs ys" and "sorted ys"
  shows "sorted xs"
  using assms
proof (induction rule: list_emb.induct)
  case (list_emb_Cons2 x y xs ys)
  have "set xs \<subseteq> set ys"
    using list_emb_Cons2.hyps(2) by (blast elim: list_emb_set)
  with list_emb_Cons2 show ?case by auto
qed auto

lemma in_order_sorted:
  "sorted ((case prev of None \<Rightarrow> [] | Some p \<Rightarrow> [p]) @ ts) \<Longrightarrow> in_order prev ts"
  by (induction ts arbitrary: prev) (auto split: option.splits)

text \<open>Stamps of a clock that does not run backwards are in order in the file.\<close>

lemma recorded_in_order:
  assumes "recorded src rs cs s" and "sorted (map stamp rs)" and "list_all (\<lambda>r. stamp r < 2 ^ 64) rs"
  shows "in_order None (map timestamp_ns cs)"
proof -
  have mono: "(of_nat a :: u64) \<le> of_nat b" if "a \<le> b" "b < 2 ^ 64" for a b
    using that by (simp add: word_le_nat_alt unat_of_nat take_bit_nat_eq_self)
  have "sorted (map (\<lambda>r. of_nat (stamp r) :: u64) rs)"
    using assms(2,3) mono by (induction rs) (auto simp: list_all_iff)
  moreover have "subseq (map timestamp_ns cs) (map (\<lambda>r. of_nat (stamp r)) rs)"
    using assms(1) by (simp add: recorded_def)
  ultimately have "sorted (map timestamp_ns cs)" by (rule subseq_sorted [rotated])
  then show ?thesis by (intro in_order_sorted) simp
qed

lemma captured_replayed:
  assumes "tcp_read_exact 12 (snd (set_read_timeout (timeout_s args * 1000) s0)) = (Inr magic, s2)"
    and "sorted (map stamp rs)" and "list_all (\<lambda>r. stamp r < 2 ^ 64) rs"
    and "tx_script client = []" and "\<not> loop_mode rargs"
  shows "\<exists>fl s data k. capture_main args (Inr s0) (Inr (file_of [])) rs = Some (Inr (fl, s)) \<and>
    stream_bytes (rx s2) = data @ stream_bytes (rx (cap_stream s)) \<and>
    (\<forall>n qs. k < n \<longrightarrow> (\<exists>t r. replay_main rargs hex_encode
        (Inr (file_of (f_data (cap_file s)))) (Inr ()) (Inr client) (Inr ()) n qs =
          Some (Inr ((Break, t), r)) \<and>
        tx (rep_client t) = tx client @ magic @ data \<and> \<not> panicked t))"
proof -
  from capture_main_run [OF assms(1), of rs] obtain fl s cs where
    cap: "capture_main args (Inr s0) (Inr (file_of [])) rs = Some (Inr (fl, s))"
      "f_data (cap_file s) = encode_capture \<lparr>magic_payload = magic\<rparr> cs" "recorded (rx s2) rs cs s"
    by blast
  have hf: "header_fits \<lparr>magic_payload = magic\<rparr>"
    using tcp_read_exact_length [OF assms(1)] by (simp add: header_fits_def)
  let ?c = "\<lparr>timestamp_ns = 0, chunk_data = []\<rparr> :: capture_chunk"
  have cf: "list_all chunk_fits (?c # cs)"
    using cap(3) by (auto simp: recorded_def list_all_iff chunk_fits_def)
  have "\<exists>t r. replay_main rargs hex_encode (Inr (file_of (f_data (cap_file s)))) (Inr ()) (Inr client)
      (Inr ()) n qs = Some (Inr ((Break, t), r)) \<and>
      tx (rep_client t) = tx client @ magic @ concat (map chunk_data cs) \<and> \<not> panicked t"
    if "length cs < n" for n qs
    using replay_main_play [OF hf cf _ assms(4,5) that, of 0 hex_encode qs]
      recorded_in_order [OF cap(3) assms(2,3)] cap(2)
    by (auto simp: length_encode_chunk)
  with cap show ?thesis
    by (intro exI [of _ fl] exI [of _ s] exI [of _ "concat (map chunk_data cs)"] exI [of _ "length cs"])
      (auto simp: recorded_def)
qed

text \<open>
  C12. Capture and replay, end to end: whatever a server sends after its magic packet, and
  however the connection behaves, a client of the replay program that plays the captured
  file receives the magic packet and then exactly the bytes the capture program had read, in
  the same order; in every build, since the stamps the capture program writes never
  decrease.
\<close>

theorem capture_then_replay:
  assumes "tcp_read_exact 12 (snd (set_read_timeout (timeout_s args * 1000) s0)) = (Inr magic, s2)"
    and "sorted (map stamp rs)" and "list_all (\<lambda>r. stamp r < 2 ^ 64) rs"
    and "tx_script client = []" and "\<not> loop_mode rargs"
  shows "\<exists>fl s data k. capture_main args (Inr s0) (Inr (file_of [])) rs = Some (Inr (fl, s)) \<and>
    stream_bytes (rx s2) = data @ stream_bytes (rx (cap_stream s)) \<and>
    (\<forall>n qs. k < n \<longrightarrow> (\<exists>t r. replay_main rargs hex_encode
        (Inr (file_of (f_data (cap_file s)))) (Inr ()) (Inr client) (Inr ()) n qs =
          Some (Inr ((Break, t), r)) \<and>
        tx (rep_client t) = tx client @ magic @ data \<and> \<not> panicked t))"
  using assms by (rule captured_replayed)

theorem capture_then_replay_witness:
  "\<exists>fl s data k. capture_main \<lparr>duration_s = 10, timeout_s = 5, buffer_mem = 16\<rparr>
      (Inr (fresh_tcp [Data [1, 2, 3, 4, 5, 6, 7, 8, 9, 10, 11, 12, 13, 14], Data [15]]))
      (Inr (file_of [])) [\<lparr>interrupted = False, elapsed = 7, stamp = 9\<rparr>] = Some (Inr (fl, s)) \<and>
    [13, 14, 15] = data @ stream_bytes (rx (cap_stream s)) \<and>
    (\<forall>n qs. k < n \<longrightarrow> (\<exists>t r. replay_main
        \<lparr>speed_positive = True, scale_delay = (\<lambda>d. d), loop_mode = False, overflow_checks = True\<rparr>
        (\<lambda>_. ''00'') (Inr (file_of (f_data (cap_file s)))) (Inr ()) (Inr (fresh_tcp [])) (Inr ()) n qs =
          Some (Inr ((Break, t), r)) \<and>
        tx (rep_client t) = [1, 2, 3, 4, 5, 6, 7, 8, 9, 10, 11, 12] @ data \<and> \<not> panicked t))"
  using capture_then_replay
    [of "\<lparr>duration_s = 10, timeout_s = 5, buffer_mem = 16\<rparr>"
      "fresh_tcp [Data [1, 2, 3, 4, 5, 6, 7, 8, 9, 10, 11, 12, 13, 14], Data [15]]"
      "[1, 2, 3, 4, 5, 6, 7, 8, 9, 10, 11, 12]"
      "(fresh_tcp [Data [13, 14], Data [15]])\<lparr>read_timeout := Some 5000\<rparr>"
      "[\<lparr>interrupted = False, elapsed = 7, stamp = 9\<rparr>]" "fresh_tcp []"
      "\<lparr>speed_positive = True, scale_delay = (\<lambda>d. d), loop_mode = False, overflow_checks = True\<rparr>"
      "\<lambda>_. ''00''"]
  by (simp add: fresh_tcp_def set_read_timeout_def tcp_read_exact_def)

section \<open>From the device to a replay\<close>

lemma demo_slave_fed_tx:
  "tx (conns (mt_fan demo_slave_fed) ! w_conn (writers (mt_fan demo_slave_fed) ! 1)) = MAGIC_PACKET @ [7, 8]"
  by (simp add: demo_slave_fed_def demo_slave_def demo_guest_slave_def demo_blocked_def demo_defs mt_acceptor_def
      acceptor_turn_def acceptor_round_def acceptor_view_def multi_acceptor_env_def check_whitelist_def
      is_ip_in_whitelist_iff admit_slave_def spawn_writer_def send_magic_unchecked_def buf_write_all_def
      flush_buf_def buf_drop_def set_write_timeout_def mt_writer_def mt_batch_def broadcast_buffer_def
      writer_turn_def plain_round_def sub_send_def sub_try_recv_def sub_new_def update_writer_def
      MAGIC_PACKET_def DEFAULT_BROADCAST_CAPACITY_def Let_def)

text \<open>
  C10. From the device over a slave connection and a capture file to the client of a replay: when
  the capture program is a slave of the multi-client server (what its socket delivers is what
  the server has written to it, as far as it arrived), then whatever the other clients and
  threads of the server do, however the network cuts and delays the stream, and wherever the
  capture ends, a client of the replay program that plays the file receives the magic packet
  and then samples of the device: a first part of the whole buffers that were
  delivered to the slave, in the order the device produced them, and all that arrived if the
  capture program came to read it.
\<close>

theorem device_to_replay:
  assumes "broadcast_receiver (fe_try_recv (mt_fanout env)) (fe_send (mt_fanout env)) backlog capacity"
    and "backlog (fe_subscribe (mt_fanout env)) = []"
    and "mt_reachable p n env s0" and "mt_step p n env (EvSlave (Accepted conn ip True True)) s0 s"
    and "length (writers (mt_fan s)) = Suc (length (writers (mt_fan s0)))"
    and "tx conn = []" and "tx_script conn = []" and "mt_run p n env evs s s'" and "mt_running s'"
    and "prefix (stream_bytes (rx c0))
      (tx (conns (mt_fan s') ! w_conn (writers (mt_fan s') ! length (writers (mt_fan s0)))))"
    and "tcp_read_exact 12 (snd (set_read_timeout (timeout_s args * 1000) c0)) = (Inr magic, c2)"
    and "sorted (map stamp rs)" and "list_all (\<lambda>r. stamp r < 2 ^ 64) rs"
    and "tx_script client = []" and "\<not> loop_mode rargs"
  shows "\<exists>fl c data got k. capture_main args (Inr c0) (Inr (file_of [])) rs = Some (Inr (fl, c)) \<and>
    subseq got (batches evs) \<and> prefix data (concat got) \<and>
    (stream_bytes (rx (cap_stream c)) = [] \<longrightarrow> MAGIC_PACKET @ data = stream_bytes (rx c0)) \<and>
    (\<forall>m qs. k < m \<longrightarrow> (\<exists>t r. replay_main rargs hex_encode (Inr (file_of (f_data (cap_file c)))) (Inr ())
        (Inr client) (Inr ()) m qs = Some (Inr ((Break, t), r)) \<and>
        tx (rep_client t) = tx client @ MAGIC_PACKET @ data \<and> \<not> panicked t))"
proof -
  from captured_replayed [OF assms(11-15), of hex_encode] obtain fl c data k where
    cap: "capture_main args (Inr c0) (Inr (file_of [])) rs = Some (Inr (fl, c))"
      "stream_bytes (rx c2) = data @ stream_bytes (rx (cap_stream c))"
      "\<forall>m qs. k < m \<longrightarrow> (\<exists>t r. replay_main rargs hex_encode (Inr (file_of (f_data (cap_file c)))) (Inr ())
         (Inr client) (Inr ()) m qs = Some (Inr ((Break, t), r)) \<and>
         tx (rep_client t) = tx client @ magic @ data \<and> \<not> panicked t)"
    by blast
  have "rx (snd (set_read_timeout (timeout_s args * 1000) c0)) = rx c0" by (simp add: set_read_timeout_def)
  with tcp_read_exact_bytes [OF assms(11)] cap(2)
  have c0: "stream_bytes (rx c0) = magic @ data @ stream_bytes (rx (cap_stream c))" by auto
  obtain got where got: "subseq got (batches evs)"
    "tx (conns (mt_fan s') ! w_conn (writers (mt_fan s') ! length (writers (mt_fan s0)))) =
      MAGIC_PACKET @ concat got"
    using slave_stream [OF assms(1-9)] by blast
  have "length magic = length MAGIC_PACKET"
    using tcp_read_exact_length [OF assms(11)] by (simp add: MAGIC_PACKET_def)
  with assms(10) c0 got(2) have "magic = MAGIC_PACKET" "prefix data (concat got)"
    by (auto simp: prefix_def)
  with cap(1,3) c0 got(1) show ?thesis
    by (intro exI [of _ fl] exI [of _ c] exI [of _ data] exI [of _ got] exI [of _ k]) simp
qed

theorem device_to_replay_witness:
  "\<exists>fl c data got k. capture_main \<lparr>duration_s = 10, timeout_s = 5, buffer_mem = 16\<rparr>
      (Inr (fresh_tcp [Data (MAGIC_PACKET @ [7]), Data [8]])) (Inr (file_of []))
      [\<lparr>interrupted = False, elapsed = 7, stamp = 9\<rparr>, \<lparr>interrupted = False, elapsed = 8, stamp = 9\<rparr>] =
        Some (Inr (fl, c)) \<and>
    subseq got [[7, 8]] \<and> prefix data (concat got) \<and>
    (stream_bytes (rx (cap_stream c)) = [] \<longrightarrow> MAGIC_PACKET @ data = MAGIC_PACKET @ [7, 8]) \<and>
    (\<forall>m qs. k < m \<longrightarrow> (\<exists>t r. replay_main
        \<lparr>speed_positive = True, scale_delay = (\<lambda>d. d), loop_mode = False, overflow_checks = True\<rparr>
        (\<lambda>_. ''00'') (Inr (file_of (f_data (cap_file c)))) (Inr ()) (Inr (fresh_tcp [])) (Inr ()) m qs =
          Some (Inr ((Break, t), r)) \<and> tx (rep_client t) = MAGIC_PACKET @ data \<and> \<not> panicked t))"
proof -
  let ?c0 = "fresh_tcp [Data (MAGIC_PACKET @ [7]), Data [8]]"
  have link: "prefix (stream_bytes (rx ?c0))
      (tx (conns (mt_fan demo_slave_fed) ! w_conn (writers (mt_fan demo_slave_fed) !
        length (writers (mt_fan demo_blocked)))))"
    unfolding demo_slave_admitted(5) demo_slave_fed_tx by (simp add: fresh_tcp_def)
  have read: "tcp_read_exact 12 (snd (set_read_timeout
      (timeout_s \<lparr>duration_s = 10, timeout_s = 5, buffer_mem = 16\<rparr> * 1000) ?c0)) =
      (Inr MAGIC_PACKET, (fresh_tcp [Data [7], Data [8]])\<lparr>read_timeout := Some 5000\<rparr>)"
    by (simp add: fresh_tcp_def set_read_timeout_def tcp_read_exact_def MAGIC_PACKET_def)
  from device_to_replay [OF demo_channel_laws(1,2) demo_reachable demo_slave_admitted(1-4) demo_slave_run link read,
      of "[\<lparr>interrupted = False, elapsed = 7, stamp = 9\<rparr>, \<lparr>interrupted = False, elapsed = 8, stamp = 9\<rparr>]"
        "fresh_tcp []" "\<lparr>speed_positive = True, scale_delay = (\<lambda>d. d), loop_mode = False, overflow_checks = True\<rparr>"
        "\<lambda>_. ''00''"]
  show ?thesis by simp
qed

section \<open>From the device over a proxy\<close>

text \<open>
  C11. From the device of a server over a proxy to the proxy's client: the proxy is the
  server's master (what its upstream socket delivers is what the server has written to that
  master, as far as it arrived). Its start takes the first twelve bytes of that stream for the
  magic packet, and at most seventeen bytes more; everything after is relayed, and a local
  client, master or slave, receives these twelve bytes and then whole reads of the rest in
  order. They are the server's magic packet whenever the packet was the first thing the server
  sent that master; its writer can be quicker, and then they are samples. The stream itself is an
  interleaving of the server's words and of whole buffers of the device in order: in
  clear without a key, and with a key under the server's keystream, which the proxy does not
  take off.
\<close>

theorem chain_delivers_samples:
  assumes "broadcast_receiver (fe_try_recv (mt_fanout env)) (fe_send (mt_fanout env)) backlog capacity"
    and "stream_cipher (fe_apply_keystream (mt_fanout env))"
    and "backlog (fe_subscribe (mt_fanout env)) = []"
    and "mt_reachable p n env s0" and "mt_step p n env (EvAccept tu) s0 s"
    and "length (writers (mt_fan s)) = Suc (length (writers (mt_fan s0)))"
    and "tu_accept tu = Inr (conn, addr)" and "tx conn = []" and "tx_script conn = []"
    and "mt_run p n env evs s s'" and "mt_running s'"
    and "proxy_start connect cn fill pargs handler bound bind_slave enc_key cloned nonblocking = Some (Inr (st, px))"
    and "\<forall>a u. connect a = Inr u \<longrightarrow> prefix (stream_bytes (rx u))
      (tx (conns (mt_fan s') ! w_conn (writers (mt_fan s') ! length (writers (mt_fan s0)))))"
    and "broadcast_receiver (fe_try_recv (pt_fanout penv)) (fe_send (pt_fanout penv)) pbacklog pcapacity"
    and "pbacklog (fe_subscribe (pt_fanout penv)) = []" and "args_ok (pt_args penv)"
    and "pt_run q m penv evs0 (pt_begin px) t0" and "pt_step q m penv ev t0 t"
    and "client_of ev = Some guest" and "tx guest = []" and "tx_script guest = []"
    and "length (writers (pt_fan t)) = Suc (length (writers (pt_fan t0)))"
    and "pt_run q m penv pevs t t'"
  shows "\<exists>zs said samples got enc gone taken more.
    zs \<in> shuffles said samples \<and> set said \<subseteq> master_words (drawn evs) \<and>
    master_codes (mt_master env) enc \<and>
    concat samples =
      (case enc of
         None \<Rightarrow> concat got
       | Some c \<Rightarrow> fst (fe_apply_keystream (mt_fanout env) c (concat got))) \<and>
    map length samples = map length got \<and> subseq got (batches evs) \<and>
    length (px_magic px) = 12 \<and> length gone \<le> 17 \<and>
    prefix (px_magic px @ gone @ concat (pt_relayed t')) (concat zs) \<and>
    tx (conns (pt_fan t') ! w_conn (writers (pt_fan t') ! length (writers (pt_fan t0)))) =
      px_magic px @ concat taken \<and>
    subseq taken more \<and> pt_relayed t' = pt_relayed t0 @ more \<and>
    (\<forall>evs1 evs2 s1. evs = evs1 @ evs2 \<longrightarrow> mt_run p n env evs1 s s1 \<longrightarrow> mt_run p n env evs2 s1 s' \<longrightarrow>
       tx (conns (mt_fan s1) ! w_conn (writers (mt_fan s1) ! length (writers (mt_fan s0)))) = MAGIC_PACKET \<longrightarrow>
       px_magic px = MAGIC_PACKET)"
proof -
  let ?sent = "tx (conns (mt_fan s') ! w_conn (writers (mt_fan s') ! length (writers (mt_fan s0))))"
  obtain u a gone where u: "connect a = Inr u"
    "stream_bytes (rx u) = px_magic px @ gone @ stream_bytes (rx (m_data (px_upstream px)))"
    "length (px_magic px) = 12" "length gone \<le> 17"
    by (rule proxy_start_skips [OF assms(12)])
  obtain taken more where client: "pt_relayed t' = pt_relayed t0 @ more"
    "prefix (concat (pt_relayed t')) (stream_bytes (rx (m_data (px_upstream px))))"
    "tx (conns (pt_fan t') ! w_conn (writers (pt_fan t') ! length (writers (pt_fan t0)))) = px_magic px @ concat taken"
    "subseq taken more"
    using proxy_client_stream [OF assms(14-23)] by blast
  have "prefix (px_magic px @ gone @ concat (pt_relayed t')) ?sent"
    using assms(13) [rule_format, OF u(1)] client(2) unfolding u(2) by (auto simp: prefix_def)
  moreover have "px_magic px = MAGIC_PACKET"
    if "mt_run p n env evs1 s s1" "mt_run p n env evs2 s1 s'"
      "tx (conns (mt_fan s1) ! w_conn (writers (mt_fan s1) ! length (writers (mt_fan s0)))) = MAGIC_PACKET"
      "prefix (px_magic px @ gone @ concat (pt_relayed t')) ?sent"
    for evs1 evs2 s1
  proof -
    have "length MAGIC_PACKET = length (px_magic px)" using u(3) by (simp add: MAGIC_PACKET_def)
    with master_sent_grows [OF assms(1-9) that(1,2) assms(11)] that(4) show ?thesis
      unfolding that(3) by (auto simp: prefix_def append_eq_append_conv)
  qed
  ultimately show ?thesis
    using master_stream [OF assms(1-11)] u(3,4) client(1,3,4) by metis
qed

text \<open>A proxy on the encrypted connection of the demonstration server, and its local master.\<close>

definition demo_upstream :: "string \<Rightarrow> io_error + tcp" where
  "demo_upstream a = Inr (fresh_tcp [Data (tx (conns (mt_fan demo_sampled) ! w_conn (writers (mt_fan demo_sampled) ! 0)))])"

lemma demo_chain_start:
  obtains px :: "((nat \<Rightarrow> u8) \<times> nat) proxy_state" and st where
    "proxy_start demo_upstream (ks_new (\<lambda>_ _ _. 0x5A)) (\<lambda>n. replicate n 3)
       (demo_multi_args\<lparr>upstream := Some ''sdr:1234''\<rparr>) (Inr ()) (Inr ()) (\<lambda>_. Inr ()) (Inr None) (Inr ()) (Inr ()) =
       Some (Inr (st, px))" "px_magic px = MAGIC_PACKET"
proof -
  have "parse_upstream (''sdr'' @ '':'' @ show_nat (unat (1234 :: u16))) = Inr (''sdr'', 1234)"
    using parse_upstream_round_trip by blast
  moreover have "''sdr'' @ '':'' @ show_nat (unat (1234 :: u16)) = ''sdr:1234''" by code_simp
  moreover have "length MAGIC_PACKET = 12" by (simp add: MAGIC_PACKET_def)
  then obtain c where "connect_upstream demo_upstream (ks_new (\<lambda>_ _ _. 0x5A)) (\<lambda>n. replicate n 3) ''sdr'' 1234 None 500 =
      Some (Inr c)" "magic_packet c = MAGIC_PACKET"
    using connect_upstream_streaming [of demo_upstream "''sdr''" 1234 _ 500 MAGIC_PACKET "[0xF0, 0, 0, 0, 0]"
        "replicate 12 7 @ fst (ks_apply demo_key_cipher [7, 8])" None "ks_new (\<lambda>_ _ _. 0x5A)" "\<lambda>n. replicate n 3"]
    by (simp add: demo_upstream_def demo_sampled_tx) blast
  ultimately show ?thesis
    using that by (simp add: proxy_start_def required_upstream_def map_err_def lift_io_def demo_multi_args_def)
qed

theorem chain_delivers_samples_witness:
  "\<exists>px :: ((nat \<Rightarrow> u8) \<times> nat) proxy_state.
     let t = pt_accept any_net everybody demo_pt_env demo_guest (pt_begin px);
         t' = pt_reader demo_pt_env t :: ((nat \<Rightarrow> u8) \<times> nat, subscription) proxy_threads
     in px_magic px = MAGIC_PACKET \<and>
       (\<exists>zs said samples got enc gone taken more.
          zs \<in> shuffles said samples \<and> set said \<subseteq> master_words {replicate 12 7} \<and>
          master_codes demo_master_env enc \<and>
          concat samples = (case enc of None \<Rightarrow> concat got | Some c \<Rightarrow> fst (ks_apply c (concat got))) \<and>
          map length samples = map length got \<and> subseq got [[7, 8]] \<and>
          length (px_magic px) = 12 \<and> length gone \<le> 17 \<and>
          prefix (px_magic px @ gone @ concat (pt_relayed t')) (concat zs) \<and>
          tx (conns (pt_fan t') ! w_conn (writers (pt_fan t') ! 0)) = px_magic px @ concat taken \<and>
          subseq taken more \<and> pt_relayed t' = more)"
proof -
  obtain px :: "((nat \<Rightarrow> u8) \<times> nat) proxy_state" and st where
    px: "proxy_start demo_upstream (ks_new (\<lambda>_ _ _. 0x5A)) (\<lambda>n. replicate n 3)
       (demo_multi_args\<lparr>upstream := Some ''sdr:1234''\<rparr>) (Inr ()) (Inr ()) (\<lambda>_. Inr ()) (Inr None) (Inr ()) (Inr ()) =
       Some (Inr (st, px))" "px_magic px = MAGIC_PACKET"
    by (rule demo_chain_start)
  let ?begun = "pt_begin px :: ((nat \<Rightarrow> u8) \<times> nat, subscription) proxy_threads"
  let ?t = "pt_accept any_net everybody demo_pt_env demo_guest ?begun"
  note opened = demo_guest_opened [OF px(2)]
  have link: "\<forall>a u. demo_upstream a = Inr u \<longrightarrow> prefix (stream_bytes (rx u)) (tx (conns (mt_fan demo_sampled) ! w_conn (writers (mt_fan demo_sampled) !
      length (writers (mt_fan (mt_begin demo_multi :: ((nat \<Rightarrow> u8) \<times> nat, subscription) multi_threads))))))"
    by (auto simp: demo_upstream_def mt_begin_def)
  have rx: "broadcast_receiver (fe_try_recv (pt_fanout demo_pt_env)) (fe_send (pt_fanout demo_pt_env))
      waiting retained" "waiting (fe_subscribe (pt_fanout demo_pt_env)) = []"
    using sub_rx.broadcast_receiver_axioms by (simp_all add: demo_pt_env_def demo_fan_env_def sub_new_def)
  have ok: "args_ok (pt_args demo_pt_env)" by (simp add: args_ok_def demo_pt_env_def demo_multi_args_def)
  have step: "pt_step any_net everybody demo_pt_env (PxAccept demo_guest) ?begun ?t"
    by (rule pt_step.pt_accept) (simp add: pt_begin_def)
  have guest: "client_of (PxAccept demo_guest) = Some (fresh_tcp [])" "tx (fresh_tcp []) = []" "tx_script (fresh_tcp []) = []"
    by (simp_all add: demo_guest_def)
  have new: "length (writers (pt_fan ?t)) = Suc (length (writers (pt_fan ?begun)))"
    using opened(2) by (simp add: pt_begin_def)
  have "pt_running ?t" using opened(1) by (simp add: pt_running_def)
  then have run: "pt_run any_net everybody demo_pt_env [PxReader] ?t (pt_reader demo_pt_env ?t)"
    using opened(4) by (intro pt.run_one pt_step.pt_reader)
  let ?evs = "[EvMagic demo_master, EvControl 1 demo_draw, EvControl 2 demo_draw, EvControl 3 demo_draw, EvWriter 0] @
    [EvBatch [7, 8]] @ [EvWriter 0]"
  have evs: "drawn ?evs = {replicate 12 7}" "batches ?evs = [[7, 8]]"
    by (simp_all add: drawn_def generate_nonce_def)
  have none: "pt_relayed ?begun = []" "length (writers (pt_fan ?begun)) = 0"
    by (simp_all add: pt_begin_def)
  note chain = chain_delivers_samples [OF demo_link_laws(3-5) demo_first_master demo_sampling px(1) link rx ok
      pt.run_none step guest new run, unfolded demo_link_laws(1,2) evs none append_Nil]
  show ?thesis
    unfolding Let_def
  proof (rule exI [of _ px], rule conjI [OF px(2)], goal_cases)
    case 1
    from chain show ?case by (elim exE conjE) (intro exI conjI, assumption+)
  qed
qed

end
